(* ===== verification/Bus_Prelude.thy ===== *)
theory Bus_Prelude
  imports Complex_Main "HOL-Library.Word" "HOL-Library.Log_Nat" "HOL-Library.Code_Target_Nat"
begin

text \<open>
  The prelude of the development: the machine-integer types of the program, the
  result type of operations that can panic, the standard-library operations on
  integers and bytes that several components use, and the generic lemmas about
  lists, words and byte strings that their proofs share.

  The program is read as its release build (\<open>[profile.release]\<close> in
  \<open>Cargo.toml\<close> leaves \<open>overflow-checks\<close> off), on the 64-bit little-endian targets
  the README names: \<open>usize\<close> has 64 bits, \<open>+\<close> and \<open>-\<close> on \<open>u64\<close> wrap around,
  and a struct is laid out in memory least significant byte first.
\<close>

section \<open>Machine integers\<close>

type_synonym u8 = "8 word"
type_synonym u32 = "32 word"
type_synonym u64 = "64 word"
type_synonym u128 = "128 word"

text \<open>An \<open>i64\<close> is the same 64 bits, read with \<open>sint\<close>.\<close>

type_synonym i64 = "64 word"

text \<open>A panic of the Rust code: an \<open>assert!\<close>, an index out of bounds, an
  \<open>expect\<close> or a panicking library call.\<close>

datatype panic = AssertFailed | IndexOutOfBounds | LibraryPanic

type_synonym 'a result = "panic + 'a"

named_theorems word_arith_simps \<open>facts that move word arithmetic to natural numbers\<close>
named_theorems layout_simps \<open>sizes, alignments and offsets of the C layouts\<close>

definition saturating_sub :: "'a::len word \<Rightarrow> 'a word \<Rightarrow> 'a word" where
  "saturating_sub a b = (if b \<le> a then a - b else 0)"

definition saturating_add :: "'a::len word \<Rightarrow> 'a word \<Rightarrow> 'a word" where
  "saturating_add a b = (if unat a + unat b < 2 ^ LENGTH('a) then a + b else - 1)"

lemma unat_saturating_sub [word_arith_simps]:
  "unat (saturating_sub a b) = unat a - unat b"
  by (auto simp: saturating_sub_def unat_sub word_le_nat_alt)

lemma unat_max_word: "unat (- 1 :: 'a::len word) = 2 ^ LENGTH('a) - 1"
  by (simp add: unsigned_minus_1_eq_mask mask_eq_exp_minus_1)

lemma unat_saturating_add [word_arith_simps]:
  "unat (saturating_add a b :: 'a::len word) = min (unat a + unat b) (2 ^ LENGTH('a) - 1)"
proof (cases "unat a + unat b < 2 ^ LENGTH('a)")
  case True
  then show ?thesis by (simp add: saturating_add_def unat_word_ariths)
next
  case False
  then show ?thesis by (simp add: saturating_add_def unat_max_word)
qed

lemma unat_of_nat64 [word_arith_simps]: "unat (of_nat n :: u64) = n mod 2 ^ 64"
  by (simp add: unat_of_nat)

lemma unat_lt64: "unat (x :: u64) < 2 ^ 64"
  using unsigned_less [of x] by simp

lemma unat_lt32: "unat (x :: u32) < 2 ^ 32"
  using unsigned_less [of x] by simp

lemma unat_of_nat64_small: "n < 2 ^ 64 \<Longrightarrow> unat (of_nat n :: u64) = n"
  by (simp add: unat_of_nat)

lemma of_nat64_eq_iff: "(of_nat a :: u64) = of_nat b \<longleftrightarrow> a mod 2 ^ 64 = b mod 2 ^ 64"
  by (metis unat_of_nat64 word_unat_eq_iff)

section \<open>Little-endian byte strings\<close>

text \<open>The bytes of an integer in memory, and the integer a byte string denotes.\<close>

fun le_bytes :: "nat \<Rightarrow> nat \<Rightarrow> u8 list" where
  "le_bytes 0 v = []"
| "le_bytes (Suc n) v = of_nat (v mod 256) # le_bytes n (v div 256)"

fun le_val :: "u8 list \<Rightarrow> nat" where
  "le_val [] = 0"
| "le_val (b # bs) = unat b + 256 * le_val bs"

lemma length_le_bytes [simp]: "length (le_bytes n v) = n"
  by (induction n arbitrary: v) auto

lemma le_val_le_bytes: "le_val (le_bytes n v) = v mod 256 ^ n"
proof (induction n arbitrary: v)
  case 0
  then show ?case by simp
next
  case (Suc n)
  have "v mod 256 ^ Suc n = v mod 256 + 256 * (v div 256 mod 256 ^ n)"
    by (simp add: mod_mult2_eq add.commute)
  then show ?case by (simp add: Suc unat_of_nat)
qed

lemma le_val_bound: "le_val bs < 256 ^ length bs"
proof (induction bs)
  case Nil
  then show ?case by simp
next
  case (Cons b bs)
  have "unat b < 256" using unsigned_less [of b] by simp
  with Cons show ?case by simp
qed

lemma le_bytes_le_val: "le_bytes (length bs) (le_val bs) = bs"
proof (induction bs)
  case Nil
  then show ?case by simp
next
  case (Cons b bs)
  have "unat b < 256" using unsigned_less [of b] by simp
  with Cons show ?case by simp
qed

text \<open>A field of a struct: \<open>n\<close> bytes at offset \<open>off\<close>.\<close>

definition bytes_at :: "nat \<Rightarrow> nat \<Rightarrow> u8 list \<Rightarrow> u8 list" where
  "bytes_at off n bs = take n (drop off bs)"

definition u64_at :: "nat \<Rightarrow> u8 list \<Rightarrow> u64" where
  "u64_at off bs = of_nat (le_val (bytes_at off 8 bs))"

definition u32_at :: "nat \<Rightarrow> u8 list \<Rightarrow> u32" where
  "u32_at off bs = of_nat (le_val (bytes_at off 4 bs))"

definition u64_bytes :: "u64 \<Rightarrow> u8 list" where
  "u64_bytes x = le_bytes 8 (unat x)"

definition u32_bytes :: "u32 \<Rightarrow> u8 list" where
  "u32_bytes x = le_bytes 4 (unat x)"

lemma length_u64_bytes [simp]: "length (u64_bytes x) = 8"
  by (simp add: u64_bytes_def)

lemma length_u32_bytes [simp]: "length (u32_bytes x) = 4"
  by (simp add: u32_bytes_def)

lemma of_nat_le_val_u64_bytes [simp]: "of_nat (le_val (u64_bytes x)) = x"
  using unat_lt64 [of x] by (simp add: u64_bytes_def le_val_le_bytes)

lemma of_nat_le_val_u32_bytes [simp]: "of_nat (le_val (u32_bytes x)) = x"
  using unat_lt32 [of x] by (simp add: u32_bytes_def le_val_le_bytes)

lemma u64_bytes_u64_at:
  assumes "off + 8 \<le> length bs"
  shows "u64_bytes (u64_at off bs) = bytes_at off 8 bs"
proof -
  have len: "length (bytes_at off 8 bs) = 8"
    using assms by (simp add: bytes_at_def)
  have "le_val (bytes_at off 8 bs) < 2 ^ 64"
    using le_val_bound [of "bytes_at off 8 bs"] len by simp
  then show ?thesis
    using le_bytes_le_val [of "bytes_at off 8 bs"] len
    by (simp add: u64_bytes_def u64_at_def unat_of_nat)
qed

lemma u32_bytes_u32_at:
  assumes "off + 4 \<le> length bs"
  shows "u32_bytes (u32_at off bs) = bytes_at off 4 bs"
proof -
  have len: "length (bytes_at off 4 bs) = 4"
    using assms by (simp add: bytes_at_def)
  have "le_val (bytes_at off 4 bs) < 2 ^ 32"
    using le_val_bound [of "bytes_at off 4 bs"] len by simp
  then show ?thesis
    using le_bytes_le_val [of "bytes_at off 4 bs"] len
    by (simp add: u32_bytes_def u32_at_def unat_of_nat)
qed

lemma bytes_at_append:
  "bytes_at off n (xs @ ys) =
     (if length xs \<le> off then bytes_at (off - length xs) n ys
      else take n (drop off xs) @ take (n - (length xs - off)) ys)"
  by (simp add: bytes_at_def)

lemma bytes_at_split:
  "off + n \<le> length bs \<Longrightarrow> bytes_at off n bs @ drop (off + n) bs = drop off bs"
  by (simp add: bytes_at_def drop_drop [symmetric] add.commute del: drop_drop)

section \<open>C layout of structs\<close>

text \<open>
  \<open>#[repr(C)]\<close>: fields in order, each at the next multiple of its alignment; the
  struct is aligned as its most aligned field (or more, with \<open>align(n)\<close>) and its
  size is rounded up to its alignment. A field is its size and its alignment.
\<close>

type_synonym ctype = "nat \<times> nat"

definition round_up :: "nat \<Rightarrow> nat \<Rightarrow> nat" where
  "round_up n a = (n + (a - 1)) div a * a"

fun c_offsets :: "nat \<Rightarrow> ctype list \<Rightarrow> nat list" where
  "c_offsets off [] = []"
| "c_offsets off ((sz, al) # fs) = round_up off al # c_offsets (round_up off al + sz) fs"

fun c_end :: "nat \<Rightarrow> ctype list \<Rightarrow> nat" where
  "c_end off [] = off"
| "c_end off ((sz, al) # fs) = c_end (round_up off al + sz) fs"

definition c_struct :: "nat \<Rightarrow> ctype list \<Rightarrow> ctype" where
  "c_struct min_align fs =
     (let al = fold max (map snd fs) min_align in (round_up (c_end 0 fs) al, al))"

definition c_array :: "ctype \<Rightarrow> nat \<Rightarrow> ctype" where
  "c_array t n = (fst t * n, snd t)"

definition c_u8 :: ctype where "c_u8 = (1, 1)"
definition c_u32 :: ctype where "c_u32 = (4, 4)"
definition c_u64 :: ctype where "c_u64 = (8, 8)"

lemmas c_layout_defs [layout_simps] =
  round_up_def c_struct_def c_array_def c_u8_def c_u32_def c_u64_def Let_def

lemma round_up_ge: "0 < a \<Longrightarrow> n \<le> round_up n a"
proof -
  assume a: "0 < a"
  have "(n + (a - 1)) div a * a + (n + (a - 1)) mod a = n + (a - 1)"
    by (rule div_mult_mod_eq)
  moreover have "(n + (a - 1)) mod a \<le> a - 1"
    using a by (simp add: less_Suc_eq_le [symmetric])
  ultimately show ?thesis unfolding round_up_def by linarith
qed

section \<open>The monotonic clock\<close>

text \<open>An \<open>Instant\<close> is a number of nanoseconds; its seconds are an \<open>i64\<close>, and the addition of a duration that
  does not fit panics.\<close>

definition instant_add :: "nat \<Rightarrow> nat \<Rightarrow> nat result" where
  "instant_add now d = (if now + d < 2 ^ 63 * 1000000000 then Inr (now + d) else Inl LibraryPanic)"

text \<open>The deadline of a run that is given a length in seconds; 0 is no deadline.\<close>

definition bench_deadline :: "nat \<Rightarrow> u64 \<Rightarrow> nat option result" where
  "bench_deadline started bench_secs =
     (if 0 < bench_secs
      then (case instant_add started (unat bench_secs * 1000000000) of Inl e \<Rightarrow> Inl e | Inr d \<Rightarrow> Inr (Some d))
      else Inr None)"

lemma bench_deadline_none [simp]: "bench_deadline started 0 = Inr None"
  by (simp add: bench_deadline_def)

section \<open>Lists\<close>

lemma map_nth_upt_shift: "map (\<lambda>k. f (k + n)) [0..<m] = map f [n..<n + m]"
  by (rule nth_equalityI) (auto simp: add.commute)

lemma upt_split_last: "a \<le> b \<Longrightarrow> [a..<Suc b] = [a..<b] @ [b]"
  by simp

lemma mod_range_inj:
  assumes "a mod N = b mod N" "a < c + N" "b < c + N" "c \<le> a" "c \<le> b"
  shows "a = (b::nat)"
proof (rule ccontr)
  assume "a \<noteq> b"
  then consider "a < b" | "b < a" by linarith
  then show False
  proof cases
    case 1
    then have "(b - a) mod N = 0" using assms(1) by (metis mod_eq_dvd_iff_nat dvd_imp_mod_0 less_imp_le)
    moreover have "0 < b - a" "b - a < N" using 1 assms by auto
    ultimately show False by simp
  next
    case 2
    then have "(a - b) mod N = 0" using assms(1) by (metis mod_eq_dvd_iff_nat dvd_imp_mod_0 less_imp_le)
    moreover have "0 < a - b" "a - b < N" using 2 assms by auto
    ultimately show False by simp
  qed
qed

end
