(* ===== verification/Message.thy ===== *)
theory Message
  imports Bus_Prelude
begin

text \<open>
  The wire formats of \<open>crates/shmbus/src/message.rs\<close>: the \<open>Side\<close> enum, the structs
  \<open>MarketTick\<close> and \<open>OrderMsg\<close> with their C layouts, the reinterpretation of a
  struct as its bytes (\<open>slice::from_raw_parts\<close>) and back (\<open>ptr::read\<close>), and
  \<open>symbol_str\<close>. A Rust \<open>&str\<close> is the list of its UTF-8 bytes. The two \<open>Display\<close>
  implementations are in \<open>Message_Text\<close>, as they need the text of floats.
\<close>

definition SYMBOL_LEN :: nat where "SYMBOL_LEN = 8"

section \<open>Side\<close>

datatype side = Buy | Sell

fun side_as_u8 :: "side \<Rightarrow> u8" where
  "side_as_u8 Buy = 1"
| "side_as_u8 Sell = 2"

definition side_from_u8 :: "u8 \<Rightarrow> side option" where
  "side_from_u8 b = (if b = 1 then Some Buy else if b = 2 then Some Sell else None)"

lemma side_from_as_u8 [simp]: "side_from_u8 (side_as_u8 s) = Some s"
  by (cases s) (simp_all add: side_from_u8_def)

lemma side_from_u8_Some: "side_from_u8 b = Some s \<longleftrightarrow> b = side_as_u8 s"
  by (cases s) (auto simp: side_from_u8_def split: if_splits)

section \<open>The structs\<close>

record market_tick =
  mt_seq_num :: u64
  mt_exch_ts_ns :: u64
  mt_recv_ts_ns :: u64
  mt_symbol :: "u8 list"
  mt_bid_px :: i64
  mt_ask_px :: i64
  mt_bid_sz :: u32
  mt_ask_sz :: u32
  mt_pad :: u32

record order_msg =
  om_order_id :: u64
  om_submit_ts_ns :: u64
  om_symbol :: "u8 list"
  om_px :: i64
  om_qty :: u32
  om_side :: u8
  om_pad :: "u8 list"

text \<open>The arrays of the structs have their declared lengths.\<close>

definition tick_wf :: "market_tick \<Rightarrow> bool" where
  "tick_wf t \<longleftrightarrow> length (mt_symbol t) = SYMBOL_LEN"

definition order_wf :: "order_msg \<Rightarrow> bool" where
  "order_wf m \<longleftrightarrow> length (om_symbol m) = SYMBOL_LEN \<and> length (om_pad m) = 3"

definition MarketTick_fields :: "ctype list" where
  "MarketTick_fields =
     [c_u64, c_u64, c_u64, c_array c_u8 SYMBOL_LEN, c_u64, c_u64, c_u32, c_u32, c_u32]"

definition OrderMsg_fields :: "ctype list" where
  "OrderMsg_fields =
     [c_u64, c_u64, c_array c_u8 SYMBOL_LEN, c_u64, c_u32, c_u8, c_array c_u8 3]"

definition MarketTick_SIZE :: nat where "MarketTick_SIZE = fst (c_struct 1 MarketTick_fields)"
definition OrderMsg_SIZE :: nat where "OrderMsg_SIZE = fst (c_struct 1 OrderMsg_fields)"

lemma MarketTick_layout [layout_simps]:
  "c_offsets 0 MarketTick_fields = [0, 8, 16, 24, 32, 40, 48, 52, 56]"
  "c_end 0 MarketTick_fields = 60" "MarketTick_SIZE = 64"
  by (simp_all add: MarketTick_fields_def MarketTick_SIZE_def SYMBOL_LEN_def c_layout_defs)

lemma OrderMsg_layout [layout_simps]:
  "c_offsets 0 OrderMsg_fields = [0, 8, 16, 24, 32, 36, 37]"
  "c_end 0 OrderMsg_fields = 40" "OrderMsg_SIZE = 40"
  by (simp_all add: OrderMsg_fields_def OrderMsg_SIZE_def SYMBOL_LEN_def c_layout_defs)

section \<open>Structs as bytes\<close>

text \<open>
  \<open>MarketTick\<close> ends at byte 60 and has size 64: the last four bytes of the slice that
  the code sends and publishes are the struct's trailing padding, whose content the
  language leaves open. They are the argument \<open>pad\<close>.
\<close>

definition tick_bytes :: "u8 list \<Rightarrow> market_tick \<Rightarrow> u8 list" where
  "tick_bytes pad t =
     u64_bytes (mt_seq_num t) @ u64_bytes (mt_exch_ts_ns t) @ u64_bytes (mt_recv_ts_ns t) @
     mt_symbol t @ u64_bytes (mt_bid_px t) @ u64_bytes (mt_ask_px t) @
     u32_bytes (mt_bid_sz t) @ u32_bytes (mt_ask_sz t) @ u32_bytes (mt_pad t) @ pad"

definition tick_of_bytes :: "u8 list \<Rightarrow> market_tick" where
  "tick_of_bytes bs =
     \<lparr>mt_seq_num = u64_at 0 bs, mt_exch_ts_ns = u64_at 8 bs, mt_recv_ts_ns = u64_at 16 bs,
      mt_symbol = bytes_at 24 8 bs, mt_bid_px = u64_at 32 bs, mt_ask_px = u64_at 40 bs,
      mt_bid_sz = u32_at 48 bs, mt_ask_sz = u32_at 52 bs, mt_pad = u32_at 56 bs\<rparr>"

definition order_bytes :: "order_msg \<Rightarrow> u8 list" where
  "order_bytes m =
     u64_bytes (om_order_id m) @ u64_bytes (om_submit_ts_ns m) @ om_symbol m @
     u64_bytes (om_px m) @ u32_bytes (om_qty m) @ [om_side m] @ om_pad m"

definition order_of_bytes :: "u8 list \<Rightarrow> order_msg" where
  "order_of_bytes bs =
     \<lparr>om_order_id = u64_at 0 bs, om_submit_ts_ns = u64_at 8 bs, om_symbol = bytes_at 16 8 bs,
      om_px = u64_at 24 bs, om_qty = u32_at 32 bs, om_side = hd (bytes_at 36 1 bs),
      om_pad = bytes_at 37 3 bs\<rparr>"

lemma length_tick_bytes:
  "tick_wf t \<Longrightarrow> length pad = 4 \<Longrightarrow> length (tick_bytes pad t) = MarketTick_SIZE"
  by (simp add: tick_bytes_def tick_wf_def SYMBOL_LEN_def layout_simps)

lemma length_order_bytes: "order_wf m \<Longrightarrow> length (order_bytes m) = OrderMsg_SIZE"
  by (simp add: order_bytes_def order_wf_def SYMBOL_LEN_def layout_simps)

lemma tick_of_tick_bytes:
  assumes "tick_wf t"
  shows "tick_of_bytes (tick_bytes pad t @ rest) = t"
  using assms
  by (simp add: tick_of_bytes_def tick_bytes_def tick_wf_def SYMBOL_LEN_def u64_at_def u32_at_def
      bytes_at_def)

lemma order_of_order_bytes:
  assumes "order_wf m"
  shows "order_of_bytes (order_bytes m @ rest) = m"
  using assms
  by (simp add: order_of_bytes_def order_bytes_def order_wf_def SYMBOL_LEN_def u64_at_def
      u32_at_def bytes_at_def)

lemma tick_wf_of_bytes: "MarketTick_SIZE \<le> length bs \<Longrightarrow> tick_wf (tick_of_bytes bs)"
  by (simp add: tick_wf_def tick_of_bytes_def bytes_at_def SYMBOL_LEN_def layout_simps)

lemma order_wf_of_bytes: "OrderMsg_SIZE \<le> length bs \<Longrightarrow> order_wf (order_of_bytes bs)"
  by (simp add: order_wf_def order_of_bytes_def bytes_at_def SYMBOL_LEN_def layout_simps)

text \<open>Reading a struct loses nothing but the padding: its bytes are the bytes read.\<close>

lemma tick_bytes_of_bytes:
  assumes "MarketTick_SIZE \<le> length bs"
  shows "tick_bytes (bytes_at 60 4 bs) (tick_of_bytes bs) = take MarketTick_SIZE bs"
proof -
  have len: "64 \<le> length bs" using assms by (simp add: layout_simps)
  have step: "take n (drop off bs) @ take m (drop (off + n) bs) = take (n + m) (drop off bs)"
    for off n m by (simp only: take_add drop_drop add.commute [of off])
  have "tick_bytes (bytes_at 60 4 bs) (tick_of_bytes bs) =
      take 8 (drop 0 bs) @ take 8 (drop 8 bs) @ take 8 (drop 16 bs) @ take 8 (drop 24 bs) @
      take 8 (drop 32 bs) @ take 8 (drop 40 bs) @ take 4 (drop 48 bs) @ take 4 (drop 52 bs) @
      take 4 (drop 56 bs) @ take 4 (drop 60 bs)"
    using len by (simp add: tick_bytes_def tick_of_bytes_def u64_bytes_u64_at u32_bytes_u32_at
        bytes_at_def)
  also have "\<dots> = take 64 (drop 0 bs)"
    using step [of 4 56 4] step [of 4 52 8] step [of 4 48 12] step [of 8 40 16]
      step [of 8 32 24] step [of 8 24 32] step [of 8 16 40] step [of 8 8 48] step [of 8 0 56]
    by simp
  finally show ?thesis by (simp add: layout_simps)
qed

section \<open>A struct in a ring slot\<close>

text \<open>
  What both structs promise to the code that copies them in and out of a slot: a fixed
  size, and that reading the copy back gives the value, whatever bytes follow it. \<open>rep\<close>
  is the value with the bytes the language leaves open, \<open>val\<close> the value alone.
\<close>

locale pod_codec =
  fixes enc :: "'r \<Rightarrow> u8 list"
    and dec :: "u8 list \<Rightarrow> 'v"
    and val :: "'r \<Rightarrow> 'v"
    and rep_ok :: "'r \<Rightarrow> bool"
    and size :: nat
  assumes enc_length: "rep_ok x \<Longrightarrow> length (enc x) = size"
    and dec_enc: "rep_ok x \<Longrightarrow> dec (enc x @ rest) = val x"
begin

lemma dec_padded: "rep_ok x \<Longrightarrow> dec (enc x @ replicate n 0) = val x"
  by (rule dec_enc)

lemma enc_eq_val: "rep_ok x \<Longrightarrow> rep_ok y \<Longrightarrow> enc x = enc y \<Longrightarrow> val x = val y"
  by (metis dec_enc)

lemma dec_enc_exact: "rep_ok x \<Longrightarrow> dec (enc x) = val x"
  using dec_enc [of x "[]"] by simp

lemma map_dec_padded:
  "\<forall>x \<in> set xs. rep_ok x \<Longrightarrow> map (\<lambda>x. dec (enc x @ replicate n 0)) xs = map val xs"
  by (simp add: dec_padded)

end

definition tick_rep_ok :: "u8 list \<times> market_tick \<Rightarrow> bool" where
  "tick_rep_ok x \<longleftrightarrow> length (fst x) = 4 \<and> tick_wf (snd x)"

interpretation tick_codec: pod_codec "\<lambda>(pad, t). tick_bytes pad t" tick_of_bytes snd tick_rep_ok
  MarketTick_SIZE
  by unfold_locales
    (auto simp: tick_rep_ok_def length_tick_bytes tick_of_tick_bytes)

interpretation order_codec: pod_codec order_bytes order_of_bytes id order_wf OrderMsg_SIZE
  by unfold_locales (auto simp: length_order_bytes order_of_order_bytes)

section \<open>Symbols as text\<close>

text \<open>
  \<open>str::from_utf8\<close>: what may follow a leading byte, as the ranges of the continuation
  bytes (no overlong forms, no surrogates, nothing above U+10FFFF).
\<close>

definition utf8_tail :: "u8 \<Rightarrow> (u8 \<times> u8) list option" where
  "utf8_tail a =
     (if a < 0x80 then Some []
      else if 0xC2 \<le> a \<and> a \<le> 0xDF then Some [(0x80, 0xBF)]
      else if a = 0xE0 then Some [(0xA0, 0xBF), (0x80, 0xBF)]
      else if a = 0xED then Some [(0x80, 0x9F), (0x80, 0xBF)]
      else if 0xE1 \<le> a \<and> a \<le> 0xEF then Some [(0x80, 0xBF), (0x80, 0xBF)]
      else if a = 0xF0 then Some [(0x90, 0xBF), (0x80, 0xBF), (0x80, 0xBF)]
      else if 0xF1 \<le> a \<and> a \<le> 0xF3 then Some [(0x80, 0xBF), (0x80, 0xBF), (0x80, 0xBF)]
      else if a = 0xF4 then Some [(0x80, 0x8F), (0x80, 0xBF), (0x80, 0xBF)]
      else None)"

fun in_ranges :: "(u8 \<times> u8) list \<Rightarrow> u8 list \<Rightarrow> bool" where
  "in_ranges [] bs = True"
| "in_ranges (r # rs) [] = False"
| "in_ranges ((lo, hi) # rs) (b # bs) = (lo \<le> b \<and> b \<le> hi \<and> in_ranges rs bs)"

fun utf8_valid :: "u8 list \<Rightarrow> bool" where
  "utf8_valid [] = True"
| "utf8_valid (a # bs) =
     (case utf8_tail a of
        None \<Rightarrow> False
      | Some rs \<Rightarrow> in_ranges rs bs \<and> utf8_valid (drop (length rs) bs))"

declare utf8_valid.simps(2) [simp del]

lemma utf8_valid_ascii: "\<forall>b \<in> set bs. b < 0x80 \<Longrightarrow> utf8_valid bs"
  by (induction bs) (auto simp: utf8_valid.simps utf8_tail_def)

text \<open>
  \<open>symbol_str\<close>: the bytes before the first zero byte, if they are text. Both structs have
  the same method.
\<close>

definition symbol_end :: "u8 list \<Rightarrow> nat" where
  "symbol_end symb = length (takeWhile (\<lambda>b. b \<noteq> 0) symb)"

definition symbol_str :: "u8 list \<Rightarrow> u8 list" where
  "symbol_str symb =
     (let s = take (symbol_end symb) symb in if utf8_valid s then s else [0x3F])"

definition tick_symbol_str :: "market_tick \<Rightarrow> u8 list" where
  "tick_symbol_str t = symbol_str (mt_symbol t)"

definition order_symbol_str :: "order_msg \<Rightarrow> u8 list" where
  "order_symbol_str m = symbol_str (om_symbol m)"

lemma take_symbol_end: "take (symbol_end symb) symb = takeWhile (\<lambda>b. b \<noteq> 0) symb"
  by (simp add: symbol_end_def takeWhile_eq_take [symmetric])

lemma symbol_str_padded:
  assumes "0 \<notin> set s" and "utf8_valid s"
  shows "symbol_str (s @ replicate n 0) = s"
proof -
  have "takeWhile (\<lambda>b. b \<noteq> 0) (s @ replicate n 0) = s"
    using assms(1) by (induction s) (cases n; auto)+
  then show ?thesis using assms(2) unfolding symbol_str_def take_symbol_end by simp
qed

lemma symbol_str_valid: "utf8_valid (symbol_str symb)"
  by (simp add: symbol_str_def Let_def utf8_valid_ascii)

end
