(* ===== verification/Fifo.thy ===== *)
theory Fifo
  imports Bus_Prelude
begin

text \<open>
  The contract of a bounded first-in first-out queue, as the code that talks to a ring
  uses it: an attempt to add an element succeeds and appends it, or reports that the
  queue is full and changes nothing; an attempt to take one returns the oldest, or
  reports that there is none. What follows for any sequence of attempts is proved once,
  in the locale.
\<close>

datatype 'm fifo_op = Push 'm | Pop

text \<open>A run of attempts: the elements accepted and the elements taken, in order.\<close>

fun fifo_run :: "('m \<Rightarrow> 's \<Rightarrow> bool \<times> 's) \<Rightarrow> ('s \<Rightarrow> 'v option \<times> 's) \<Rightarrow> 'm fifo_op list \<Rightarrow> 's
    \<Rightarrow> 'm list \<times> 'v list \<times> 's" where
  "fifo_run push pop [] s = ([], [], s)"
| "fifo_run push pop (Push m # ops) s =
     (let (b, s1) = push m s; (acc, got, s2) = fifo_run push pop ops s1
      in (if b then m # acc else acc, got, s2))"
| "fifo_run push pop (Pop # ops) s =
     (let (v, s1) = pop s; (acc, got, s2) = fifo_run push pop ops s1
      in (acc, case v of None \<Rightarrow> got | Some x \<Rightarrow> x # got, s2))"

text \<open>Taking until there is nothing left, with a bound on the number of attempts.\<close>

fun drain :: "('s \<Rightarrow> 'v option \<times> 's) \<Rightarrow> nat \<Rightarrow> 's \<Rightarrow> ('v list \<times> 's) option" where
  "drain pop 0 s = None"
| "drain pop (Suc n) s =
     (case pop s of
        (None, s1) \<Rightarrow> Some ([], s1)
      | (Some x, s1) \<Rightarrow> map_option (\<lambda>(xs, s2). (x # xs, s2)) (drain pop n s1))"

locale bounded_fifo =
  fixes push :: "'m \<Rightarrow> 's \<Rightarrow> bool \<times> 's"
    and pop :: "'s \<Rightarrow> 'v option \<times> 's"
    and contents :: "'s \<Rightarrow> 'v list"
    and ok :: "'s \<Rightarrow> bool"
    and adm :: "'m \<Rightarrow> bool"
    and stored :: "'m \<Rightarrow> 'v"
    and cap :: nat
  assumes push_room: "ok s \<Longrightarrow> adm m \<Longrightarrow> length (contents s) < cap \<Longrightarrow>
      \<exists>s'. push m s = (True, s') \<and> ok s' \<and> contents s' = contents s @ [stored m]"
    and push_full: "ok s \<Longrightarrow> adm m \<Longrightarrow> cap \<le> length (contents s) \<Longrightarrow> push m s = (False, s)"
    and pop_some: "ok s \<Longrightarrow> contents s = x # xs \<Longrightarrow>
      \<exists>s'. pop s = (Some x, s') \<and> ok s' \<and> contents s' = xs"
    and pop_none: "ok s \<Longrightarrow> contents s = [] \<Longrightarrow> pop s = (None, s)"
    and bounded: "ok s \<Longrightarrow> length (contents s) \<le> cap"
begin

lemma push_cases:
  assumes "ok s" and "adm m"
  obtains (accepted) s' where "push m s = (True, s')" "ok s'"
      "contents s' = contents s @ [stored m]" "length (contents s) < cap"
    | (full) "push m s = (False, s)" "cap \<le> length (contents s)"
  using push_room [OF assms] push_full [OF assms] by (meson not_le)

lemma pop_cases:
  assumes "ok s"
  obtains (taken) x s' where "pop s = (Some x, s')" "ok s'" "contents s = x # contents s'"
    | (empty) "pop s = (None, s)" "contents s = []"
  using pop_some [OF assms] pop_none [OF assms] by (metis list.exhaust)

lemma pop_eq_None: "ok s \<Longrightarrow> fst (pop s) = None \<longleftrightarrow> contents s = []"
  by (cases s rule: pop_cases) auto

text \<open>First in, first out, over any interleaving of attempts.\<close>

lemma run_fifo:
  assumes "ok s" and "\<forall>m. Push m \<in> set ops \<longrightarrow> adm m"
    and "fifo_run push pop ops s = (acc, got, s')"
  shows "ok s' \<and> contents s @ map stored acc = got @ contents s'"
  using assms
proof (induction ops arbitrary: s acc got)
  case Nil
  then show ?case by simp
next
  case (Cons o1 ops)
  show ?case
  proof (cases o1)
    case (Push m)
    with Cons.prems(2) have "adm m" by simp
    with Cons.prems(1) show ?thesis
    proof (cases rule: push_cases)
      case (accepted s1)
      from Cons.prems(3) Push accepted(1) obtain acc' where
        run: "fifo_run push pop ops s1 = (acc', got, s')" and acc: "acc = m # acc'"
        by (auto simp: Let_def split: prod.splits)
      have "ok s' \<and> contents s1 @ map stored acc' = got @ contents s'"
        using Cons.IH [OF accepted(2) _ run] Cons.prems(2) by simp
      then show ?thesis by (simp add: acc accepted(3))
    next
      case full
      from Cons.prems(3) Push full(1) have "fifo_run push pop ops s = (acc, got, s')"
        by (auto simp: Let_def split: prod.splits)
      then show ?thesis using Cons.IH [OF Cons.prems(1)] Cons.prems(2) by simp
    qed
  next
    case Pop
    from Cons.prems(1) show ?thesis
    proof (cases rule: pop_cases)
      case (taken x s1)
      from Cons.prems(3) Pop taken(1) obtain got' where
        run: "fifo_run push pop ops s1 = (acc, got', s')" and got: "got = x # got'"
        by (auto simp: Let_def split: prod.splits)
      have "ok s' \<and> contents s1 @ map stored acc = got' @ contents s'"
        using Cons.IH [OF taken(2) _ run] Cons.prems(2) by simp
      then show ?thesis by (simp add: got taken(3))
    next
      case empty
      from Cons.prems(3) Pop empty(1) have "fifo_run push pop ops s = (acc, got, s')"
        by (auto simp: Let_def split: prod.splits)
      then show ?thesis using Cons.IH [OF Cons.prems(1)] Cons.prems(2) by simp
    qed
  qed
qed

text \<open>Draining returns everything that is queued, in order, and stops.\<close>

lemma drain_all:
  assumes "ok s" and "length (contents s) < n"
  shows "\<exists>s'. drain pop n s = Some (contents s, s') \<and> ok s' \<and> contents s' = []"
  using assms
proof (induction n arbitrary: s)
  case 0
  then show ?case by simp
next
  case (Suc n)
  from Suc.prems(1) show ?case
  proof (cases rule: pop_cases)
    case (taken x s1)
    with Suc.prems(2) have "length (contents s1) < n" by simp
    then obtain s' where "drain pop n s1 = Some (contents s1, s')" "ok s'" "contents s' = []"
      using Suc.IH [OF taken(2)] by blast
    then show ?thesis using taken by simp
  next
    case empty
    then show ?thesis using Suc.prems(1) by simp
  qed
qed

end

end
