(* ===== verification/Ring.thy ===== *)
theory Ring
  imports Message Fifo
begin

text \<open>
  The ring of \<open>crates/shmbus/src/ring.rs\<close>, one operation at a time: the layout of
  \<open>SpscRing\<close>, the producer and consumer handles and \<open>init_in_place\<close>, \<open>new\<close>,
  \<open>try_publish\<close>, \<open>try_consume\<close> and \<open>pending\<close>. The raw pointer to the ring becomes
  an argument and a result: the ring's state. What happens when the two sides run at the
  same time is the subject of \<open>Ring_Concurrent\<close>.

  The cursors are \<open>u64\<close> and wrap around; every statement here holds across the wrap.
\<close>

section \<open>Constants and layout\<close>

definition RING_CAPACITY :: nat where "RING_CAPACITY = 16 * 1024"
definition RING_MASK :: u64 where "RING_MASK = of_nat RING_CAPACITY - 1"
definition SLOT_PAYLOAD :: nat where "SLOT_PAYLOAD = 80"
definition CACHELINE :: nat where "CACHELINE = 64"

definition PaddedAtomic_layout :: ctype where
  "PaddedAtomic_layout = c_struct 64 [c_u64, c_array c_u8 (CACHELINE - 8)]"

definition Slot_layout :: ctype where
  "Slot_layout = c_struct 64 [c_u64, c_u64, c_array c_u8 SLOT_PAYLOAD]"

definition SpscRing_layout :: ctype where
  "SpscRing_layout =
     c_struct 64 [PaddedAtomic_layout, PaddedAtomic_layout, c_array Slot_layout RING_CAPACITY]"

lemma ring_layouts [layout_simps]:
  "PaddedAtomic_layout = (64, 64)" "Slot_layout = (128, 64)" "SpscRing_layout = (2097280, 64)"
  by (simp_all add: PaddedAtomic_layout_def Slot_layout_def SpscRing_layout_def CACHELINE_def
      SLOT_PAYLOAD_def RING_CAPACITY_def c_layout_defs)

section \<open>State\<close>

record slot =
  slot_seq :: u64
  slot_pad :: u64
  slot_payload :: "u8 list"

record spsc_ring =
  ring_head :: u64
  ring_tail :: u64
  ring_slots :: "slot list"

record ring_producer =
  prod_next_seq :: u64

record ring_consumer =
  cons_next_seq :: u64

definition init_in_place :: "spsc_ring \<Rightarrow> spsc_ring" where
  "init_in_place r =
     r\<lparr>ring_head := 0, ring_tail := 0,
       ring_slots := map (\<lambda>s. s\<lparr>slot_seq := 0\<rparr>) (ring_slots r)\<rparr>"

definition ring_capacity :: "spsc_ring \<Rightarrow> nat" where
  "ring_capacity r = RING_CAPACITY"

definition RingProducer_new :: "spsc_ring \<Rightarrow> ring_producer" where
  "RingProducer_new r = \<lparr>prod_next_seq = ring_head r\<rparr>"

definition RingConsumer_new :: "spsc_ring \<Rightarrow> ring_consumer" where
  "RingConsumer_new r = \<lparr>cons_next_seq = ring_tail r\<rparr>"

definition slot_index :: "u64 \<Rightarrow> nat" where
  "slot_index h = unat (and h RING_MASK)"

text \<open>The payload area after a copy of \<open>bytes\<close> and the zero fill of the rest.\<close>

definition pad_payload :: "u8 list \<Rightarrow> u8 list" where
  "pad_payload bytes = bytes @ replicate (SLOT_PAYLOAD - length bytes) 0"

section \<open>Operations\<close>

definition try_publish ::
  "u8 list \<Rightarrow> spsc_ring \<Rightarrow> ring_producer \<Rightarrow> (bool \<times> spsc_ring \<times> ring_producer) result" where
  "try_publish bytes r p =
     (if \<not> length bytes \<le> SLOT_PAYLOAD then Inl AssertFailed
      else
        let head = prod_next_seq p; tail = ring_tail r
        in if of_nat RING_CAPACITY \<le> head - tail then Inr (False, r, p)
           else
             let i = slot_index head;
                 s = (ring_slots r ! i)\<lparr>slot_payload := pad_payload bytes\<rparr>;
                 r1 = r\<lparr>ring_slots := (ring_slots r)[i := s\<lparr>slot_seq := head + 1\<rparr>]\<rparr>;
                 p1 = p\<lparr>prod_next_seq := head + 1\<rparr>
             in Inr (True, r1\<lparr>ring_head := prod_next_seq p1\<rparr>, p1))"

definition try_consume ::
  "u8 list \<Rightarrow> spsc_ring \<Rightarrow> ring_consumer
   \<Rightarrow> (nat option \<times> u8 list \<times> spsc_ring \<times> ring_consumer) result" where
  "try_consume out r c =
     (if \<not> SLOT_PAYLOAD \<le> length out then Inl AssertFailed
      else
        let expected = cons_next_seq c + 1;
            s = ring_slots r ! slot_index (cons_next_seq c)
        in if slot_seq s \<noteq> expected then Inr (None, out, r, c)
           else
             let out1 = slot_payload s @ drop SLOT_PAYLOAD out;
                 c1 = c\<lparr>cons_next_seq := expected\<rparr>
             in Inr (Some SLOT_PAYLOAD, out1, r\<lparr>ring_tail := cons_next_seq c1\<rparr>, c1))"

definition pending :: "spsc_ring \<Rightarrow> ring_consumer \<Rightarrow> u64" where
  "pending r c = saturating_sub (ring_head r) (cons_next_seq c)"

section \<open>The ring as a queue\<close>

definition queue_len :: "spsc_ring \<Rightarrow> nat" where
  "queue_len r = unat (ring_head r - ring_tail r)"

definition ring_queue :: "spsc_ring \<Rightarrow> u8 list list" where
  "ring_queue r =
     map (\<lambda>j. slot_payload (ring_slots r ! slot_index (ring_tail r + of_nat j))) [0..<queue_len r]"

text \<open>
  Well-formedness. The \<open>k\<close>-th slot after the tail holds the sequence number of the
  message in it while it is unread; a free slot holds the number of the message it
  carried one lap ago, or still the initial zero on the first lap.
\<close>

definition slot_seq_ok :: "spsc_ring \<Rightarrow> nat \<Rightarrow> bool" where
  "slot_seq_ok r k \<longleftrightarrow>
     (let w = ring_tail r + of_nat k; s = slot_seq (ring_slots r ! slot_index w)
      in if k < queue_len r then s = w + 1
         else s = w + 1 - of_nat RING_CAPACITY \<or> s = 0 \<and> unat (ring_tail r) + k < RING_CAPACITY)"

definition ring_wf :: "spsc_ring \<Rightarrow> bool" where
  "ring_wf r \<longleftrightarrow>
     length (ring_slots r) = RING_CAPACITY \<and>
     (\<forall>s \<in> set (ring_slots r). length (slot_payload s) = SLOT_PAYLOAD) \<and>
     queue_len r \<le> RING_CAPACITY \<and>
     (\<forall>k < RING_CAPACITY. slot_seq_ok r k)"

definition handles_ok :: "spsc_ring \<Rightarrow> ring_producer \<Rightarrow> ring_consumer \<Rightarrow> bool" where
  "handles_ok r p c \<longleftrightarrow> prod_next_seq p = ring_head r \<and> cons_next_seq c = ring_tail r"

subsection \<open>Slot indices\<close>

lemma RING_CAPACITY_pos [simp]: "0 < RING_CAPACITY"
  by (simp add: RING_CAPACITY_def)

lemma RING_CAPACITY_pow2: "RING_CAPACITY = 2 ^ 14"
  by (simp add: RING_CAPACITY_def)

lemma slot_index_mod: "slot_index w = unat w mod RING_CAPACITY"
proof -
  have "RING_MASK = mask 14" by (simp add: RING_MASK_def RING_CAPACITY_def mask_eq_exp_minus_1)
  then have "slot_index w = unat (take_bit 14 w)" by (simp add: slot_index_def take_bit_eq_mask)
  also have "unat (take_bit 14 w) = take_bit 14 (unat w)" by (rule unsigned_take_bit_eq)
  finally show ?thesis by (simp only: take_bit_eq_mod RING_CAPACITY_pow2)
qed

lemma slot_index_less [simp]: "slot_index w < RING_CAPACITY"
  by (simp add: slot_index_mod)

lemma slot_index_add: "slot_index (w + of_nat k) = (unat w + k) mod RING_CAPACITY"
proof -
  have "unat (w + of_nat k) = (unat w + k) mod 2 ^ 64"
    by (simp add: unat_word_ariths unat_of_nat mod_add_right_eq)
  moreover have "(x mod 2 ^ 64) mod RING_CAPACITY = x mod RING_CAPACITY" for x :: nat
    by (simp add: RING_CAPACITY_pow2 mod_mod_cancel)
  ultimately show ?thesis by (simp add: slot_index_mod)
qed

lemma slot_index_add_inj:
  assumes "slot_index (w + of_nat j) = slot_index (w + of_nat k)"
    and "j < RING_CAPACITY" "k < RING_CAPACITY"
  shows "j = k"
proof -
  have "unat w + j = unat w + k"
    by (rule mod_range_inj [where c = "unat w"]) (use assms in \<open>simp_all add: slot_index_add\<close>)
  then show ?thesis by simp
qed

lemma slot_index_wrap: "slot_index (w + of_nat RING_CAPACITY) = slot_index w"
  by (simp add: slot_index_add) (simp add: slot_index_mod)

lemma ring_head_eq: "ring_head r = ring_tail r + of_nat (queue_len r)"
  by (simp add: queue_len_def)

lemma full_iff: "of_nat RING_CAPACITY \<le> ring_head r - ring_tail r \<longleftrightarrow> RING_CAPACITY \<le> queue_len r"
  by (simp add: queue_len_def word_le_nat_alt unat_of_nat RING_CAPACITY_def)

lemma length_pad_payload: "length bytes \<le> SLOT_PAYLOAD \<Longrightarrow> length (pad_payload bytes) = SLOT_PAYLOAD"
  by (simp add: pad_payload_def)

lemma length_ring_queue [simp]: "length (ring_queue r) = queue_len r"
  by (simp add: ring_queue_def)

lemma ring_wfD:
  assumes "ring_wf r"
  shows "length (ring_slots r) = RING_CAPACITY"
    and "s \<in> set (ring_slots r) \<Longrightarrow> length (slot_payload s) = SLOT_PAYLOAD"
    and "queue_len r \<le> RING_CAPACITY"
    and "k < RING_CAPACITY \<Longrightarrow> slot_seq_ok r k"
  using assms by (auto simp: ring_wf_def)

lemma ring_wf_payload:
  "ring_wf r \<Longrightarrow> length (slot_payload (ring_slots r ! slot_index w)) = SLOT_PAYLOAD"
  by (rule ring_wfD(2)) (auto simp: ring_wfD(1))

subsection \<open>Initialisation\<close>

lemma init_in_place_wf:
  assumes "length (ring_slots r) = RING_CAPACITY"
    and "\<forall>s \<in> set (ring_slots r). length (slot_payload s) = SLOT_PAYLOAD"
  shows "ring_wf (init_in_place r)" and "ring_queue (init_in_place r) = []"
proof -
  have q: "queue_len (init_in_place r) = 0" by (simp add: queue_len_def init_in_place_def)
  have "slot_seq_ok (init_in_place r) k" if "k < RING_CAPACITY" for k
    using that assms(1) by (simp add: slot_seq_ok_def q) (simp add: init_in_place_def)
  then show "ring_wf (init_in_place r)"
    using assms q by (auto simp: ring_wf_def init_in_place_def)
  show "ring_queue (init_in_place r) = []" by (simp add: ring_queue_def q)
qed

subsection \<open>Publishing\<close>

definition published_ring :: "u8 list \<Rightarrow> spsc_ring \<Rightarrow> spsc_ring" where
  "published_ring bytes r =
     r\<lparr>ring_slots := (ring_slots r)[slot_index (ring_head r) :=
         (ring_slots r ! slot_index (ring_head r))
           \<lparr>slot_payload := pad_payload bytes, slot_seq := ring_head r + 1\<rparr>],
       ring_head := ring_head r + 1\<rparr>"

lemma try_publish_room:
  assumes "prod_next_seq p = ring_head r" "length bytes \<le> SLOT_PAYLOAD"
    and "queue_len r < RING_CAPACITY"
  shows "try_publish bytes r p =
    Inr (True, published_ring bytes r, \<lparr>prod_next_seq = ring_head r + 1\<rparr>)"
  using assms by (simp add: try_publish_def Let_def full_iff published_ring_def)

lemma try_publish_full:
  assumes "prod_next_seq p = ring_head r" "length bytes \<le> SLOT_PAYLOAD"
    and "RING_CAPACITY \<le> queue_len r"
  shows "try_publish bytes r p = Inr (False, r, p)"
  using assms by (simp add: try_publish_def Let_def full_iff)

lemma published_ring_tail [simp]: "ring_tail (published_ring bytes r) = ring_tail r"
  by (simp add: published_ring_def)

lemma published_ring_head [simp]: "ring_head (published_ring bytes r) = ring_head r + 1"
  by (simp add: published_ring_def)

lemma queue_len_published:
  assumes "queue_len r < RING_CAPACITY"
  shows "queue_len (published_ring bytes r) = Suc (queue_len r)"
proof -
  have "ring_head r + 1 - ring_tail r = of_nat (Suc (queue_len r))"
    by (simp add: queue_len_def algebra_simps)
  then have "queue_len (published_ring bytes r) = unat (of_nat (Suc (queue_len r)) :: u64)"
    by (simp only: queue_len_def [of "published_ring bytes r"] published_ring_head published_ring_tail)
  also have "\<dots> = Suc (queue_len r)"
    by (rule unat_of_nat64_small) (use assms in \<open>simp add: RING_CAPACITY_def\<close>)
  finally show ?thesis .
qed

lemma published_slot:
  assumes "ring_wf r" "queue_len r < RING_CAPACITY" "k < RING_CAPACITY"
  shows "ring_slots (published_ring bytes r) ! slot_index (ring_tail r + of_nat k) =
    (if k = queue_len r
     then (ring_slots r ! slot_index (ring_head r))
            \<lparr>slot_payload := pad_payload bytes, slot_seq := ring_head r + 1\<rparr>
     else ring_slots r ! slot_index (ring_tail r + of_nat k))"
proof -
  have "slot_index (ring_tail r + of_nat k) = slot_index (ring_head r) \<longleftrightarrow> k = queue_len r"
    using slot_index_add_inj [of "ring_tail r" k "queue_len r"] assms(2,3)
    by (metis ring_head_eq)
  then show ?thesis
    using assms(1) by (auto simp: published_ring_def ring_wfD(1) nth_list_update)
qed

lemma published_ring_queue:
  assumes "ring_wf r" "queue_len r < RING_CAPACITY"
  shows "ring_queue (published_ring bytes r) = ring_queue r @ [pad_payload bytes]"
proof -
  have "ring_queue (published_ring bytes r) =
      map (\<lambda>j. slot_payload (ring_slots (published_ring bytes r) !
              slot_index (ring_tail r + of_nat j))) ([0..<queue_len r] @ [queue_len r])"
    by (simp add: ring_queue_def queue_len_published [OF assms(2)])
  also have "\<dots> = ring_queue r @ [pad_payload bytes]"
    using assms by (simp add: ring_queue_def published_slot)
  finally show ?thesis .
qed

lemma published_ring_wf:
  assumes wf: "ring_wf r" and room: "queue_len r < RING_CAPACITY"
    and len: "length bytes \<le> SLOT_PAYLOAD"
  shows "ring_wf (published_ring bytes r)"
proof -
  have "slot_seq_ok (published_ring bytes r) k" if k: "k < RING_CAPACITY" for k
    using ring_wfD(4) [OF wf k] k
    by (auto simp: slot_seq_ok_def Let_def queue_len_published [OF room] published_slot [OF wf room k]
        ring_head_eq [of r] less_Suc_eq split: if_splits)
  moreover have "\<forall>s \<in> set (ring_slots (published_ring bytes r)). length (slot_payload s) = SLOT_PAYLOAD"
    using ring_wfD(2) [OF wf] length_pad_payload [OF len]
    by (auto simp: published_ring_def dest!: set_update_subset_insert [THEN subsetD])
  moreover have "length (ring_slots (published_ring bytes r)) = RING_CAPACITY"
    using ring_wfD(1) [OF wf] by (simp add: published_ring_def)
  ultimately show ?thesis
    using room by (simp add: ring_wf_def queue_len_published)
qed

subsection \<open>Consuming\<close>

definition consumed_ring :: "spsc_ring \<Rightarrow> spsc_ring" where
  "consumed_ring r = r\<lparr>ring_tail := ring_tail r + 1\<rparr>"

lemma seq_expected_iff:
  assumes "ring_wf r"
  shows "slot_seq (ring_slots r ! slot_index (ring_tail r)) = ring_tail r + 1 \<longleftrightarrow> 0 < queue_len r"
proof -
  let ?t = "ring_tail r"
  have ok: "slot_seq_ok r 0" using ring_wfD(4) [OF assms, of 0] by simp
  have lap: "?t + 1 - of_nat RING_CAPACITY \<noteq> ?t + 1"
    by (simp add: RING_CAPACITY_def)
  have first_lap: "?t + 1 \<noteq> 0" if "unat ?t < RING_CAPACITY"
  proof
    assume "?t + 1 = 0"
    then have "?t = - 1" by (simp add: add_eq_0_iff2)
    then show False using that by (simp add: unat_max_word RING_CAPACITY_def)
  qed
  show ?thesis
    using ok lap first_lap by (auto simp: slot_seq_ok_def Let_def split: if_splits)
qed

lemma try_consume_some:
  assumes "ring_wf r" "cons_next_seq c = ring_tail r" "SLOT_PAYLOAD \<le> length out"
    and "0 < queue_len r"
  shows "try_consume out r c =
    Inr (Some SLOT_PAYLOAD, hd (ring_queue r) @ drop SLOT_PAYLOAD out, consumed_ring r,
         \<lparr>cons_next_seq = ring_tail r + 1\<rparr>)"
proof -
  have "hd (ring_queue r) = slot_payload (ring_slots r ! slot_index (ring_tail r))"
    using assms(4) by (simp add: ring_queue_def hd_map upt_rec)
  then show ?thesis
    using assms seq_expected_iff [OF assms(1)]
    by (simp add: try_consume_def Let_def consumed_ring_def)
qed

lemma try_consume_none:
  assumes "ring_wf r" "cons_next_seq c = ring_tail r" "SLOT_PAYLOAD \<le> length out"
    and "queue_len r = 0"
  shows "try_consume out r c = Inr (None, out, r, c)"
  using assms seq_expected_iff [OF assms(1)] by (simp add: try_consume_def Let_def)

lemma queue_len_consumed:
  assumes "0 < queue_len r"
  shows "queue_len (consumed_ring r) = queue_len r - 1"
proof -
  have "ring_head r - (ring_tail r + 1) = of_nat (queue_len r) - 1"
    by (simp add: queue_len_def)
  also have "\<dots> = of_nat (queue_len r - 1)" using assms by (simp add: of_nat_diff)
  finally have "queue_len (consumed_ring r) = unat (of_nat (queue_len r - 1) :: u64)"
    unfolding queue_len_def [of "consumed_ring r"] by (simp add: consumed_ring_def)
  also have "\<dots> = queue_len r - 1"
    by (rule unat_of_nat64_small) (use unat_lt64 [of "ring_head r - ring_tail r"] in \<open>simp add: queue_len_def\<close>)
  finally show ?thesis .
qed

lemma consumed_ring_queue:
  assumes "0 < queue_len r"
  shows "ring_queue (consumed_ring r) = tl (ring_queue r)"
proof -
  let ?f = "\<lambda>j. slot_payload (ring_slots r ! slot_index (ring_tail r + of_nat j))"
  have "ring_queue (consumed_ring r) = map (\<lambda>j. ?f (j + 1)) [0..<queue_len r - 1]"
    unfolding ring_queue_def queue_len_consumed [OF assms]
    by (simp add: consumed_ring_def add.assoc)
  also have "\<dots> = map ?f [1..<1 + (queue_len r - 1)]" by (rule map_nth_upt_shift)
  also have "\<dots> = tl (ring_queue r)"
    using assms by (simp add: ring_queue_def map_tl [symmetric] tl_upt)
  finally show ?thesis .
qed

lemma consumed_ring_wf:
  assumes wf: "ring_wf r" and some: "0 < queue_len r"
  shows "ring_wf (consumed_ring r)"
proof -
  have q: "queue_len (consumed_ring r) = queue_len r - 1" by (rule queue_len_consumed [OF some])
  have "slot_seq_ok (consumed_ring r) k" if k: "k < RING_CAPACITY" for k
  proof (cases "Suc k < RING_CAPACITY")
    case True
    have shift: "ring_tail r + 1 + of_nat k = ring_tail r + of_nat (Suc k)" by simp
    have "unat (ring_tail r + 1) \<le> unat (ring_tail r) + 1"
      by (simp add: unat_word_ariths)
    then show ?thesis
      using ring_wfD(4) [OF wf True] some
      unfolding slot_seq_ok_def q unfolding consumed_ring_def
      by (auto simp: Let_def shift simp del: of_nat_Suc split: if_splits)
  next
    case False
    with k have k1: "Suc k = RING_CAPACITY" by simp
    have "ring_tail r + 1 + of_nat k = ring_tail r + of_nat (Suc k)" by simp
    then have "ring_tail r + 1 + of_nat k = ring_tail r + of_nat RING_CAPACITY"
      by (simp only: k1)
    then have idx: "slot_index (ring_tail r + 1 + of_nat k) = slot_index (ring_tail r)"
      by (simp only: slot_index_wrap)
    have cap: "of_nat RING_CAPACITY = (1 + of_nat k :: u64)"
      by (simp add: k1 [symmetric])
    moreover have "slot_seq (ring_slots r ! slot_index (ring_tail r)) = ring_tail r + 1"
      using seq_expected_iff [OF wf] some by simp
    moreover have "\<not> k < queue_len r - 1" using ring_wfD(3) [OF wf] k1 by linarith
    ultimately show ?thesis
      unfolding slot_seq_ok_def q unfolding consumed_ring_def
      by (simp add: Let_def idx cap)
  qed
  then show ?thesis
    using ring_wfD(1,3) [OF wf] ring_wfD(2) [OF wf] q
    by (auto simp: ring_wf_def consumed_ring_def)
qed


section \<open>The ring implements a bounded queue\<close>

text \<open>
  The ring with its two handles, as the state of the queue contract of \<open>Fifo\<close>. The
  callers consume into a buffer of exactly \<open>SLOT_PAYLOAD\<close> bytes.
\<close>

type_synonym ring_ends = "spsc_ring \<times> ring_producer \<times> ring_consumer"

definition ends_ok :: "ring_ends \<Rightarrow> bool" where
  "ends_ok s = (case s of (r, p, c) \<Rightarrow> ring_wf r \<and> handles_ok r p c)"

definition ring_push :: "u8 list \<Rightarrow> ring_ends \<Rightarrow> bool \<times> ring_ends" where
  "ring_push m s = (case s of (r, p, c) \<Rightarrow>
     (case try_publish m r p of Inl _ \<Rightarrow> (False, s) | Inr (b, r1, p1) \<Rightarrow> (b, r1, p1, c)))"

definition ring_pop :: "ring_ends \<Rightarrow> u8 list option \<times> ring_ends" where
  "ring_pop s = (case s of (r, p, c) \<Rightarrow>
     (case try_consume (replicate SLOT_PAYLOAD 0) r c of
        Inl _ \<Rightarrow> (None, s)
      | Inr (n, out, r1, c1) \<Rightarrow> (map_option (\<lambda>k. take k out) n, r1, p, c1)))"

definition ends_queue :: "ring_ends \<Rightarrow> u8 list list" where
  "ends_queue s = ring_queue (fst s)"

definition fits_slot :: "u8 list \<Rightarrow> bool" where
  "fits_slot m \<longleftrightarrow> length m \<le> SLOT_PAYLOAD"

lemma ring_push_room:
  assumes "ends_ok s" "fits_slot m" "length (ends_queue s) < RING_CAPACITY"
  shows "\<exists>s'. ring_push m s = (True, s') \<and> ends_ok s' \<and> ends_queue s' = ends_queue s @ [pad_payload m]"
proof -
  obtain r p c where s: "s = (r, p, c)" by (cases s) auto
  have wf: "ring_wf r" and room: "queue_len r < RING_CAPACITY" and len: "length m \<le> SLOT_PAYLOAD"
    and h: "prod_next_seq p = ring_head r" "cons_next_seq c = ring_tail r"
    using assms by (auto simp: s ends_ok_def ends_queue_def fits_slot_def handles_ok_def)
  show ?thesis
    using try_publish_room [OF h(1) len room] published_ring_wf [OF wf room len] h
      published_ring_queue [OF wf room]
    by (simp add: s ring_push_def ends_ok_def handles_ok_def ends_queue_def)
qed

lemma ring_pop_some:
  assumes "ends_ok s" "ends_queue s = x # xs"
  shows "\<exists>s'. ring_pop s = (Some x, s') \<and> ends_ok s' \<and> ends_queue s' = xs"
proof -
  obtain r p c where s: "s = (r, p, c)" by (cases s) auto
  have wf: "ring_wf r" and h: "prod_next_seq p = ring_head r" "cons_next_seq c = ring_tail r"
    and q: "ring_queue r = x # xs"
    using assms by (auto simp: s ends_ok_def ends_queue_def handles_ok_def)
  have some: "0 < queue_len r" using q by (metis length_ring_queue length_greater_0_conv list.discI)
  have "x = slot_payload (ring_slots r ! slot_index (ring_tail r))"
    using q some by (simp add: ring_queue_def upt_rec)
  then have "length x = SLOT_PAYLOAD" using ring_wf_payload [OF wf] by simp
  then show ?thesis
    using try_consume_some [OF wf h(2) _ some, of "replicate SLOT_PAYLOAD 0"] q
      consumed_ring_wf [OF wf some] consumed_ring_queue [OF some] h
    by (simp add: s ring_pop_def ends_ok_def handles_ok_def ends_queue_def consumed_ring_def)
qed

interpretation ring_fifo: bounded_fifo ring_push ring_pop ends_queue ends_ok fits_slot pad_payload
  RING_CAPACITY
proof (unfold_locales, goal_cases)
  case (1 s m)
  then show ?case by (rule ring_push_room)
next
  case (2 s m)
  then show ?case
    by (auto simp: ring_push_def ends_ok_def ends_queue_def fits_slot_def handles_ok_def
        try_publish_full split: prod.splits)
next
  case (3 s x xs)
  then show ?case by (rule ring_pop_some)
next
  case (4 s)
  then show ?case
    by (auto simp: ring_pop_def ends_ok_def ends_queue_def handles_ok_def try_consume_none
        length_0_conv [symmetric] simp del: length_0_conv)
next
  case (5 s)
  then show ?case by (auto simp: ends_ok_def ends_queue_def ring_wfD(3))
qed

text \<open>A ring as the creator of the bus leaves it: zeroed memory, then \<open>init_in_place\<close>.\<close>

definition zero_slot :: slot where
  "zero_slot = \<lparr>slot_seq = 0, slot_pad = 0, slot_payload = replicate SLOT_PAYLOAD 0\<rparr>"

definition zero_ring :: spsc_ring where
  "zero_ring = \<lparr>ring_head = 0, ring_tail = 0, ring_slots = replicate RING_CAPACITY zero_slot\<rparr>"

definition fresh_ends :: ring_ends where
  "fresh_ends =
     (let r = init_in_place zero_ring in (r, RingProducer_new r, RingConsumer_new r))"

lemma init_zero_ring: "init_in_place zero_ring = zero_ring"
  by (simp add: init_in_place_def zero_ring_def zero_slot_def)

lemma zero_ring_wf: "ring_wf zero_ring" "ring_queue zero_ring = []"
  using init_in_place_wf [of zero_ring]
  by (simp_all add: init_zero_ring) (simp_all add: zero_ring_def zero_slot_def)

lemma new_handles_ok: "handles_ok r (RingProducer_new r) (RingConsumer_new r)"
  by (simp add: handles_ok_def RingProducer_new_def RingConsumer_new_def)

lemma fresh_ends_ok: "ends_ok fresh_ends" "ends_queue fresh_ends = []"
  by (simp_all add: fresh_ends_def Let_def ends_ok_def ends_queue_def init_zero_ring zero_ring_wf
      new_handles_ok)

text \<open>A ring that holds one message, for the examples below.\<close>

definition one_message_ring :: spsc_ring where
  "one_message_ring = published_ring [9] zero_ring"

lemma one_message_ring:
  "ring_wf one_message_ring" "ring_queue one_message_ring = [9 # replicate 79 0]"
proof -
  have "queue_len zero_ring < RING_CAPACITY"
    using zero_ring_wf(2) length_ring_queue [of zero_ring] by simp
  then show "ring_wf one_message_ring" "ring_queue one_message_ring = [9 # replicate 79 0]"
    using published_ring_wf [OF zero_ring_wf(1), of "[9]"]
      published_ring_queue [OF zero_ring_wf(1), of "[9]"]
    by (simp_all add: one_message_ring_def zero_ring_wf(2) SLOT_PAYLOAD_def pad_payload_def)
qed

section \<open>Properties\<close>

text \<open>C16. \<open>try_publish\<close> on a well-formed ring, every outcome: a message longer than a slot
  panics; on a ring with room the message, zero-filled to the slot's size, is appended to
  the queue and the ring and the handles stay consistent; on a full ring it returns
  \<open>false\<close> and changes nothing.
\<close>

theorem try_publish_spec:
  assumes "ring_wf r" and "handles_ok r p c"
  shows "if SLOT_PAYLOAD < length bytes then try_publish bytes r p = Inl AssertFailed
    else if length (ring_queue r) < RING_CAPACITY then
      (\<exists>r' p'. try_publish bytes r p = Inr (True, r', p') \<and> ring_wf r' \<and> handles_ok r' p' c \<and>
         ring_queue r' = ring_queue r @ [pad_payload bytes])
    else try_publish bytes r p = Inr (False, r, p)"
proof -
  have h: "prod_next_seq p = ring_head r" "cons_next_seq c = ring_tail r"
    using assms(2) by (simp_all add: handles_ok_def)
  show ?thesis
    using try_publish_room [OF h(1), of bytes] try_publish_full [OF h(1), of bytes]
      published_ring_wf [OF assms(1), of bytes] published_ring_queue [OF assms(1), of bytes] h
    by (auto simp: try_publish_def [of bytes r p] handles_ok_def)
qed

theorem try_publish_spec_witness:
  "\<exists>r' p'. try_publish [7, 8] zero_ring (RingProducer_new zero_ring) = Inr (True, r', p') \<and>
     ring_queue r' = [7 # 8 # replicate 78 0]"
  using try_publish_spec [OF zero_ring_wf(1) new_handles_ok, of "[7, 8]"]
  by (auto simp: zero_ring_wf SLOT_PAYLOAD_def pad_payload_def)

text \<open>C17. \<open>try_consume\<close> on a well-formed ring, every outcome: an output buffer shorter than
  a slot panics; the oldest unread message is copied out, removed from the queue and its
  slot given back; on an empty ring it returns \<open>None\<close> and changes nothing. The check of
  one slot's sequence number is enough to tell the two apart, on the first lap and after
  the cursors wrap around.
\<close>

theorem try_consume_spec:
  assumes "ring_wf r" and "handles_ok r p c"
  shows "if length out < SLOT_PAYLOAD then try_consume out r c = Inl AssertFailed
    else case ring_queue r of
      [] \<Rightarrow> try_consume out r c = Inr (None, out, r, c)
    | m # ms \<Rightarrow> (\<exists>r' c'. try_consume out r c =
           Inr (Some SLOT_PAYLOAD, m @ drop SLOT_PAYLOAD out, r', c') \<and>
         ring_wf r' \<and> handles_ok r' p c' \<and> ring_queue r' = ms)"
proof (cases "length out < SLOT_PAYLOAD")
  case True
  then show ?thesis by (simp add: try_consume_def)
next
  case False
  then have out: "SLOT_PAYLOAD \<le> length out" by simp
  have h: "prod_next_seq p = ring_head r" "cons_next_seq c = ring_tail r"
    using assms(2) by (simp_all add: handles_ok_def)
  show ?thesis
  proof (cases "ring_queue r")
    case Nil
    then have "queue_len r = 0" using length_ring_queue [of r] by simp
    then show ?thesis using try_consume_none [OF assms(1) h(2) out] False Nil by simp
  next
    case (Cons m ms)
    then have some: "0 < queue_len r" using length_ring_queue [of r] by simp
    show ?thesis
      using try_consume_some [OF assms(1) h(2) out some] consumed_ring_wf [OF assms(1) some]
        consumed_ring_queue [OF some] h False Cons
      by (simp add: handles_ok_def consumed_ring_def)
  qed
qed

theorem try_consume_spec_witness:
  "\<exists>r' c'. try_consume (replicate 80 1) one_message_ring (RingConsumer_new one_message_ring) =
     Inr (Some 80, 9 # replicate 79 0, r', c') \<and> ring_queue r' = []"
  using try_consume_spec [OF one_message_ring(1) new_handles_ok, of "replicate 80 1"]
  by (auto simp: one_message_ring(2) SLOT_PAYLOAD_def)

text \<open>Any sequence of publish and consume attempts on a new ring is first in, first out:
  the messages accepted are, in order, the messages taken followed by the ones still
  queued, and at most \<open>RING_CAPACITY\<close> are queued.
\<close>

theorem ring_run_fifo:
  assumes "\<forall>m. Push m \<in> set ops \<longrightarrow> length m \<le> SLOT_PAYLOAD"
    and "fifo_run ring_push ring_pop ops fresh_ends = (accepted, taken, s)"
  shows "map pad_payload accepted = taken @ ends_queue s \<and> ends_ok s \<and>
    length (ends_queue s) \<le> RING_CAPACITY"
  using ring_fifo.run_fifo [OF fresh_ends_ok(1) _ assms(2)] assms(1) fresh_ends_ok(2)
    ring_fifo.bounded [of s]
  by (auto simp: fits_slot_def)

theorem ring_run_fifo_witness:
  "\<exists>accepted taken s. fifo_run ring_push ring_pop [Push [1], Pop, Pop, Push [2]] fresh_ends =
       (accepted, taken, s) \<and>
     map pad_payload accepted = taken @ ends_queue s"
proof -
  obtain accepted taken s where run:
    "fifo_run ring_push ring_pop [Push [1], Pop, Pop, Push [2]] fresh_ends = (accepted, taken, s)"
    by (metis prod_cases3)
  have "map pad_payload accepted = taken @ ends_queue s"
    using ring_run_fifo [OF _ run] by (simp add: SLOT_PAYLOAD_def)
  with run show ?thesis by blast
qed

text \<open>\<open>pending\<close> is the number of unread messages as long as the head cursor has not
  wrapped around ahead of the consumer.
\<close>

theorem pending_exact:
  assumes "handles_ok r p c" and "ring_tail r \<le> ring_head r"
  shows "unat (pending r c) = length (ring_queue r)"
  using assms
  by (simp add: pending_def handles_ok_def unat_saturating_sub queue_len_def unat_sub)

theorem pending_exact_witness:
  "unat (pending one_message_ring (RingConsumer_new one_message_ring)) = 1"
proof -
  have "ring_tail one_message_ring \<le> ring_head one_message_ring"
    by (simp add: one_message_ring_def zero_ring_def)
  from pending_exact [OF new_handles_ok this, unfolded one_message_ring(2)] show ?thesis
    by simp
qed

end
