(* ===== verification/Ring_Concurrent.thy ===== *)
theory Ring_Concurrent
  imports Ring
begin

text \<open>
  The same ring with its two sides running at the same time: \<open>try_publish\<close> and
  \<open>try_consume\<close> of \<open>crates/shmbus/src/ring.rs\<close> as the sequence of their memory
  accesses, interleaved in any order. One step is one atomic load or store, or the copy of
  one payload byte, so a reader can see a message half written if the protocol lets it.

  Atomics are modelled with the freedom acquire/release ordering leaves: each atomic
  location keeps the list of all values written to it (its modification order), and a load
  by the other side returns any value not older than the one it has seen before. A stale
  cursor or sequence number is therefore a possible outcome of every load.
  The payload bytes are plain memory; \<open>conc_race_free\<close> shows that the two sides are
  never in the same slot, which is what makes that reading legitimate.
\<close>

section \<open>State\<close>

text \<open>
  Where each side is inside its call: the producer about to copy byte \<open>k\<close> of a message,
  or between the store of the slot's \<open>seq\<close> and the store of \<open>head\<close>; the consumer with
  the bytes it has copied so far.
\<close>

datatype prod_pc = PIdle | PCopy "u8 list" nat | PSeqStored

datatype cons_pc = CIdle | CCopy "u8 list"

record conc =
  m_head :: u64
  m_tail :: "u64 list"
  m_seq :: "nat \<Rightarrow> u64 list"
  m_payload :: "nat \<Rightarrow> u8 list"
  p_pc :: prod_pc
  p_next :: u64
  p_tail_seen :: nat
  c_pc :: cons_pc
  c_next :: u64
  c_seq_seen :: "nat \<Rightarrow> nat"
  published :: "u8 list list"
  consumed :: "u8 list list"

text \<open>
  \<open>published\<close> and \<open>consumed\<close> record, for the statements only, the messages whose
  sequence number has been stored and the messages a call has returned.
\<close>

definition conc_init :: conc where
  "conc_init =
     \<lparr>m_head = 0, m_tail = [0], m_seq = (\<lambda>_. [0]), m_payload = (\<lambda>_. replicate SLOT_PAYLOAD 0),
      p_pc = PIdle, p_next = 0, p_tail_seen = 0,
      c_pc = CIdle, c_next = 0, c_seq_seen = (\<lambda>_. 0),
      published = [], consumed = []\<rparr>"

text \<open>The byte that the copy and the zero fill put at offset \<open>k\<close>.\<close>

definition payload_byte :: "u8 list \<Rightarrow> nat \<Rightarrow> u8" where
  "payload_byte bytes k = (if k < length bytes then bytes ! k else 0)"

section \<open>Steps\<close>

inductive conc_step :: "conc \<Rightarrow> conc \<Rightarrow> bool" where
  p_full:
    "p_pc s = PIdle \<Longrightarrow> length (bytes :: u8 list) \<le> SLOT_PAYLOAD \<Longrightarrow>
     p_tail_seen s \<le> j \<Longrightarrow> j < length (m_tail s) \<Longrightarrow>
     of_nat RING_CAPACITY \<le> p_next s - m_tail s ! j \<Longrightarrow>
     conc_step s (s\<lparr>p_tail_seen := j\<rparr>)"
| p_start:
    "p_pc s = PIdle \<Longrightarrow> length bytes \<le> SLOT_PAYLOAD \<Longrightarrow>
     p_tail_seen s \<le> j \<Longrightarrow> j < length (m_tail s) \<Longrightarrow>
     p_next s - m_tail s ! j < of_nat RING_CAPACITY \<Longrightarrow>
     conc_step s (s\<lparr>p_tail_seen := j, p_pc := PCopy bytes 0\<rparr>)"
| p_byte:
    "p_pc s = PCopy bytes k \<Longrightarrow> k < SLOT_PAYLOAD \<Longrightarrow> i = slot_index (p_next s) \<Longrightarrow>
     conc_step s (s\<lparr>m_payload := (m_payload s)(i := (m_payload s i)[k := payload_byte bytes k]),
                    p_pc := PCopy bytes (Suc k)\<rparr>)"
| p_seq:
    "p_pc s = PCopy bytes SLOT_PAYLOAD \<Longrightarrow> i = slot_index (p_next s) \<Longrightarrow>
     conc_step s (s\<lparr>m_seq := (m_seq s)(i := m_seq s i @ [p_next s + 1]), p_pc := PSeqStored,
                    published := published s @ [pad_payload bytes]\<rparr>)"
| p_head:
    "p_pc s = PSeqStored \<Longrightarrow>
     conc_step s (s\<lparr>p_next := p_next s + 1, m_head := p_next s + 1, p_pc := PIdle\<rparr>)"
| c_empty:
    "c_pc s = CIdle \<Longrightarrow> i = slot_index (c_next s) \<Longrightarrow>
     c_seq_seen s i \<le> j \<Longrightarrow> j < length (m_seq s i) \<Longrightarrow> m_seq s i ! j \<noteq> c_next s + 1 \<Longrightarrow>
     conc_step s (s\<lparr>c_seq_seen := (c_seq_seen s)(i := j)\<rparr>)"
| c_start:
    "c_pc s = CIdle \<Longrightarrow> i = slot_index (c_next s) \<Longrightarrow>
     c_seq_seen s i \<le> j \<Longrightarrow> j < length (m_seq s i) \<Longrightarrow> m_seq s i ! j = c_next s + 1 \<Longrightarrow>
     conc_step s (s\<lparr>c_seq_seen := (c_seq_seen s)(i := j), c_pc := CCopy []\<rparr>)"
| c_byte:
    "c_pc s = CCopy buf \<Longrightarrow> length buf < SLOT_PAYLOAD \<Longrightarrow> i = slot_index (c_next s) \<Longrightarrow>
     conc_step s (s\<lparr>c_pc := CCopy (buf @ [m_payload s i ! length buf])\<rparr>)"
| c_tail:
    "c_pc s = CCopy buf \<Longrightarrow> length buf = SLOT_PAYLOAD \<Longrightarrow>
     conc_step s (s\<lparr>c_next := c_next s + 1, m_tail := m_tail s @ [c_next s + 1], c_pc := CIdle,
                    consumed := consumed s @ [buf]\<rparr>)"

inductive conc_reach :: "conc \<Rightarrow> bool" where
  start: "conc_reach conc_init"
| step: "conc_reach s \<Longrightarrow> conc_step s t \<Longrightarrow> conc_reach t"

inductive_cases conc_stepE: "conc_step s t"

section \<open>The invariant\<close>

text \<open>
  \<open>laps n i\<close> is how many of the messages \<open>0, \<dots>, n - 1\<close> went through slot \<open>i\<close>.
\<close>

definition laps :: "nat \<Rightarrow> nat \<Rightarrow> nat" where
  "laps n i = n div RING_CAPACITY + (if i < n mod RING_CAPACITY then 1 else 0)"

text \<open>The modification order of a slot's sequence number after \<open>n\<close> messages.\<close>

definition seq_order :: "nat \<Rightarrow> nat \<Rightarrow> u64 list" where
  "seq_order n i = 0 # map (\<lambda>q. of_nat (q * RING_CAPACITY + i + 1)) [0..<laps n i]"

fun p_ok :: "nat \<Rightarrow> u64 \<Rightarrow> nat \<Rightarrow> u8 list \<Rightarrow> prod_pc \<Rightarrow> bool" where
  "p_ok n nxt seen payload PIdle = (nxt = of_nat n)"
| "p_ok n nxt seen payload (PCopy bytes k) =
     (nxt = of_nat n \<and> n < seen + RING_CAPACITY \<and> length bytes \<le> SLOT_PAYLOAD \<and>
      k \<le> SLOT_PAYLOAD \<and> take k payload = take k (pad_payload bytes))"
| "p_ok n nxt seen payload PSeqStored = (0 < n \<and> nxt = of_nat (n - 1))"

fun c_ok :: "nat \<Rightarrow> u8 list list \<Rightarrow> nat \<Rightarrow> cons_pc \<Rightarrow> bool" where
  "c_ok n pub seen CIdle = True"
| "c_ok n pub seen (CCopy buf) =
     (n < length pub \<and> length buf \<le> SLOT_PAYLOAD \<and> buf = take (length buf) (pub ! n) \<and>
      Suc (laps n (n mod RING_CAPACITY)) \<le> seen)"

definition p_inv :: "conc \<Rightarrow> bool" where
  "p_inv s \<longleftrightarrow>
     (let n = length (published s)
      in p_ok n (p_next s) (p_tail_seen s) (m_payload s (n mod RING_CAPACITY)) (p_pc s))"

definition c_inv :: "conc \<Rightarrow> bool" where
  "c_inv s \<longleftrightarrow>
     (let n = length (consumed s)
      in c_next s = of_nat n \<and>
         c_ok n (published s) (c_seq_seen s (n mod RING_CAPACITY)) (c_pc s))"

lemma c_ok_mono: "c_ok n pub seen pc \<Longrightarrow> seen \<le> seen' \<Longrightarrow> c_ok n pub seen' pc"
  by (cases pc) auto

lemma c_ok_append: "c_ok n pub seen pc \<Longrightarrow> c_ok n (pub @ ms) seen pc"
  by (cases pc) (auto simp: nth_append)

definition mem_inv :: "conc \<Rightarrow> bool" where
  "mem_inv s \<longleftrightarrow>
     (let p = length (published s); c = length (consumed s) in
      c \<le> p \<and> p \<le> p_tail_seen s + RING_CAPACITY \<and> p_tail_seen s \<le> c \<and>
      m_tail s = map of_nat [0..<Suc c] \<and>
      (\<forall>i < RING_CAPACITY. m_seq s i = seq_order p i) \<and>
      (\<forall>i < RING_CAPACITY. laps c i \<le> c_seq_seen s i) \<and>
      (\<forall>i. length (m_payload s i) = SLOT_PAYLOAD) \<and>
      (\<forall>k. c \<le> k \<and> k < p \<longrightarrow> m_payload s (k mod RING_CAPACITY) = published s ! k) \<and>
      (\<forall>m \<in> set (published s). length m = SLOT_PAYLOAD) \<and>
      consumed s = take c (published s))"

definition conc_inv :: "conc \<Rightarrow> bool" where
  "conc_inv s \<longleftrightarrow> p_inv s \<and> c_inv s \<and> mem_inv s"

subsection \<open>Laps and sequence numbers\<close>

lemma laps_0 [simp]: "i < RING_CAPACITY \<Longrightarrow> laps 0 i = 0"
  by (simp add: laps_def)

lemma laps_Suc:
  assumes "i < RING_CAPACITY"
  shows "laps (Suc n) i = (if n mod RING_CAPACITY = i then Suc (laps n i) else laps n i)"
proof -
  have "n mod RING_CAPACITY < RING_CAPACITY" by simp
  then show ?thesis using assms by (auto simp: laps_def div_Suc mod_Suc)
qed

lemma laps_mono:
  assumes "i < RING_CAPACITY" and "m \<le> n"
  shows "laps m i \<le> laps n i"
  using assms(2) by (rule lift_Suc_mono_le [rotated]) (simp add: laps_Suc [OF assms(1)])

lemma laps_same_slot: "laps n (n mod RING_CAPACITY) = n div RING_CAPACITY"
  by (simp add: laps_def)

lemma laps_next_lap: "laps (n + RING_CAPACITY) i = Suc (laps n i)"
  by (simp add: laps_def)

lemma length_seq_order [simp]: "length (seq_order n i) = Suc (laps n i)"
  by (simp add: seq_order_def)

lemma seq_order_Suc:
  assumes "i < RING_CAPACITY"
  shows "seq_order (Suc n) i =
    (if n mod RING_CAPACITY = i then seq_order n i @ [of_nat n + 1] else seq_order n i)"
proof (cases "n mod RING_CAPACITY = i")
  case True
  then have "laps n i * RING_CAPACITY + i = n"
    using laps_same_slot [of n] by auto
  then have "of_nat (laps n i) * of_nat RING_CAPACITY + of_nat i = (of_nat n :: u64)"
    by (metis of_nat_add of_nat_mult)
  with True show ?thesis by (simp add: seq_order_def laps_Suc [OF assms])
next
  case False
  then show ?thesis by (simp add: seq_order_def laps_Suc [OF assms])
qed

text \<open>
  A load of a slot's sequence number that is not older than what the consumer has seen
  returns the number it expects exactly when it reads the newest entry of a message that
  is published and unread.
\<close>

lemma seq_order_expected:
  assumes "p \<le> c + RING_CAPACITY" "i = c mod RING_CAPACITY"
    and "laps c i \<le> j" "j < length (seq_order p i)"
  shows "seq_order p i ! j = of_nat c + 1 \<longleftrightarrow> j = Suc (laps c i)"
proof -
  have i: "i < RING_CAPACITY" by (simp add: assms(2))
  let ?q = "laps c i"
  have q: "?q * RING_CAPACITY + i = c" by (simp add: assms(2) laps_same_slot)
  have "laps p i \<le> Suc ?q"
    using laps_mono [OF i assms(1)] laps_next_lap [of c i] by simp
  then consider "j = ?q" | "j = Suc ?q" "Suc ?q \<le> laps p i"
    using assms(3,4) by force
  then show ?thesis
  proof cases
    case 1
    show ?thesis
    proof (cases ?q)
      case 0
      with q i have "c < RING_CAPACITY" by simp
      then have "(of_nat (Suc c) :: u64) \<noteq> of_nat 0"
        by (simp only: of_nat64_eq_iff) (simp add: RING_CAPACITY_def)
      then show ?thesis using 1 0 by (simp add: seq_order_def add.commute)
    next
      case (Suc q1)
      have "seq_order p i ! j = of_nat (q1 * RING_CAPACITY + i + 1)"
        using assms(4) 1 Suc by (simp add: seq_order_def del: upt_Suc)
      moreover have "q1 * RING_CAPACITY + i + 1 + RING_CAPACITY = c + 1"
        using q Suc by simp
      then have "(of_nat (q1 * RING_CAPACITY + i + 1) :: u64) + of_nat RING_CAPACITY = of_nat c + 1"
        by (metis of_nat_add of_nat_1)
      moreover have "(of_nat RING_CAPACITY :: u64) \<noteq> 0" by (simp add: RING_CAPACITY_def)
      ultimately show ?thesis using 1 by (metis add_cancel_right_right n_not_Suc_n)
    qed
  next
    case 2
    then have "seq_order p i ! j = of_nat (?q * RING_CAPACITY + i + 1)"
      by (simp add: seq_order_def del: upt_Suc)
    then show ?thesis using 2 q by simp
  qed
qed

lemma laps_less_published:
  assumes "i < RING_CAPACITY" "Suc (laps c i) < length (seq_order p i)"
  shows "c < p"
proof (rule ccontr)
  assume "\<not> c < p"
  then have "laps p i \<le> laps c i" by (simp add: laps_mono [OF assms(1)])
  with assms(2) show False by simp
qed

lemma slot_index_of_nat [simp]: "slot_index (of_nat n) = n mod RING_CAPACITY"
  using slot_index_add [of 0 n] by simp


subsection \<open>Preservation\<close>

lemma mem_invD:
  assumes "mem_inv s"
  shows "length (consumed s) \<le> length (published s)"
    and "length (published s) \<le> p_tail_seen s + RING_CAPACITY"
    and "p_tail_seen s \<le> length (consumed s)"
    and "m_tail s = map of_nat [0..<Suc (length (consumed s))]"
    and "i < RING_CAPACITY \<Longrightarrow> m_seq s i = seq_order (length (published s)) i"
    and "i < RING_CAPACITY \<Longrightarrow> laps (length (consumed s)) i \<le> c_seq_seen s i"
    and "length (m_payload s i) = SLOT_PAYLOAD"
    and "length (consumed s) \<le> k \<Longrightarrow> k < length (published s) \<Longrightarrow>
           m_payload s (k mod RING_CAPACITY) = published s ! k"
    and "m \<in> set (published s) \<Longrightarrow> length m = SLOT_PAYLOAD"
    and "consumed s = take (length (consumed s)) (published s)"
  using assms by (auto simp: mem_inv_def Let_def)

lemma conc_invD: "conc_inv s \<Longrightarrow> p_inv s" "conc_inv s \<Longrightarrow> c_inv s" "conc_inv s \<Longrightarrow> mem_inv s"
  by (simp_all add: conc_inv_def)

lemma tail_entry:
  assumes "mem_inv s" "j < length (m_tail s)"
  shows "m_tail s ! j = of_nat j" and "j \<le> length (consumed s)"
proof -
  have t: "m_tail s = map of_nat [0..<Suc (length (consumed s))]" by (rule mem_invD(4) [OF assms(1)])
  show "j \<le> length (consumed s)" using assms(2) by (simp add: t)
  then show "m_tail s ! j = of_nat j" by (simp add: t nth_append del: upt_Suc)
qed

text \<open>
  The producer's fullness check against a tail that may be stale is exact on the numbers
  themselves: no wrap-around of the difference.
\<close>

lemma cursor_distance:
  assumes "mem_inv s" "p_tail_seen s \<le> j" "j < length (m_tail s)"
  shows "(of_nat (length (published s)) - m_tail s ! j < of_nat RING_CAPACITY) \<longleftrightarrow>
    length (published s) < j + RING_CAPACITY"
proof -
  let ?n = "length (published s)"
  have "j \<le> ?n" using tail_entry(2) [OF assms(1,3)] mem_invD(1) [OF assms(1)] by simp
  moreover have "?n \<le> j + RING_CAPACITY" using mem_invD(2) [OF assms(1)] assms(2) by simp
  moreover have "of_nat ?n - m_tail s ! j = (of_nat (?n - j) :: u64)"
    using \<open>j \<le> ?n\<close> by (simp only: tail_entry(1) [OF assms(1,3)] of_nat_diff)
  ultimately have "unat (of_nat ?n - m_tail s ! j) = ?n - j"
    by (simp only:) (rule unat_of_nat64_small, simp add: RING_CAPACITY_def)
  moreover have "unat (of_nat RING_CAPACITY :: u64) = RING_CAPACITY"
    by (rule unat_of_nat64_small) (simp add: RING_CAPACITY_def)
  ultimately show ?thesis
    using \<open>j \<le> ?n\<close> by (auto simp: word_less_nat_alt)
qed

lemma write_slot_not_unread:
  assumes "mem_inv s" "length (published s) < p_tail_seen s + RING_CAPACITY"
    and "length (consumed s) \<le> k" "k < length (published s)"
  shows "k mod RING_CAPACITY \<noteq> length (published s) mod RING_CAPACITY"
proof
  assume "k mod RING_CAPACITY = length (published s) mod RING_CAPACITY"
  then have "k = length (published s)"
    by (rule mod_range_inj [where c = "length (consumed s)"])
      (use assms mem_invD(1,3) [OF assms(1)] in auto)
  then show False using assms(4) by simp
qed

lemma pad_payload_nth: "k < SLOT_PAYLOAD \<Longrightarrow> length bytes \<le> SLOT_PAYLOAD \<Longrightarrow>
    pad_payload bytes ! k = payload_byte bytes k"
  by (simp add: pad_payload_def payload_byte_def nth_append)

lemma conc_inv_init: "conc_inv conc_init"
  by (simp add: conc_inv_def p_inv_def c_inv_def mem_inv_def conc_init_def seq_order_def Let_def)

lemma conc_inv_p_view:
  assumes "conc_inv s" "p_pc s = PIdle" "p_tail_seen s \<le> j" "j < length (m_tail s)"
  shows "conc_inv (s\<lparr>p_tail_seen := j\<rparr>)"
  using assms tail_entry(2) [of s j] by (auto simp: conc_inv_def p_inv_def c_inv_def mem_inv_def Let_def)

lemma conc_inv_p_start:
  assumes "conc_inv s" "p_pc s = PIdle" "length bytes \<le> SLOT_PAYLOAD"
    and "p_tail_seen s \<le> j" "j < length (m_tail s)"
    and "p_next s - m_tail s ! j < of_nat RING_CAPACITY"
  shows "conc_inv (s\<lparr>p_tail_seen := j, p_pc := PCopy bytes 0\<rparr>)"
proof -
  have next_n: "p_next s = of_nat (length (published s))"
    using conc_invD(1) [OF assms(1)] assms(2) by (simp add: p_inv_def)
  then have "length (published s) < j + RING_CAPACITY"
    using assms(6) cursor_distance [OF conc_invD(3) [OF assms(1)] assms(4,5)] by simp
  then show ?thesis
    using conc_inv_p_view [OF assms(1,2,4,5)] assms(3) next_n
    by (simp add: conc_inv_def p_inv_def c_inv_def mem_inv_def Let_def)
qed

lemma conc_inv_p_byte:
  assumes inv: "conc_inv s" and pc: "p_pc s = PCopy bytes k" and k: "k < SLOT_PAYLOAD"
    and i: "i = slot_index (p_next s)"
  shows "conc_inv (s\<lparr>m_payload := (m_payload s)(i := (m_payload s i)[k := payload_byte bytes k]),
                     p_pc := PCopy bytes (Suc k)\<rparr>)"
proof -
  let ?n = "length (published s)"
  have mem: "mem_inv s" and pinv: "p_inv s" using inv by (auto simp: conc_inv_def)
  have n: "p_next s = of_nat ?n" "?n < p_tail_seen s + RING_CAPACITY" "length bytes \<le> SLOT_PAYLOAD"
    and tk: "take k (m_payload s (?n mod RING_CAPACITY)) = take k (pad_payload bytes)"
    using pinv pc by (auto simp: p_inv_def Let_def)
  have i': "i = ?n mod RING_CAPACITY" by (simp add: i n(1))
  have others: "m_payload s (q mod RING_CAPACITY) = published s ! q" "q mod RING_CAPACITY \<noteq> i"
    if "length (consumed s) \<le> q" "q < ?n" for q
    using mem_invD(8) [OF mem that] write_slot_not_unread [OF mem n(2) that] by (simp_all add: i')
  have "take (Suc k) ((m_payload s i)[k := payload_byte bytes k]) = take (Suc k) (pad_payload bytes)"
    using k mem_invD(7) [OF mem, of i] tk length_pad_payload [OF n(3)] pad_payload_nth [OF k n(3)]
    by (simp add: take_Suc_conv_app_nth i')
  then show ?thesis
    using inv n k others pc
    by (simp add: conc_inv_def p_inv_def c_inv_def mem_inv_def Let_def i')
qed

lemma conc_inv_p_seq:
  assumes inv: "conc_inv s" and pc: "p_pc s = PCopy bytes SLOT_PAYLOAD"
    and i: "i = slot_index (p_next s)"
  shows "conc_inv (s\<lparr>m_seq := (m_seq s)(i := m_seq s i @ [p_next s + 1]), p_pc := PSeqStored,
                     published := published s @ [pad_payload bytes]\<rparr>)"
proof -
  let ?n = "length (published s)"
  have mem: "mem_inv s" and pinv: "p_inv s" and cinv: "c_inv s" using inv by (auto simp: conc_inv_def)
  have n: "p_next s = of_nat ?n" "?n < p_tail_seen s + RING_CAPACITY" "length bytes \<le> SLOT_PAYLOAD"
    and tk: "m_payload s (?n mod RING_CAPACITY) = pad_payload bytes"
    using pinv pc length_pad_payload mem_invD(7) [OF mem] by (auto simp: p_inv_def Let_def)
  have i': "i = ?n mod RING_CAPACITY" by (simp add: i n(1))
  have seq: "m_seq (s\<lparr>m_seq := (m_seq s)(i := m_seq s i @ [p_next s + 1])\<rparr>) i2 = seq_order (Suc ?n) i2"
    if "i2 < RING_CAPACITY" for i2
    using that mem_invD(5) [OF mem] by (auto simp: seq_order_Suc n(1) i')
  have pay: "m_payload s (q mod RING_CAPACITY) = (published s @ [pad_payload bytes]) ! q"
    if "length (consumed s) \<le> q" "q < Suc ?n" for q
    using that mem_invD(8) [OF mem, of q] tk by (auto simp: nth_append less_Suc_eq)
  have "c_inv (s\<lparr>m_seq := (m_seq s)(i := m_seq s i @ [p_next s + 1]), p_pc := PSeqStored,
                     published := published s @ [pad_payload bytes]\<rparr>)"
    using cinv by (simp add: c_inv_def Let_def c_ok_append)
  moreover have "mem_inv (s\<lparr>m_seq := (m_seq s)(i := m_seq s i @ [p_next s + 1]), p_pc := PSeqStored,
                     published := published s @ [pad_payload bytes]\<rparr>)"
    using mem seq pay n length_pad_payload [OF n(3)] by (auto simp: mem_inv_def Let_def)
  ultimately show ?thesis using n by (simp add: conc_inv_def p_inv_def)
qed

lemma conc_inv_p_head:
  assumes "conc_inv s" "p_pc s = PSeqStored"
  shows "conc_inv (s\<lparr>p_next := p_next s + 1, m_head := p_next s + 1, p_pc := PIdle\<rparr>)"
proof -
  obtain n where "length (published s) = Suc n" "p_next s = of_nat n"
    using conc_invD(1) [OF assms(1)] assms(2)
    by (cases "length (published s)") (auto simp: p_inv_def Let_def)
  then show ?thesis
    using assms by (simp add: conc_inv_def p_inv_def c_inv_def mem_inv_def Let_def add.commute)
qed

lemma mem_inv_c_view:
  assumes "mem_inv s" "c_seq_seen s i \<le> j"
  shows "mem_inv (s\<lparr>c_seq_seen := (c_seq_seen s)(i := j)\<rparr>)"
proof -
  have "laps (length (consumed s)) i2 \<le> ((c_seq_seen s)(i := j)) i2" if "i2 < RING_CAPACITY" for i2
    using mem_invD(6) [OF assms(1) that] assms(2) by auto
  then show ?thesis using assms(1) by (auto simp: mem_inv_def Let_def)
qed

lemma conc_inv_c_view:
  assumes "conc_inv s" "c_seq_seen s i \<le> j"
  shows "conc_inv (s\<lparr>c_seq_seen := (c_seq_seen s)(i := j)\<rparr>)"
  using assms mem_inv_c_view [of s i j]
  by (auto simp: conc_inv_def p_inv_def c_inv_def Let_def elim: c_ok_mono)

lemma seen_expected:
  assumes "conc_inv s" "i = slot_index (c_next s)" "c_seq_seen s i \<le> j" "j < length (m_seq s i)"
  shows "m_seq s i ! j = c_next s + 1 \<longleftrightarrow> j = Suc (laps (length (consumed s)) i)"
    and "m_seq s i ! j = c_next s + 1 \<Longrightarrow> length (consumed s) < length (published s)"
proof -
  have mem: "mem_inv s" and "c_inv s" using assms(1) by (auto simp: conc_inv_def)
  then have n: "c_next s = of_nat (length (consumed s))" by (simp add: c_inv_def Let_def)
  then have i: "i = length (consumed s) mod RING_CAPACITY" "i < RING_CAPACITY"
    by (simp_all add: assms(2))
  have le: "length (published s) \<le> length (consumed s) + RING_CAPACITY"
    using mem_invD(2,3) [OF mem] by simp
  have laps: "laps (length (consumed s)) i \<le> j" using mem_invD(6) [OF mem i(2)] assms(3) by simp
  have j: "j < length (seq_order (length (published s)) i)"
    using assms(4) mem_invD(5) [OF mem i(2)] by simp
  show iff: "m_seq s i ! j = c_next s + 1 \<longleftrightarrow> j = Suc (laps (length (consumed s)) i)"
    using seq_order_expected [OF le i(1) laps j] by (simp add: n mem_invD(5) [OF mem i(2)])
  assume "m_seq s i ! j = c_next s + 1"
  with iff j laps_less_published [OF i(2)] show "length (consumed s) < length (published s)" by simp
qed

lemma conc_inv_c_start:
  assumes "conc_inv s" "c_pc s = CIdle" "i = slot_index (c_next s)"
    and "c_seq_seen s i \<le> j" "j < length (m_seq s i)" "m_seq s i ! j = c_next s + 1"
  shows "conc_inv (s\<lparr>c_seq_seen := (c_seq_seen s)(i := j), c_pc := CCopy []\<rparr>)"
proof -
  have "c_next s = of_nat (length (consumed s))"
    using conc_invD(2) [OF assms(1)] by (simp add: c_inv_def Let_def)
  then have "i = length (consumed s) mod RING_CAPACITY" by (simp add: assms(3))
  then show ?thesis
    using conc_inv_c_view [OF assms(1,4)] seen_expected [OF assms(1,3,4,5)] assms(6)
    by (auto simp: conc_inv_def p_inv_def c_inv_def mem_inv_def Let_def)
qed

lemma conc_inv_c_byte:
  assumes inv: "conc_inv s" and pc: "c_pc s = CCopy buf" and len: "length buf < SLOT_PAYLOAD"
    and i: "i = slot_index (c_next s)"
  shows "conc_inv (s\<lparr>c_pc := CCopy (buf @ [m_payload s i ! length buf])\<rparr>)"
proof -
  let ?c = "length (consumed s)"
  have mem: "mem_inv s" and cinv: "c_inv s" using inv by (auto simp: conc_inv_def)
  have c: "c_next s = of_nat ?c" "?c < length (published s)" "buf = take (length buf) (published s ! ?c)"
    using cinv pc by (auto simp: c_inv_def Let_def)
  have "m_payload s i = published s ! ?c" using mem_invD(8) [OF mem _ c(2)] by (simp add: i c(1))
  moreover have "length (published s ! ?c) = SLOT_PAYLOAD" using mem_invD(9) [OF mem] c(2) by simp
  ultimately have "buf @ [m_payload s i ! length buf] = take (Suc (length buf)) (published s ! ?c)"
    using c(3) len by (metis take_Suc_conv_app_nth)
  then show ?thesis
    using inv pc len by (auto simp: conc_inv_def p_inv_def c_inv_def mem_inv_def Let_def)
qed

lemma conc_inv_c_tail:
  assumes inv: "conc_inv s" and pc: "c_pc s = CCopy buf" and len: "length buf = SLOT_PAYLOAD"
  shows "conc_inv (s\<lparr>c_next := c_next s + 1, m_tail := m_tail s @ [c_next s + 1], c_pc := CIdle,
                     consumed := consumed s @ [buf]\<rparr>)"
proof -
  let ?c = "length (consumed s)"
  have mem: "mem_inv s" and cinv: "c_inv s" using inv by (auto simp: conc_inv_def)
  have c: "c_next s = of_nat ?c" "?c < length (published s)" "buf = take (length buf) (published s ! ?c)"
    "Suc (laps ?c (?c mod RING_CAPACITY)) \<le> c_seq_seen s (?c mod RING_CAPACITY)"
    using cinv pc by (auto simp: c_inv_def Let_def)
  have "buf = published s ! ?c" using c(2,3) len mem_invD(9) [OF mem] by simp
  then have "consumed s @ [buf] = take (Suc ?c) (published s)"
    using mem_invD(10) [OF mem] c(2) by (metis take_Suc_conv_app_nth)
  moreover have "laps (Suc ?c) i \<le> c_seq_seen s i" if "i < RING_CAPACITY" for i
    using mem_invD(6) [OF mem that] c(4) by (auto simp: laps_Suc [OF that])
  ultimately show ?thesis
    using inv c mem_invD(4) [OF mem]
    by (auto simp: conc_inv_def p_inv_def c_inv_def mem_inv_def Let_def)
qed

lemma conc_step_inv: "conc_step s t \<Longrightarrow> conc_inv s \<Longrightarrow> conc_inv t"
proof (induction rule: conc_step.induct)
  case (p_full s bytes j)
  then show ?case by (blast intro: conc_inv_p_view)
next
  case (p_start s bytes j)
  then show ?case by (blast intro: conc_inv_p_start)
next
  case (p_byte s bytes k i)
  then show ?case by (blast intro: conc_inv_p_byte)
next
  case (p_seq s bytes i)
  then show ?case by (blast intro: conc_inv_p_seq)
next
  case (p_head s)
  then show ?case by (blast intro: conc_inv_p_head)
next
  case (c_empty s i j)
  then show ?case by (blast intro: conc_inv_c_view)
next
  case (c_start s i j)
  then show ?case by (blast intro: conc_inv_c_start)
next
  case (c_byte s buf i)
  then show ?case by (blast intro: conc_inv_c_byte)
next
  case (c_tail s buf)
  then show ?case by (blast intro: conc_inv_c_tail)
qed

lemma conc_reach_inv: "conc_reach s \<Longrightarrow> conc_inv s"
  by (induction rule: conc_reach.induct) (auto intro: conc_inv_init conc_step_inv)


lemma conc_reach_rtranclp: "conc_step\<^sup>*\<^sup>* s t \<Longrightarrow> conc_reach s \<Longrightarrow> conc_reach t"
  by (induction rule: rtranclp_induct) (auto intro: conc_reach.step)

lemma conc_reach_head: "conc_reach s \<Longrightarrow> m_head s = p_next s"
proof (induction rule: conc_reach.induct)
  case start
  show ?case by (simp add: conc_init_def)
next
  case (step s t)
  from step(2,3) show ?case by cases auto
qed

lemma conc_inv_unread_bound:
  "conc_inv s \<Longrightarrow> length (published s) \<le> length (consumed s) + RING_CAPACITY"
  using mem_invD(2,3) [of s] by (auto simp: conc_inv_def)

section \<open>A producer that restarts\<close>

text \<open>
  The producer process dies at any point of a call, and a new one attaches:
  \<open>RingProducer::new\<close> takes its cursor from \<open>head\<close> in the shared memory. The shared
  memory keeps what the dead process wrote. The new process is started after the old one has ended, so that
  its loads come after those of the old one and return nothing older.
\<close>

definition restart_producer :: "conc \<Rightarrow> conc" where
  "restart_producer s = s\<lparr>p_pc := PIdle, p_next := m_head s\<rparr>"

text \<open>
  The two sides wait for each other: no later step, whatever is published or read, changes
  what has been published or consumed.
\<close>

definition stalled_forever :: "conc \<Rightarrow> bool" where
  "stalled_forever s \<longleftrightarrow>
     (\<forall>t. conc_step\<^sup>*\<^sup>* s t \<longrightarrow>
        p_pc t = PIdle \<and> c_pc t = CIdle \<and> published t = published s \<and> consumed t = consumed s)"

definition stalled :: "conc \<Rightarrow> bool" where
  "stalled s \<longleftrightarrow>
     mem_inv s \<and> c_inv s \<and> p_pc s = PIdle \<and> c_pc s = CIdle \<and> published s \<noteq> [] \<and>
     length (consumed s) = length (published s) \<and> p_tail_seen s = length (consumed s) \<and>
     p_next s + 1 = of_nat (length (published s))"

lemma stalled_conc_view:
  assumes "mem_inv s" "c_inv s" "c_pc s = CIdle" "length (consumed s) = length (published s)"
    and "i = slot_index (c_next s)" "c_seq_seen s i \<le> j" "j < length (m_seq s i)"
  shows "m_seq s i ! j \<noteq> c_next s + 1"
proof
  assume "m_seq s i ! j = c_next s + 1"
  let ?s = "s\<lparr>p_pc := PIdle, p_next := of_nat (length (published s))\<rparr>"
  have "conc_inv ?s"
    using assms(1,2) by (simp add: conc_inv_def p_inv_def c_inv_def mem_inv_def Let_def)
  from seen_expected(2) [OF this, of i j] show False
    using assms \<open>m_seq s i ! j = c_next s + 1\<close> by simp
qed

lemma stalled_full:
  assumes "stalled s" "p_tail_seen s \<le> j" "j < length (m_tail s)"
  shows "j = length (consumed s)" and "of_nat RING_CAPACITY \<le> p_next s - m_tail s ! j"
proof -
  have mem: "mem_inv s" and seen: "p_tail_seen s = length (consumed s)"
    and nxt: "p_next s + 1 = of_nat (length (consumed s))"
    using assms(1) by (auto simp: stalled_def)
  show j: "j = length (consumed s)" using tail_entry(2) [OF mem assms(3)] assms(2) seen by simp
  have "p_next s - m_tail s ! j = - 1"
    using nxt tail_entry(1) [OF mem assms(3)] j by (simp add: algebra_simps)
  then show "of_nat RING_CAPACITY \<le> p_next s - m_tail s ! j" by simp
qed

lemma stalled_step:
  assumes "conc_step s t" "stalled s"
  shows "stalled t \<and> published t = published s \<and> consumed t = consumed s"
  using assms(1)
proof cases
  case (p_full bytes j)
  then show ?thesis
    using assms(2) stalled_full(1) [OF assms(2), of j]
    by (auto simp: stalled_def mem_inv_def c_inv_def Let_def)
next
  case (p_start bytes j)
  then show ?thesis using stalled_full(2) [OF assms(2), of j] by simp
next
  case (c_empty i j)
  then show ?thesis
    using assms(2) mem_inv_c_view [of s i j] by (auto simp: stalled_def c_inv_def Let_def)
next
  case (c_start i j)
  then show ?thesis using assms(2) stalled_conc_view [of s i j] by (simp add: stalled_def)
qed (use assms(2) in \<open>auto simp: stalled_def\<close>)

lemma stalled_stalled_forever: "stalled s \<Longrightarrow> stalled_forever s"
proof -
  assume st: "stalled s"
  have "stalled t \<and> published t = published s \<and> consumed t = consumed s" if "conc_step\<^sup>*\<^sup>* s t" for t
    using that
  proof (induction rule: rtranclp_induct)
    case base
    show ?case by (simp add: st)
  next
    case (step t u)
    then show ?case using stalled_step [of t u] by simp
  qed
  moreover have "p_pc t = PIdle \<and> c_pc t = CIdle" if "stalled t" for t
    using that by (simp add: stalled_def)
  ultimately show ?thesis unfolding stalled_forever_def by blast
qed

section \<open>Example runs\<close>

lemma copy_run:
  assumes "p_pc s = PCopy bytes k" "k + d \<le> SLOT_PAYLOAD"
  shows "\<exists>f. conc_step\<^sup>*\<^sup>* s (s\<lparr>m_payload := f, p_pc := PCopy bytes (k + d)\<rparr>)"
  using assms(2)
proof (induction d)
  case 0
  have "s = s\<lparr>m_payload := m_payload s, p_pc := PCopy bytes (k + 0)\<rparr>" using assms(1) by simp
  then show ?case by (metis rtranclp.rtrancl_refl)
next
  case (Suc d)
  then obtain f where f: "conc_step\<^sup>*\<^sup>* s (s\<lparr>m_payload := f, p_pc := PCopy bytes (k + d)\<rparr>)" by auto
  let ?s = "s\<lparr>m_payload := f, p_pc := PCopy bytes (k + d)\<rparr>"
  have "conc_step ?s (?s\<lparr>m_payload := (m_payload ?s)(slot_index (p_next ?s) :=
      (m_payload ?s (slot_index (p_next ?s)))[k + d := payload_byte bytes (k + d)]),
      p_pc := PCopy bytes (Suc (k + d))\<rparr>)"
    by (rule conc_step.p_byte) (use Suc.prems in auto)
  with f show ?case by (auto intro: rtranclp.rtrancl_into_rtrancl)
qed

lemma read_run:
  assumes "c_pc s = CCopy buf" "length buf + d \<le> SLOT_PAYLOAD"
  shows "\<exists>buf'. length buf' = length buf + d \<and> conc_step\<^sup>*\<^sup>* s (s\<lparr>c_pc := CCopy buf'\<rparr>)"
  using assms(2)
proof (induction d)
  case 0
  have "s = s\<lparr>c_pc := CCopy buf\<rparr>" using assms(1) by simp
  then show ?case by (metis add_0_right rtranclp.rtrancl_refl)
next
  case (Suc d)
  then obtain buf' where b: "length buf' = length buf + d" "conc_step\<^sup>*\<^sup>* s (s\<lparr>c_pc := CCopy buf'\<rparr>)"
    by auto
  let ?s = "s\<lparr>c_pc := CCopy buf'\<rparr>"
  have "conc_step ?s (?s\<lparr>c_pc := CCopy (buf' @ [m_payload ?s (slot_index (c_next ?s)) ! length buf'])\<rparr>)"
    by (rule conc_step.c_byte) (use Suc.prems b in auto)
  with b have "conc_step\<^sup>*\<^sup>* s (s\<lparr>c_pc := CCopy (buf' @ [m_payload ?s (slot_index (c_next ?s)) ! length buf'])\<rparr>)"
    by (auto intro: rtranclp.rtrancl_into_rtrancl)
  then show ?case using b(1) by (metis add_Suc_right length_append_singleton)
qed

text \<open>A producer that has stored the sequence number of its first message.\<close>

lemma first_message:
  "\<exists>f. conc_reach (conc_init\<lparr>m_payload := f, p_pc := PSeqStored,
      m_seq := (m_seq conc_init)(0 := [0, 1]), published := [pad_payload [5]]\<rparr>)"
proof -
  let ?s1 = "conc_init\<lparr>p_tail_seen := 0, p_pc := PCopy [5] 0\<rparr>"
  have "conc_step conc_init ?s1"
    by (rule conc_step.p_start)
      (auto simp: conc_init_def SLOT_PAYLOAD_def RING_CAPACITY_def)
  then have r1: "conc_reach ?s1" by (rule conc_reach.step [OF conc_reach.start])
  obtain f where "conc_step\<^sup>*\<^sup>* ?s1 (?s1\<lparr>m_payload := f, p_pc := PCopy [5] (0 + SLOT_PAYLOAD)\<rparr>)"
    using copy_run [of ?s1 "[5]" 0 SLOT_PAYLOAD] by auto
  then have r2: "conc_reach (?s1\<lparr>m_payload := f, p_pc := PCopy [5] SLOT_PAYLOAD\<rparr>)"
    using conc_reach_rtranclp [OF _ r1] by simp
  let ?s2 = "?s1\<lparr>m_payload := f, p_pc := PCopy [5] SLOT_PAYLOAD\<rparr>"
  have "conc_step ?s2 (?s2\<lparr>m_seq := (m_seq ?s2)(0 := m_seq ?s2 0 @ [p_next ?s2 + 1]),
      p_pc := PSeqStored, published := published ?s2 @ [pad_payload [5]]\<rparr>)"
    by (rule conc_step.p_seq) (simp_all add: conc_init_def slot_index_mod)
  from conc_reach.step [OF r2 this] show ?thesis by (auto simp: conc_init_def)
qed

text \<open>From there, the consumer takes the message while the producer is still there.\<close>

lemma first_message_taken:
  assumes "conc_reach s" "c_pc s = CIdle" "c_next s = 0" "c_seq_seen s = (\<lambda>_. 0)" "m_seq s 0 = [0, 1]"
  shows "conc_step s (s\<lparr>c_seq_seen := (c_seq_seen s)(0 := 1), c_pc := CCopy []\<rparr>)"
    and "\<exists>buf. conc_reach (s\<lparr>c_seq_seen := (c_seq_seen s)(0 := 1), c_next := 1,
             m_tail := m_tail s @ [1], c_pc := CIdle, consumed := consumed s @ [buf]\<rparr>)"
proof -
  let ?s1 = "s\<lparr>c_seq_seen := (c_seq_seen s)(0 := 1), c_pc := CCopy []\<rparr>"
  show st: "conc_step s ?s1"
    by (rule conc_step.c_start) (use assms in \<open>auto simp: slot_index_mod\<close>)
  obtain buf where buf: "length buf = SLOT_PAYLOAD" "conc_step\<^sup>*\<^sup>* ?s1 (?s1\<lparr>c_pc := CCopy buf\<rparr>)"
    using read_run [of ?s1 "[]" SLOT_PAYLOAD] by auto
  let ?s2 = "?s1\<lparr>c_pc := CCopy buf\<rparr>"
  have r2: "conc_reach ?s2"
    using conc_reach_rtranclp [OF buf(2)] conc_reach.step [OF assms(1) st] by simp
  have "conc_step ?s2 (?s2\<lparr>c_next := c_next ?s2 + 1, m_tail := m_tail ?s2 @ [c_next ?s2 + 1],
      c_pc := CIdle, consumed := consumed ?s2 @ [buf]\<rparr>)"
    by (rule conc_step.c_tail) (use buf in simp_all)
  from conc_reach.step [OF r2 this]
  show "\<exists>buf. conc_reach (s\<lparr>c_seq_seen := (c_seq_seen s)(0 := 1), c_next := 1,
             m_tail := m_tail s @ [1], c_pc := CIdle, consumed := consumed s @ [buf]\<rparr>)"
    by (auto simp: assms(3))
qed

section \<open>Properties\<close>

text \<open>C1. Whatever the interleaving and however stale the loads, the consumer has received
  exactly the first messages published, each once, whole and in order, and never falls
  more than a ring's capacity behind.
\<close>

theorem conc_fifo:
  assumes "conc_reach s"
  shows "consumed s = take (length (consumed s)) (published s) \<and>
    length (published s) \<le> length (consumed s) + RING_CAPACITY"
  using conc_reach_inv [OF assms] mem_invD(10) conc_inv_unread_bound by (simp add: conc_inv_def)

theorem conc_fifo_witness:
  "\<exists>s. conc_reach s \<and> published s = [pad_payload [5]] \<and> consumed s = [pad_payload [5]]"
proof -
  obtain f where f: "conc_reach (conc_init\<lparr>m_payload := f, p_pc := PSeqStored,
      m_seq := (m_seq conc_init)(0 := [0, 1]), published := [pad_payload [5]]\<rparr>)"
    using first_message by blast
  then obtain buf where r: "conc_reach (conc_init\<lparr>m_payload := f, p_pc := PSeqStored,
      m_seq := (m_seq conc_init)(0 := [0, 1]), published := [pad_payload [5]],
      c_seq_seen := (c_seq_seen conc_init)(0 := 1), c_pc := CIdle, c_next := 1,
      m_tail := [0, 1], consumed := [buf]\<rparr>)"
    using first_message_taken(2) [OF f] by (auto simp: conc_init_def)
  from conc_fifo [OF r] have "buf = pad_payload [5]" by simp
  with r show ?thesis by force
qed

text \<open>C5. Every step of the two sides is a step of a bounded queue, or no step of it at all:
  the store of a slot's sequence number appends the message the producer was called with,
  when there is room; the store of the tail removes the oldest message, and it is the one
  the consumer copied; no other step is visible.
\<close>

theorem conc_refines_queue:
  assumes "conc_reach s" and "conc_step s t"
  shows "let q = drop (length (consumed s)) (published s);
             q' = drop (length (consumed t)) (published t)
    in q' = q \<or>
       (\<exists>bytes. p_pc s = PCopy bytes SLOT_PAYLOAD \<and> length q < RING_CAPACITY \<and>
          q' = q @ [pad_payload bytes]) \<or>
       (\<exists>buf. c_pc s = CCopy buf \<and> q = buf # q')"
proof -
  have inv: "conc_inv s" by (rule conc_reach_inv [OF assms(1)])
  then have mem: "mem_inv s" by (simp add: conc_inv_def)
  show ?thesis
    using assms(2)
  proof cases
    case (p_seq bytes i)
    have "length (published s) < p_tail_seen s + RING_CAPACITY"
      using inv p_seq by (simp add: conc_inv_def p_inv_def Let_def)
    then show ?thesis using p_seq mem_invD(1,3) [OF mem] by (auto simp: Let_def)
  next
    case (c_tail buf)
    have "length (consumed s) < length (published s)" "buf = published s ! length (consumed s)"
      using inv c_tail mem_invD(9) [OF mem] by (auto simp: conc_inv_def c_inv_def Let_def)
    then show ?thesis using c_tail by (auto simp: Let_def Cons_nth_drop_Suc)
  qed (auto simp: Let_def)
qed

theorem conc_refines_queue_witness:
  "\<exists>t. conc_step conc_init t \<and>
     drop (length (consumed t)) (published t) = []"
proof -
  let ?t = "conc_init\<lparr>p_tail_seen := 0, p_pc := PCopy [5] 0\<rparr>"
  have step: "conc_step conc_init ?t"
    by (rule conc_step.p_start) (auto simp: conc_init_def SLOT_PAYLOAD_def RING_CAPACITY_def)
  from conc_refines_queue [OF conc_reach.start step] step show ?thesis
    by (auto simp: conc_init_def Let_def)
qed

text \<open>C14. The plain accesses to the payload do not race: while the producer fills a slot and
  the consumer copies one out, they are different slots.
\<close>

theorem conc_race_free:
  assumes "conc_reach s" and "p_pc s = PCopy bytes k" and "c_pc s = CCopy buf"
  shows "slot_index (p_next s) \<noteq> slot_index (c_next s)"
proof -
  have inv: "conc_inv s" by (rule conc_reach_inv [OF assms(1)])
  then have mem: "mem_inv s" by (simp add: conc_inv_def)
  have p: "p_next s = of_nat (length (published s))"
    "length (published s) < p_tail_seen s + RING_CAPACITY"
    using inv assms(2) by (simp_all add: conc_inv_def p_inv_def Let_def)
  have c: "c_next s = of_nat (length (consumed s))" "length (consumed s) < length (published s)"
    using inv assms(3) by (simp_all add: conc_inv_def c_inv_def Let_def)
  show ?thesis
    using write_slot_not_unread [OF mem p(2) _ c(2)] by (simp add: p(1) c(1))
qed

theorem conc_race_free_witness:
  "\<exists>s. conc_reach s \<and> p_pc s = PCopy [6] 0 \<and> c_pc s = CCopy [] \<and>
     slot_index (p_next s) \<noteq> slot_index (c_next s)"
proof -
  obtain f where f: "conc_reach (conc_init\<lparr>m_payload := f, p_pc := PSeqStored,
      m_seq := (m_seq conc_init)(0 := [0, 1]), published := [pad_payload [5]]\<rparr>)"
    using first_message by blast
  let ?s = "conc_init\<lparr>m_payload := f, p_pc := PSeqStored,
      m_seq := (m_seq conc_init)(0 := [0, 1]), published := [pad_payload [5]]\<rparr>"
  let ?s1 = "?s\<lparr>p_next := p_next ?s + 1, m_head := p_next ?s + 1, p_pc := PIdle\<rparr>"
  have "conc_step ?s ?s1" by (rule conc_step.p_head) simp
  with f have r1: "conc_reach ?s1" by (rule conc_reach.step)
  let ?s2 = "?s1\<lparr>p_tail_seen := 0, p_pc := PCopy [6] 0\<rparr>"
  have "conc_step ?s1 ?s2"
    by (rule conc_step.p_start) (auto simp: conc_init_def SLOT_PAYLOAD_def RING_CAPACITY_def)
  with r1 have r2: "conc_reach ?s2" by (rule conc_reach.step)
  let ?s3 = "?s2\<lparr>c_seq_seen := (c_seq_seen ?s2)(0 := 1), c_pc := CCopy []\<rparr>"
  have "conc_step ?s2 ?s3"
    by (rule first_message_taken(1) [OF r2]) (simp_all add: conc_init_def)
  with r2 have r3: "conc_reach ?s3" by (rule conc_reach.step)
  have pc: "p_pc ?s3 = PCopy [6] 0" "c_pc ?s3 = CCopy []" by simp_all
  from conc_race_free [OF r3 pc] r3 pc show ?thesis by blast
qed



text \<open>A producer that dies anywhere but between the store of a slot's sequence number and
  the store of \<open>head\<close> can be replaced: the new one continues in a state that satisfies
  the whole invariant, with nothing published or consumed changed.
\<close>

theorem restart_producer_safe:
  assumes "conc_reach s" and "p_pc s \<noteq> PSeqStored"
  shows "conc_inv (restart_producer s) \<and> published (restart_producer s) = published s \<and>
    consumed (restart_producer s) = consumed s"
proof -
  have "conc_inv s" by (rule conc_reach_inv [OF assms(1)])
  then show ?thesis
    using conc_reach_head [OF assms(1)] assms(2)
    by (cases "p_pc s") (auto simp: restart_producer_def conc_inv_def p_inv_def c_inv_def mem_inv_def Let_def)
qed

theorem restart_producer_safe_witness:
  "conc_inv (restart_producer (conc_init\<lparr>p_tail_seen := 0, p_pc := PCopy [5] 0\<rparr>))"
proof -
  have "conc_step conc_init (conc_init\<lparr>p_tail_seen := 0, p_pc := PCopy [5] 0\<rparr>)"
    by (rule conc_step.p_start) (auto simp: conc_init_def SLOT_PAYLOAD_def RING_CAPACITY_def)
  then have "conc_reach (conc_init\<lparr>p_tail_seen := 0, p_pc := PCopy [5] 0\<rparr>)"
    by (rule conc_reach.step [OF conc_reach.start])
  from restart_producer_safe [OF this] show ?thesis by simp
qed

text \<open>C30. A producer that dies between those two stores, when the consumer has taken its last message, leaves a
  trap: the new producer takes its cursor from \<open>head\<close> alone and is one behind the tail. As soon as its
  check in \<open>try_publish\<close> reads the current tail, and it can, it finds the ring full, and from then on neither side makes
  progress, whatever either of them does. (With an older value of the tail it would get through that check.)
\<close>

theorem restart_producer_stalls:
  assumes "conc_reach s" and "p_pc s = PSeqStored" and "c_pc s = CIdle"
    and "length (consumed s) = length (published s)"
  shows "(\<exists>t. conc_step (restart_producer s) t \<and> p_tail_seen t = length (consumed s)) \<and>
    (\<forall>t. conc_step (restart_producer s) t \<and> p_tail_seen t = length (consumed s) \<longrightarrow> stalled_forever t)"
proof -
  let ?c = "length (consumed s)"
  let ?r = "restart_producer s"
  let ?t = "?r\<lparr>p_tail_seen := ?c\<rparr>"
  have inv: "conc_inv s" by (rule conc_reach_inv [OF assms(1)])
  then have mem: "mem_inv s" and cinv: "c_inv s" by (simp_all add: conc_inv_def)
  have n: "0 < length (published s)" "p_next s = of_nat (length (published s) - 1)"
    using inv assms(2) by (simp_all add: conc_inv_def p_inv_def Let_def)
  have r: "m_head s = p_next s" by (rule conc_reach_head [OF assms(1)])
  have "mem_inv ?t"
    using mem assms(4) by (simp add: mem_inv_def restart_producer_def Let_def)
  moreover have nxt: "m_head s + 1 = of_nat (length (published s))"
    using n by (cases "length (published s)") (simp_all add: r add.commute)
  moreover have "published s \<noteq> []" using n(1) by auto
  moreover have "c_inv ?t" using cinv assms(3) by (simp add: c_inv_def restart_producer_def Let_def)
  ultimately have st: "stalled ?t"
    using assms(3,4) by (simp add: stalled_def restart_producer_def)
  have j: "?c < length (m_tail s)" using mem_invD(4) [OF mem] by simp
  have full: "of_nat RING_CAPACITY \<le> p_next ?r - m_tail ?r ! ?c"
    using stalled_full(2) [OF st, of ?c] j by (simp add: restart_producer_def)
  have "conc_step ?r ?t"
    by (rule conc_step.p_full [where bytes = "[]"]) (use j full mem_invD(3) [OF mem] in \<open>simp_all add: restart_producer_def\<close>)
  moreover have "stalled t" if step: "conc_step ?r t" and seen: "p_tail_seen t = ?c" for t
  proof (cases "p_tail_seen s = ?c")
    case True
    then have "?t = ?r" by (simp add: restart_producer_def)
    then have "stalled ?r" using st by (simp only:)
    then show ?thesis using stalled_step [OF step] by blast
  next
    case False
    from step have "t = ?t"
    proof cases
      case (p_start bytes j)
      then show ?thesis using full seen by simp
    qed (use seen False assms(3) in \<open>simp_all add: restart_producer_def\<close>)
    then show ?thesis using st by simp
  qed
  ultimately show ?thesis using stalled_stalled_forever by fastforce
qed

theorem restart_producer_stalls_witness:
  "\<exists>s t. conc_reach s \<and> conc_step (restart_producer s) t \<and> stalled_forever t"
proof -
  obtain f where f: "conc_reach (conc_init\<lparr>m_payload := f, p_pc := PSeqStored,
      m_seq := (m_seq conc_init)(0 := [0, 1]), published := [pad_payload [5]]\<rparr>)"
    using first_message by blast
  then obtain buf where r: "conc_reach (conc_init\<lparr>m_payload := f, p_pc := PSeqStored,
      m_seq := (m_seq conc_init)(0 := [0, 1]), published := [pad_payload [5]],
      c_seq_seen := (c_seq_seen conc_init)(0 := 1), c_pc := CIdle, c_next := 1,
      m_tail := [0, 1], consumed := [buf]\<rparr>)"
    using first_message_taken(2) [OF f] by (auto simp: conc_init_def)
  from restart_producer_stalls [OF r] r show ?thesis by fastforce
qed

end
