(* ===== verification/Float64.thy ===== *)
theory Float64
  imports Bus_Prelude
begin

text \<open>
  The \<open>f64\<close> of Rust, as far as the program computes with it: IEEE 754 binary64 with
  rounding to nearest, ties to even, which is the only rounding the language uses. A
  finite number is its sign, mantissa and exponent, \<open>(-1)\<^sup>s * m * 2\<^sup>e\<close>; the operations
  compute the exact rational result over integers and round it once, so they evaluate.
  The payload of a NaN is not kept: nothing in the program looks at it. \<open>exp\<close> and \<open>ln\<close>,
  which the platform's mathematical library computes, are not defined here.

  \<open>Float64_Real\<close> gives the operations their meaning in the real numbers.
\<close>

section \<open>Numbers and rounding\<close>

datatype f64 = F_NaN | F_Inf bool | F_Fin bool int int

text \<open>The quotient \<open>a / b\<close> rounded to the nearest integer, ties to even.\<close>

definition rne_div :: "int \<Rightarrow> int \<Rightarrow> int" where
  "rne_div a b =
     (let d = a div b; r = a mod b
      in if 2 * r < b then d else if b < 2 * r then d + 1 else if even d then d else d + 1)"

definition f64_make :: "bool \<Rightarrow> int \<Rightarrow> int \<Rightarrow> f64" where
  "f64_make s m e =
     (if m = 2 ^ 53 then (if 971 < e + 1 then F_Inf s else F_Fin s (2 ^ 52) (e + 1))
      else (if 971 < e then F_Inf s else F_Fin s m e))"

text \<open>The exponent of the last place of \<open>p / q\<close> in the format.\<close>

definition ulp_exp :: "int \<Rightarrow> int \<Rightarrow> int" where
  "ulp_exp p q =
     (let k = bitlen p - bitlen q
      in max (- 1074) ((if q * 2 ^ nat k \<le> p * 2 ^ nat (- k) then k else k - 1) - 52))"

text \<open>The number nearest to \<open>p / q\<close>, for \<open>p \<ge> 0\<close> and \<open>q > 0\<close>, with a sign.\<close>

definition f64_round :: "bool \<Rightarrow> int \<Rightarrow> int \<Rightarrow> f64" where
  "f64_round s p q =
     (if p = 0 then F_Fin s 0 (- 1074)
      else let e = ulp_exp p q
           in f64_make s (rne_div (p * 2 ^ nat (- e)) (q * 2 ^ nat e)) e)"

definition f64_scaled :: "bool \<Rightarrow> int \<Rightarrow> int \<Rightarrow> f64" where
  "f64_scaled s m e = f64_round s (m * 2 ^ nat e) (2 ^ nat (- e))"

section \<open>Operations\<close>

definition sgn_of :: "bool \<Rightarrow> int" where
  "sgn_of s = (if s then - 1 else 1)"

text \<open>A decimal literal, and the conversions \<open>as f64\<close> from integers.\<close>

definition f64_lit :: "int \<Rightarrow> int \<Rightarrow> f64" where
  "f64_lit p q = f64_round (p < 0) \<bar>p\<bar> q"

definition f64_of_int :: "int \<Rightarrow> f64" where
  "f64_of_int i = f64_round (i < 0) \<bar>i\<bar> 1"

definition f64_of_u64 :: "u64 \<Rightarrow> f64" where
  "f64_of_u64 x = f64_of_int (uint x)"

definition f64_of_i64 :: "i64 \<Rightarrow> f64" where
  "f64_of_i64 x = f64_of_int (sint x)"

fun f64_neg :: "f64 \<Rightarrow> f64" where
  "f64_neg F_NaN = F_NaN"
| "f64_neg (F_Inf s) = F_Inf (\<not> s)"
| "f64_neg (F_Fin s m e) = F_Fin (\<not> s) m e"

fun f64_abs :: "f64 \<Rightarrow> f64" where
  "f64_abs F_NaN = F_NaN"
| "f64_abs (F_Inf s) = F_Inf False"
| "f64_abs (F_Fin s m e) = F_Fin False m e"

fun f64_add :: "f64 \<Rightarrow> f64 \<Rightarrow> f64" where
  "f64_add (F_Fin s1 m1 e1) (F_Fin s2 m2 e2) =
     (let e = min e1 e2;
          i = sgn_of s1 * m1 * 2 ^ nat (e1 - e) + sgn_of s2 * m2 * 2 ^ nat (e2 - e)
      in if i = 0 then F_Fin (s1 \<and> s2) 0 (- 1074) else f64_scaled (i < 0) \<bar>i\<bar> e)"
| "f64_add F_NaN b = F_NaN"
| "f64_add a F_NaN = F_NaN"
| "f64_add (F_Inf s1) (F_Inf s2) = (if s1 = s2 then F_Inf s1 else F_NaN)"
| "f64_add (F_Inf s) (F_Fin s2 m2 e2) = F_Inf s"
| "f64_add (F_Fin s1 m1 e1) (F_Inf s) = F_Inf s"

definition f64_sub :: "f64 \<Rightarrow> f64 \<Rightarrow> f64" where
  "f64_sub a b = f64_add a (f64_neg b)"

fun f64_mul :: "f64 \<Rightarrow> f64 \<Rightarrow> f64" where
  "f64_mul (F_Fin s1 m1 e1) (F_Fin s2 m2 e2) = f64_scaled (s1 \<noteq> s2) (m1 * m2) (e1 + e2)"
| "f64_mul F_NaN b = F_NaN"
| "f64_mul a F_NaN = F_NaN"
| "f64_mul (F_Inf s1) (F_Inf s2) = F_Inf (s1 \<noteq> s2)"
| "f64_mul (F_Inf s1) (F_Fin s2 m2 e2) = (if m2 = 0 then F_NaN else F_Inf (s1 \<noteq> s2))"
| "f64_mul (F_Fin s1 m1 e1) (F_Inf s2) = (if m1 = 0 then F_NaN else F_Inf (s1 \<noteq> s2))"

fun f64_div :: "f64 \<Rightarrow> f64 \<Rightarrow> f64" where
  "f64_div (F_Fin s1 m1 e1) (F_Fin s2 m2 e2) =
     (if m2 = 0 then (if m1 = 0 then F_NaN else F_Inf (s1 \<noteq> s2))
      else f64_round (s1 \<noteq> s2) (m1 * 2 ^ nat (e1 - e2)) (m2 * 2 ^ nat (e2 - e1)))"
| "f64_div F_NaN b = F_NaN"
| "f64_div a F_NaN = F_NaN"
| "f64_div (F_Inf s1) (F_Inf s2) = F_NaN"
| "f64_div (F_Inf s1) (F_Fin s2 m2 e2) = F_Inf (s1 \<noteq> s2)"
| "f64_div (F_Fin s1 m1 e1) (F_Inf s2) = F_Fin (s1 \<noteq> s2) 0 (- 1074)"

fun f64_lt :: "f64 \<Rightarrow> f64 \<Rightarrow> bool" where
  "f64_lt (F_Fin s1 m1 e1) (F_Fin s2 m2 e2) =
     (let e = min e1 e2
      in sgn_of s1 * m1 * 2 ^ nat (e1 - e) < sgn_of s2 * m2 * 2 ^ nat (e2 - e))"
| "f64_lt F_NaN b = False"
| "f64_lt a F_NaN = False"
| "f64_lt (F_Inf s1) (F_Inf s2) = (s1 \<and> \<not> s2)"
| "f64_lt (F_Inf s1) (F_Fin s2 m2 e2) = s1"
| "f64_lt (F_Fin s1 m1 e1) (F_Inf s2) = (\<not> s2)"

fun f64_le :: "f64 \<Rightarrow> f64 \<Rightarrow> bool" where
  "f64_le (F_Fin s1 m1 e1) (F_Fin s2 m2 e2) = (\<not> f64_lt (F_Fin s2 m2 e2) (F_Fin s1 m1 e1))"
| "f64_le F_NaN b = False"
| "f64_le a F_NaN = False"
| "f64_le (F_Inf s1) (F_Inf s2) = (s1 \<or> \<not> s2)"
| "f64_le (F_Inf s1) (F_Fin s2 m2 e2) = s1"
| "f64_le (F_Fin s1 m1 e1) (F_Inf s2) = (\<not> s2)"

text \<open>\<open>f64::max\<close> ignores a NaN.\<close>

definition f64_max :: "f64 \<Rightarrow> f64 \<Rightarrow> f64" where
  "f64_max a b = (if a = F_NaN then b else if b = F_NaN then a else if f64_lt a b then b else a)"

fun f64_ceil :: "f64 \<Rightarrow> f64" where
  "f64_ceil (F_Fin s m e) =
     (if 0 \<le> e then F_Fin s m e
      else let i = - ((- (sgn_of s * m)) div 2 ^ nat (- e))
           in if i = 0 then F_Fin s 0 (- 1074) else f64_round (i < 0) \<bar>i\<bar> 1)"
| "f64_ceil a = a"

text \<open>\<open>as u64\<close> and \<open>as i64\<close>: towards zero, saturating, NaN to zero.\<close>

fun f64_trunc :: "f64 \<Rightarrow> int" where
  "f64_trunc (F_Fin s m e) = sgn_of s * (m * 2 ^ nat e div 2 ^ nat (- e))"
| "f64_trunc a = 0"

fun f64_to_u64 :: "f64 \<Rightarrow> u64" where
  "f64_to_u64 F_NaN = 0"
| "f64_to_u64 (F_Inf s) = (if s then 0 else - 1)"
| "f64_to_u64 (F_Fin s m e) =
     of_int (min (2 ^ 64 - 1) (max 0 (f64_trunc (F_Fin s m e))))"

fun f64_to_i64 :: "f64 \<Rightarrow> i64" where
  "f64_to_i64 F_NaN = 0"
| "f64_to_i64 (F_Inf s) = (if s then of_int (- (2 ^ 63)) else of_int (2 ^ 63 - 1))"
| "f64_to_i64 (F_Fin s m e) =
     of_int (min (2 ^ 63 - 1) (max (- (2 ^ 63)) (f64_trunc (F_Fin s m e))))"

end
