(* ===== verification/Float64_Real.thy ===== *)
theory Float64_Real
  imports Float64
begin

text \<open>
  The meaning of the binary64 operations in the real numbers: \<open>f64_val\<close> is the number
  denoted, \<open>rnd\<close> is rounding as a function on the reals, and the lemmas bound the error,
  show that rounding is monotone and that it is exact on numbers of the format.
\<close>

section \<open>Meaning in the real numbers\<close>

definition pw :: "int \<Rightarrow> real" where
  "pw e = 2 powr real_of_int e"

fun is_fin :: "f64 \<Rightarrow> bool" where
  "is_fin (F_Fin s m e) = True"
| "is_fin a = False"

fun f64_val :: "f64 \<Rightarrow> real" where
  "f64_val (F_Fin s m e) = of_int (sgn_of s) * of_int m * pw e"
| "f64_val a = 0"

text \<open>The finite numbers of the format, in their one representation.\<close>

fun f64_wf :: "f64 \<Rightarrow> bool" where
  "f64_wf (F_Fin s m e) \<longleftrightarrow>
     0 \<le> m \<and> m < 2 ^ 53 \<and> - 1074 \<le> e \<and> e \<le> 971 \<and> (2 ^ 52 \<le> m \<or> e = - 1074)"
| "f64_wf a = True"

definition rne :: "real \<Rightarrow> int" where
  "rne x =
     (let f = \<lfloor>x\<rfloor>; r = x - of_int f
      in if r < 1 / 2 then f else if 1 / 2 < r then f + 1 else if even f then f else f + 1)"

definition fexp :: "real \<Rightarrow> int" where
  "fexp x = max (- 1074) (\<lfloor>log 2 x\<rfloor> - 52)"

definition rnd :: "real \<Rightarrow> real" where
  "rnd x = of_int (rne (x / pw (fexp x))) * pw (fexp x)"

definition rnds :: "real \<Rightarrow> real" where
  "rnds x = (if x < 0 then - rnd (- x) else rnd x)"

subsection \<open>Rounding to integers\<close>

lemma rne_div_rne:
  assumes "0 < b"
  shows "rne_div a b = rne (of_int a / of_int b)"
proof -
  have f: "\<lfloor>of_int a / of_int b :: real\<rfloor> = a div b" by (rule floor_divide_of_int_eq)
  have r: "real_of_int a / of_int b - of_int (a div b) = of_int (a mod b) / of_int b"
    using assms by (simp add: minus_div_mult_eq_mod [symmetric] field_simps)
  have "2 * (a mod b) < b \<longleftrightarrow> real_of_int (2 * (a mod b)) < of_int b"
    "b < 2 * (a mod b) \<longleftrightarrow> real_of_int b < of_int (2 * (a mod b))"
    by (simp_all only: of_int_less_iff)
  then have c: "2 * (a mod b) < b \<longleftrightarrow> real_of_int (a mod b) / of_int b < 1 / 2"
    "b < 2 * (a mod b) \<longleftrightarrow> 1 / 2 < real_of_int (a mod b) / of_int b"
    using assms by (simp_all add: field_simps)
  show ?thesis by (simp only: rne_div_def rne_def Let_def f r c)
qed

lemma rne_cases: "rne x = \<lfloor>x\<rfloor> \<or> rne x = \<lfloor>x\<rfloor> + 1"
  by (simp add: rne_def Let_def)

lemma rne_error: "\<bar>of_int (rne x) - x\<bar> \<le> 1 / 2"
  unfolding rne_def Let_def by (auto; linarith)

lemma rne_near: "\<bar>x - of_int n\<bar> < 1 / 2 \<Longrightarrow> rne x = n"
proof -
  assume a: "\<bar>x - of_int n\<bar> < 1 / 2"
  have "\<bar>of_int (rne x) - of_int n :: real\<bar> < 1" using rne_error [of x] a by linarith
  then show ?thesis by linarith
qed

lemma rne_of_int [simp]: "rne (of_int n) = n"
  by (rule rne_near) simp

lemma rne_0 [simp]: "rne 0 = 0"
  using rne_of_int [of 0] by simp

lemma rne_mono:
  assumes "x \<le> y"
  shows "rne x \<le> rne y"
proof (cases "\<lfloor>x\<rfloor> = \<lfloor>y\<rfloor>")
  case True
  then show ?thesis using assms by (auto simp: rne_def Let_def)
next
  case False
  then have "\<lfloor>x\<rfloor> + 1 \<le> \<lfloor>y\<rfloor>" using floor_mono [OF assms] by linarith
  then show ?thesis using rne_cases [of x] rne_cases [of y] by linarith
qed

lemma rne_le: "x \<le> of_int n \<Longrightarrow> rne x \<le> n"
  using rne_mono [of x "of_int n"] by simp

lemma rne_ge: "of_int n \<le> x \<Longrightarrow> n \<le> rne x"
  using rne_mono [of "of_int n" x] by simp

subsection \<open>Rounding to the format\<close>

lemma pw_pos [simp]: "0 < pw e"
  by (simp add: pw_def)

lemma pw_ne_0 [simp]: "pw e \<noteq> 0"
  by (simp add: pw_def)

lemma pw_ge_0 [simp]: "0 \<le> pw e"
  by (simp add: pw_def)

lemma pw_le_iff [simp]: "pw a \<le> pw b \<longleftrightarrow> a \<le> b"
  by (simp add: pw_def)

lemma pw_less_iff [simp]: "pw a < pw b \<longleftrightarrow> a < b"
  by (simp add: pw_def)

lemma pw_0 [simp]: "pw 0 = 1"
  by (simp add: pw_def)

lemma pw_add: "pw (a + b) = pw a * pw b"
  by (simp add: pw_def powr_add)

lemma pw_diff: "pw (a - b) = pw a / pw b"
  by (simp add: pw_def powr_diff)

lemma pw_uminus: "pw (- a) = 1 / pw a"
  using pw_diff [of 0 a] by simp

lemma pw_nat: "0 \<le> e \<Longrightarrow> pw e = 2 ^ nat e"
  by (simp add: pw_def powr_realpow [symmetric])

lemma pw_52: "pw (e + 52) = 2 ^ 52 * pw e"
  by (simp add: pw_add pw_nat)

lemma pw_53: "pw (e + 53) = 2 ^ 53 * pw e"
  by (simp add: pw_add pw_nat)

lemma pw_mono: "a \<le> b \<Longrightarrow> pw a \<le> pw b"
  by simp

lemma pw_trans: "x \<le> pw a \<Longrightarrow> a \<le> b \<Longrightarrow> x \<le> pw b"
  using pw_mono [of a b] by linarith

lemma pw_of_int: "0 \<le> e \<Longrightarrow> pw e = of_int (2 ^ nat e)"
  by (simp add: pw_nat)

lemma floor_log_pw: "0 < x \<Longrightarrow> \<lfloor>log 2 x\<rfloor> = k \<longleftrightarrow> pw k \<le> x \<and> x < pw (k + 1)"
  using floor_log_eq_powr_iff [of x 2 k] by (simp add: pw_def add.commute)

lemma scaled_quotient:
  "real_of_int (p * 2 ^ nat (- e)) / of_int (q * 2 ^ nat e) = of_int p / of_int q / pw e"
proof (cases "0 \<le> e")
  case True
  then show ?thesis by (simp add: pw_nat)
next
  case False
  then have "pw e * 2 ^ nat (- e) = 1"
    using pw_add [of e "- e"] pw_nat [of "- e"] by simp
  then have "2 ^ nat (- e) = 1 / pw e" by (simp add: field_simps)
  with False show ?thesis by simp
qed

lemma fexp_bounds:
  assumes "0 < x"
  shows "x < pw (fexp x + 53)" and "- 1074 < fexp x \<Longrightarrow> pw (fexp x + 52) \<le> x"
proof -
  have l: "pw \<lfloor>log 2 x\<rfloor> \<le> x" "x < pw (\<lfloor>log 2 x\<rfloor> + 1)"
    using floor_log_pw [OF assms] by blast+
  have "pw (\<lfloor>log 2 x\<rfloor> + 1) \<le> pw (fexp x + 53)" by (rule pw_mono) (simp add: fexp_def)
  with l(2) show "x < pw (fexp x + 53)" by linarith
  assume "- 1074 < fexp x"
  then have "fexp x + 52 = \<lfloor>log 2 x\<rfloor>" by (simp add: fexp_def)
  with l(1) show "pw (fexp x + 52) \<le> x" by simp
qed

lemma fexp_ge: "- 1074 \<le> fexp x"
  by (simp add: fexp_def)

lemma fexp_le:
  assumes "0 < x" "x < pw (e + 53)" "- 1074 \<le> e"
  shows "fexp x \<le> e"
proof (rule ccontr)
  assume "\<not> fexp x \<le> e"
  then have "pw (e + 53) \<le> pw (fexp x + 52)" by (intro pw_mono) simp
  also have "\<dots> \<le> x" using fexp_bounds(2) [OF assms(1)] assms(3) \<open>\<not> fexp x \<le> e\<close> by simp
  finally show False using assms(2) by simp
qed

lemma fexp_mono:
  assumes "0 < x" "x \<le> y"
  shows "fexp x \<le> fexp y"
  by (rule fexp_le) (use assms fexp_bounds(1) [of y] fexp_ge [of y] in auto)

lemma ulp_exp_fexp:
  assumes "0 < p" "0 < q"
  shows "ulp_exp p q = fexp (of_int p / of_int q)"
proof -
  let ?x = "real_of_int p / of_int q" and ?k = "bitlen p - bitlen q"
  have bl: "real_of_int n < pw (bitlen n)" "pw (bitlen n - 1) \<le> of_int n" if n: "0 < n" for n
  proof -
    have "1 \<le> bitlen n" using n bitlen_bounds [of n] bitlen_nonneg [of n]
      by (cases "bitlen n = 0") auto
    moreover have "2 ^ nat (bitlen n - 1) \<le> n \<and> n < 2 ^ nat (bitlen n)"
      using bitlen_bounds [of n] n by simp
    then have "(2 ^ nat (bitlen n - 1) :: real) \<le> of_int n \<and> of_int n < (2 ^ nat (bitlen n) :: real)"
      by (metis of_int_le_iff of_int_less_iff of_int_numeral of_int_power)
    ultimately show "real_of_int n < pw (bitlen n)" "pw (bitlen n - 1) \<le> of_int n"
      using pw_nat [of "bitlen n - 1"] by (simp_all add: pw_nat)
  qed
  have "?x < pw (?k + 1)"
  proof -
    have "of_int p < pw (?k + 1) * pw (bitlen q - 1)"
      using bl(1) [OF assms(1)] by (simp add: pw_add [symmetric] algebra_simps)
    also have "\<dots> \<le> pw (?k + 1) * of_int q" using bl(2) [OF assms(2)] by simp
    finally show ?thesis using assms(2) by (simp add: field_simps)
  qed
  moreover have "pw (?k - 1) < ?x"
  proof -
    have "pw (?k - 1) * of_int q < pw (?k - 1) * pw (bitlen q)" using bl(1) [OF assms(2)] by simp
    also have "\<dots> = pw (bitlen p - 1)" by (simp add: pw_add [symmetric])
    also have "\<dots> \<le> of_int p" by (rule bl(2) [OF assms(1)])
    finally show ?thesis using assms(2) by (simp add: field_simps)
  qed
  moreover have "q * 2 ^ nat ?k \<le> p * 2 ^ nat (- ?k) \<longleftrightarrow> pw ?k \<le> ?x"
  proof -
    have "q * 2 ^ nat ?k \<le> p * 2 ^ nat (- ?k) \<longleftrightarrow>
        real_of_int (q * 2 ^ nat ?k) \<le> real_of_int (p * 2 ^ nat (- ?k))"
      by (simp only: of_int_le_iff)
    also have "\<dots> \<longleftrightarrow> 1 \<le> real_of_int (p * 2 ^ nat (- ?k)) / of_int (q * 2 ^ nat ?k)"
      using assms(2) by (subst le_divide_eq_1_pos) (simp_all del: of_int_mult)
    also have "\<dots> \<longleftrightarrow> 1 \<le> ?x / pw ?k" by (simp only: scaled_quotient)
    also have "\<dots> \<longleftrightarrow> pw ?k \<le> ?x" by (simp only: le_divide_eq_1_pos pw_pos)
    finally show ?thesis .
  qed
  moreover have "0 < ?x" using assms by simp
  ultimately have "\<lfloor>log 2 ?x\<rfloor> = (if q * 2 ^ nat ?k \<le> p * 2 ^ nat (- ?k) then ?k else ?k - 1)"
    by (subst floor_log_pw) (auto simp: not_le)
  then show ?thesis by (simp add: ulp_exp_def fexp_def Let_def)
qed


lemma rne_mantissa:
  assumes "0 < x"
  shows "0 \<le> rne (x / pw (fexp x))" and "rne (x / pw (fexp x)) \<le> 2 ^ 53"
    and "- 1074 < fexp x \<Longrightarrow> 2 ^ 52 \<le> rne (x / pw (fexp x))"
proof -
  show "0 \<le> rne (x / pw (fexp x))" by (rule rne_ge) (use assms in simp)
  show "rne (x / pw (fexp x)) \<le> 2 ^ 53"
    by (rule rne_le) (use fexp_bounds(1) [OF assms] in \<open>simp add: pw_53 pos_divide_le_eq\<close>)
  assume "- 1074 < fexp x"
  from fexp_bounds(2) [OF assms this] show "2 ^ 52 \<le> rne (x / pw (fexp x))"
    by (intro rne_ge) (simp add: pw_52 pos_le_divide_eq)
qed

lemma f64_make_val:
  assumes "0 \<le> m" "m \<le> 2 ^ 53" "- 1074 < e \<Longrightarrow> 2 ^ 52 \<le> m" "- 1074 \<le> e"
    and "of_int m * pw e < pw 1024"
  shows "is_fin (f64_make s m e) \<and> f64_val (f64_make s m e) = of_int (sgn_of s) * (of_int m * pw e) \<and>
    f64_wf (f64_make s m e)"
proof (cases "m = 2 ^ 53")
  case True
  then have "pw (e + 53) < pw 1024" using assms(5) by (simp add: pw_53)
  then have "e + 1 \<le> 971" by simp
  moreover have "(2 ^ 52 :: real) * pw (e + 1) = 2 ^ 53 * pw e" by (simp add: pw_add pw_nat)
  ultimately show ?thesis using True assms(4) by (simp add: f64_make_def)
next
  case False
  have "e \<le> 971"
  proof (rule ccontr)
    assume a: "\<not> e \<le> 971"
    then have "2 ^ 52 \<le> m" using assms(3) by simp
    then have "(2 ^ 52 :: real) \<le> of_int m" by (metis of_int_le_iff of_int_numeral of_int_power)
    moreover have "pw 972 \<le> pw e" using a by (intro pw_mono) simp
    ultimately have "2 ^ 52 * pw 972 \<le> of_int m * pw e" by (intro mult_mono) auto
    moreover have "(2 ^ 52 :: real) * pw 972 = pw 1024" using pw_52 [of 972] by simp
    ultimately show False using assms(5) by simp
  qed
  with False assms show ?thesis by (auto simp: f64_make_def)
qed

lemma rnd_0 [simp]: "rnd 0 = 0"
  by (simp add: rnd_def)

lemma f64_round_val:
  assumes "0 \<le> p" "0 < q" "rnd (of_int p / of_int q) < pw 1024"
  shows "is_fin (f64_round s p q) \<and> f64_val (f64_round s p q) = of_int (sgn_of s) * rnd (of_int p / of_int q) \<and>
    f64_wf (f64_round s p q)"
proof (cases "p = 0")
  case True
  then show ?thesis by (simp add: f64_round_def)
next
  case False
  with assms(1) have p: "0 < p" by simp
  let ?x = "real_of_int p / of_int q" and ?e = "ulp_exp p q"
  let ?m = "rne_div (p * 2 ^ nat (- ?e)) (q * 2 ^ nat ?e)"
  have x: "0 < ?x" using p assms(2) by simp
  have e: "?e = fexp ?x" by (rule ulp_exp_fexp [OF p assms(2)])
  have "?m = rne (?x / pw ?e)"
    using assms(2) by (subst rne_div_rne) (simp, simp only: scaled_quotient)
  then have m: "?m = rne (?x / pw (fexp ?x))" by (simp only: e)
  have v: "of_int ?m * pw ?e = rnd ?x" by (simp only: m rnd_def) (simp only: e)
  have b: "0 \<le> ?m" "?m \<le> 2 ^ 53" "- 1074 < ?e \<Longrightarrow> 2 ^ 52 \<le> ?m"
    unfolding m using rne_mantissa [OF x] e by auto
  have "f64_round s p q = f64_make s ?m ?e"
    using False by (simp add: f64_round_def Let_def)
  moreover have "- 1074 \<le> ?e" using fexp_ge e by simp
  ultimately show ?thesis using f64_make_val [of ?m ?e s] b v assms(3) by simp
qed

subsection \<open>Rounding as a function of the reals\<close>

lemma rnd_nonneg: "0 \<le> x \<Longrightarrow> 0 \<le> rnd x"
  using rne_mantissa(1) [of x] by (cases "x = 0") (auto simp: rnd_def)

text \<open>A multiple of the last place that is closer than half of it is the result.\<close>

lemma rnd_near:
  assumes "\<bar>x - of_int n * pw (fexp x)\<bar> < pw (fexp x) / 2"
  shows "rnd x = of_int n * pw (fexp x)"
proof -
  have "x / pw (fexp x) - of_int n = (x - of_int n * pw (fexp x)) / pw (fexp x)"
    by (simp add: field_simps)
  then have "\<bar>x / pw (fexp x) - of_int n\<bar> < 1 / 2"
    using assms by (simp add: abs_divide field_simps)
  then show ?thesis by (simp add: rnd_def rne_near)
qed

lemma rnd_le_multiple:
  assumes "x \<le> of_int n * pw (fexp x)"
  shows "rnd x \<le> of_int n * pw (fexp x)"
proof -
  have "rne (x / pw (fexp x)) \<le> n" by (rule rne_le) (use assms in \<open>simp add: field_simps\<close>)
  then show ?thesis by (simp add: rnd_def)
qed

lemma rnd_error: "\<bar>rnd x - x\<bar> \<le> pw (fexp x) / 2"
proof -
  have "rnd x - x = (of_int (rne (x / pw (fexp x))) - x / pw (fexp x)) * pw (fexp x)"
    by (simp add: rnd_def left_diff_distrib)
  then have "\<bar>rnd x - x\<bar> = \<bar>of_int (rne (x / pw (fexp x))) - x / pw (fexp x)\<bar> * pw (fexp x)"
    by (simp add: abs_mult)
  also have "\<dots> \<le> 1 / 2 * pw (fexp x)" by (rule mult_right_mono [OF rne_error]) simp
  finally show ?thesis by simp
qed

text \<open>For numbers above the subnormal range, a relative error of \<open>2\<^sup>-\<^sup>53\<close>.\<close>

lemma fexp_normal:
  assumes "pw (- 1022) \<le> x"
  shows "pw (fexp x) \<le> x * pw (- 52)"
proof (cases "- 1074 < fexp x")
  case True
  have "0 < x" using assms pw_pos [of "- 1022"] by linarith
  from fexp_bounds(2) [OF this True] show ?thesis by (simp add: pw_52 pw_uminus pw_nat field_simps)
next
  case False
  then have "fexp x = - 1074" using fexp_ge [of x] by simp
  then have "pw (fexp x) = pw (- 1022) * pw (- 52)" by (simp add: pw_add [symmetric])
  then show ?thesis using assms by simp
qed

lemma rnd_rel_error:
  assumes "pw (- 1022) \<le> x"
  shows "\<bar>rnd x - x\<bar> \<le> x * pw (- 53)"
proof -
  have "pw (- 52) = 2 * pw (- 53)" using pw_add [of 1 "- 53"] by (simp add: pw_nat)
  then show ?thesis using rnd_error [of x] fexp_normal [OF assms] by simp
qed

text \<open>Numbers of the format are their own rounding.\<close>

lemma pw_int_multiple: "e' \<le> e \<Longrightarrow> pw e = of_int (2 ^ nat (e - e')) * pw e'"
  using pw_add [of "e - e'" e'] pw_nat [of "e - e'"] by simp

lemma rnd_exact:
  assumes "0 \<le> m" "m < 2 ^ 53" "- 1074 \<le> e"
  shows "rnd (of_int m * pw e) = of_int m * pw e"
proof (cases "m = 0")
  case True
  then show ?thesis by simp
next
  case False
  let ?x = "of_int m * pw e"
  have "real_of_int m < 2 ^ 53" using assms(2) by (metis of_int_less_iff of_int_numeral of_int_power)
  then have x: "0 < ?x" "?x < pw (e + 53)" using False assms(1) by (simp_all add: pw_53)
  then have "fexp ?x \<le> e" using fexp_le assms(3) by blast
  then have "?x = of_int (m * 2 ^ nat (e - fexp ?x)) * pw (fexp ?x)"
    using pw_int_multiple [of "fexp ?x" e] by simp
  then show ?thesis by (metis rnd_near abs_zero diff_self half_gt_zero_iff pw_pos)
qed

lemma rnd_of_int: "0 \<le> i \<Longrightarrow> i < 2 ^ 53 \<Longrightarrow> rnd (of_int i) = of_int i"
  using rnd_exact [of i 0] by simp

lemma rnd_mono:
  assumes "0 \<le> x" "x \<le> y"
  shows "rnd x \<le> rnd y"
proof -
  consider "x = 0" | "0 < x" "fexp x = fexp y" | "0 < x" "fexp x < fexp y"
    using assms fexp_mono [of x y] by linarith
  then show ?thesis
  proof cases
    case 1
    then show ?thesis using rnd_nonneg [of y] assms by simp
  next
    case 2
    have "rne (x / pw (fexp y)) \<le> rne (y / pw (fexp y))"
      by (rule rne_mono) (use assms in \<open>simp add: divide_right_mono\<close>)
    then show ?thesis by (simp add: rnd_def 2(2))
  next
    case 3
    let ?t = "fexp y + 52"
    have y: "0 < y" using 3 assms by simp
    have e: "- 1074 < fexp y" using 3 fexp_ge [of x] by simp
    have "x \<le> pw ?t"
    proof -
      have "pw (fexp x + 53) \<le> pw ?t" using 3 by (intro pw_mono) simp
      then show ?thesis using fexp_bounds(1) [OF 3(1)] by linarith
    qed
    moreover have "pw ?t = of_int (2 ^ nat (?t - fexp x)) * pw (fexp x)"
      by (rule pw_int_multiple) (use 3 in simp)
    ultimately have "rnd x \<le> pw ?t" using rnd_le_multiple by metis
    also have "pw ?t = 2 ^ 52 * pw (fexp y)" by (rule pw_52)
    also have "\<dots> \<le> rnd y"
    proof -
      have "(2 ^ 52 :: real) \<le> of_int (rne (y / pw (fexp y)))"
        using rne_mantissa(3) [OF y e] by (metis of_int_le_iff of_int_numeral of_int_power)
      then show ?thesis unfolding rnd_def by simp
    qed
    finally show ?thesis .
  qed
qed

section \<open>The operations in the real numbers\<close>

lemma sgn_of_simps [simp]: "sgn_of False = 1" "sgn_of True = - 1"
  by (simp_all add: sgn_of_def)

lemma sgn_of_neq: "sgn_of (s = (\<not> t)) = sgn_of s * sgn_of t"
  by (cases s; cases t) simp_all

lemma sgn_abs_prod: "real_of_int i * x = of_int (sgn_of (i < 0)) * (of_int \<bar>i\<bar> * x)"
  by (simp add: sgn_of_def)

lemma rnds_0 [simp]: "rnds 0 = 0"
  by (simp add: rnds_def)

lemma rnds_nonneg: "0 \<le> x \<Longrightarrow> rnds x = rnd x"
  by (simp add: rnds_def)

lemma rnds_sgn: "0 \<le> x \<Longrightarrow> rnds (of_int (sgn_of s) * x) = of_int (sgn_of s) * rnd x"
  by (cases s; cases "x = 0") (auto simp: rnds_def)

lemma rnds_minus: "rnds (- x) = - rnds x"
  by (cases "x = 0") (auto simp: rnds_def)

lemma rnds_mono: "x \<le> y \<Longrightarrow> rnds x \<le> rnds y"
proof -
  assume a: "x \<le> y"
  show ?thesis
  proof (cases "x < 0")
    case True
    then show ?thesis
      using a rnd_mono [of "- y" "- x"] rnd_nonneg [of "- x"] rnd_nonneg [of y]
      by (auto simp: rnds_def)
  next
    case False
    then show ?thesis using a rnd_mono by (simp add: rnds_def)
  qed
qed

text \<open>\<open>f64_is a x\<close>: the number is finite, in the format, and denotes \<open>x\<close>.\<close>

definition f64_is :: "f64 \<Rightarrow> real \<Rightarrow> bool" where
  "f64_is a x \<longleftrightarrow> is_fin a \<and> f64_wf a \<and> f64_val a = x"

lemma f64_isE:
  assumes "f64_is a x"
  obtains s m e where "a = F_Fin s m e" "0 \<le> m" "m < 2 ^ 53" "- 1074 \<le> e" "e \<le> 971"
    "x = of_int (sgn_of s) * (of_int m * pw e)"
  using assms by (cases a) (auto simp: f64_is_def)

lemma f64_is_val: "f64_is a x \<Longrightarrow> f64_val a = x"
  by (simp add: f64_is_def)

lemma f64_round_is:
  assumes "0 \<le> p" "0 < q" "rnd (of_int p / of_int q) < pw 1024"
  shows "f64_is (f64_round s p q) (rnds (of_int (sgn_of s) * (of_int p / of_int q)))"
  using f64_round_val [OF assms, of s] rnds_sgn [of "of_int p / of_int q" s] assms(1,2)
  by (simp add: f64_is_def)

lemma pow_split: "(2 ^ nat e :: real) / 2 ^ nat (- e) = pw e"
proof (cases "0 \<le> e")
  case True
  then show ?thesis by (simp add: pw_nat)
next
  case False
  then have "pw (- e) = 2 ^ nat (- e)" by (simp add: pw_nat)
  with False show ?thesis using pw_uminus [of e] by (simp add: field_simps)
qed

lemma f64_scaled_is:
  assumes "0 \<le> m" "rnd (of_int m * pw e) < pw 1024"
  shows "f64_is (f64_scaled s m e) (rnds (of_int (sgn_of s) * (of_int m * pw e)))"
proof -
  have "real_of_int (m * 2 ^ nat e) / of_int (2 ^ nat (- e)) = of_int m * pw e"
    by (simp add: times_divide_eq_right [symmetric] pow_split del: times_divide_eq_right)
  then show ?thesis
    using f64_round_is [of "m * 2 ^ nat e" "2 ^ nat (- e)" s] assms by (simp add: f64_scaled_def)
qed

text \<open>A bound of the exact result is one of the rounded result.\<close>

lemma rnd_small: "0 \<le> x \<Longrightarrow> x \<le> pw 1000 \<Longrightarrow> rnd x < pw 1024"
proof -
  assume "0 \<le> x" "x \<le> pw 1000"
  then have "rnd x \<le> rnd (of_int 1 * pw 1000)" by (intro rnd_mono) simp_all
  also have "\<dots> = pw 1000" using rnd_exact [of 1 1000] by simp
  also have "\<dots> < pw 1024" by simp
  finally show ?thesis .
qed

lemma f64_of_int_is:
  assumes "\<bar>i\<bar> < 2 ^ 64"
  shows "f64_is (f64_of_int i) (rnds (of_int i))"
proof -
  have "of_int \<bar>i\<bar> \<le> (2 ^ 64 :: real)" using assms
    by (metis less_imp_le of_int_le_iff of_int_numeral of_int_power)
  then have "rnd (of_int \<bar>i\<bar>) < pw 1024"
    by (intro rnd_small) (auto elim: order_trans simp: pw_nat)
  then have "f64_is (f64_round (i < 0) \<bar>i\<bar> 1) (rnds (of_int (sgn_of (i < 0)) * of_int \<bar>i\<bar>))"
    using f64_round_is [of "\<bar>i\<bar>" 1 "i < 0"] by simp
  moreover have "real_of_int (sgn_of (i < 0)) * of_int \<bar>i\<bar> = of_int i" by (simp add: sgn_of_def)
  ultimately show ?thesis by (simp only: f64_of_int_def)
qed

lemma int_less_pow2: "n < 2 ^ k \<Longrightarrow> int n < 2 ^ k"
  by (metis of_nat_less_iff of_nat_numeral of_nat_power)

lemma f64_of_u64_is: "f64_is (f64_of_u64 x) (rnd (of_nat (unat x)))"
proof -
  have u: "uint x = int (unat x)" by simp
  have "\<bar>int (unat x)\<bar> < 2 ^ 64" using int_less_pow2 [OF unat_lt64 [of x]] by simp
  from f64_of_int_is [OF this] show ?thesis
    unfolding f64_of_u64_def u of_int_of_nat_eq by (simp only: rnds_nonneg of_nat_0_le_iff)
qed

lemma f64_of_u64_exact:
  assumes "unat x < 2 ^ 53"
  shows "f64_is (f64_of_u64 x) (of_nat (unat x))"
proof -
  have "int (unat x) < 2 ^ 53" by (rule int_less_pow2 [OF assms])
  from rnd_of_int [OF of_nat_0_le_iff this] show ?thesis
    using f64_of_u64_is [of x] unfolding of_int_of_nat_eq by (simp only:)
qed

lemma f64_of_i64_is: "f64_is (f64_of_i64 x) (rnds (of_int (sint x)))"
proof -
  have "- (2 ^ 63) \<le> sint x" "sint x < 2 ^ 63"
    using sint_greater_eq [of x] sint_less [of x] by simp_all
  then show ?thesis using f64_of_int_is [of "sint x"] by (simp add: f64_of_i64_def)
qed

lemma f64_lit_is:
  assumes "0 < q" "of_int \<bar>p\<bar> / of_int q \<le> (pw 1000 :: real)"
  shows "f64_is (f64_lit p q) (rnds (of_int p / of_int q))"
proof -
  have "f64_is (f64_round (p < 0) \<bar>p\<bar> q) (rnds (of_int (sgn_of (p < 0)) * (of_int \<bar>p\<bar> / of_int q)))"
    by (rule f64_round_is) (use assms in \<open>auto intro!: rnd_small\<close>)
  moreover have "real_of_int (sgn_of (p < 0)) * (of_int \<bar>p\<bar> / of_int q) = of_int p / of_int q"
    by (simp add: sgn_of_def)
  ultimately show ?thesis by (simp only: f64_lit_def)
qed

lemma f64_mul_is:
  assumes "f64_is a x" "f64_is b y" "\<bar>x * y\<bar> \<le> pw 1000"
  shows "f64_is (f64_mul a b) (rnds (x * y))"
proof -
  obtain s1 m1 e1 where a: "a = F_Fin s1 m1 e1" "0 \<le> m1" "x = of_int (sgn_of s1) * (of_int m1 * pw e1)"
    using assms(1) by (rule f64_isE)
  obtain s2 m2 e2 where b: "b = F_Fin s2 m2 e2" "0 \<le> m2" "y = of_int (sgn_of s2) * (of_int m2 * pw e2)"
    using assms(2) by (rule f64_isE)
  have xy: "x * y = of_int (sgn_of (s1 \<noteq> s2)) * (of_int (m1 * m2) * pw (e1 + e2))"
    by (simp add: a(3) b(3) sgn_of_neq pw_add)
  have "\<bar>x * y\<bar> = of_int (m1 * m2) * pw (e1 + e2)"
    unfolding xy using a(2) b(2) by (simp add: sgn_of_def abs_mult)
  then have "rnd (of_int (m1 * m2) * pw (e1 + e2)) < pw 1024"
    using assms(3) rnd_small [of "\<bar>x * y\<bar>"] by simp
  then show ?thesis
    using f64_scaled_is [of "m1 * m2" "e1 + e2" "s1 \<noteq> s2"] a(2) b(2)
    by (simp only: xy a(1) b(1) f64_mul.simps) simp
qed

lemma shift_val: "e \<le> e' \<Longrightarrow> real_of_int (i * 2 ^ nat (e' - e)) * pw e = of_int i * pw e'"
  using pw_int_multiple [of e e'] by simp

lemma f64_add_is:
  assumes "f64_is a x" "f64_is b y" "\<bar>x + y\<bar> \<le> pw 1000"
  shows "f64_is (f64_add a b) (rnds (x + y))"
proof -
  obtain s1 m1 e1 where a: "a = F_Fin s1 m1 e1" "x = of_int (sgn_of s1) * (of_int m1 * pw e1)"
    using assms(1) by (rule f64_isE)
  obtain s2 m2 e2 where b: "b = F_Fin s2 m2 e2" "y = of_int (sgn_of s2) * (of_int m2 * pw e2)"
    using assms(2) by (rule f64_isE)
  define e where "e = min e1 e2"
  define i where "i = sgn_of s1 * m1 * 2 ^ nat (e1 - e) + sgn_of s2 * m2 * 2 ^ nat (e2 - e)"
  have "x + y = real_of_int (sgn_of s1 * m1 * 2 ^ nat (e1 - e)) * pw e +
      real_of_int (sgn_of s2 * m2 * 2 ^ nat (e2 - e)) * pw e"
    unfolding e_def
    by (simp only: shift_val min.cobounded1 min.cobounded2) (simp add: a(2) b(2))
  then have xy: "x + y = of_int i * pw e" by (simp only: i_def distrib_right of_int_add)
  have sum: "f64_add a b =
      (if i = 0 then F_Fin (s1 \<and> s2) 0 (- 1074) else f64_scaled (i < 0) \<bar>i\<bar> e)"
    unfolding a(1) b(1) f64_add.simps Let_def e_def i_def by (rule refl)
  show ?thesis
  proof (cases "i = 0")
    case True
    then show ?thesis by (simp add: sum xy f64_is_def)
  next
    case False
    have "\<bar>x + y\<bar> = of_int \<bar>i\<bar> * pw e" unfolding xy by (simp add: abs_mult)
    then have "rnd (of_int \<bar>i\<bar> * pw e) < pw 1024" using assms(3) rnd_small [of "\<bar>x + y\<bar>"] by simp
    then have "f64_is (f64_scaled (i < 0) \<bar>i\<bar> e) (rnds (x + y))"
      unfolding xy sgn_abs_prod [of i] by (intro f64_scaled_is) simp_all
    then show ?thesis using False by (simp add: sum)
  qed
qed

lemma f64_neg_is: "f64_is a x \<Longrightarrow> f64_is (f64_neg a) (- x)"
  by (cases a) (auto simp: f64_is_def sgn_of_def)

lemma f64_sub_is:
  "f64_is a x \<Longrightarrow> f64_is b y \<Longrightarrow> \<bar>x - y\<bar> \<le> pw 1000 \<Longrightarrow> f64_is (f64_sub a b) (rnds (x - y))"
  using f64_add_is [of a x "f64_neg b" "- y"] f64_neg_is [of b y] by (simp add: f64_sub_def)

lemma f64_abs_is: "f64_is a x \<Longrightarrow> f64_is (f64_abs a) \<bar>x\<bar>"
  by (cases a) (auto simp: f64_is_def sgn_of_def abs_mult)

lemma f64_div_is:
  assumes "f64_is a x" "f64_is b y" "y \<noteq> 0" "\<bar>x / y\<bar> \<le> pw 1000"
  shows "f64_is (f64_div a b) (rnds (x / y))"
proof -
  obtain s1 m1 e1 where a: "a = F_Fin s1 m1 e1" "0 \<le> m1" "x = of_int (sgn_of s1) * (of_int m1 * pw e1)"
    using assms(1) by (rule f64_isE)
  obtain s2 m2 e2 where b: "b = F_Fin s2 m2 e2" "0 \<le> m2" "y = of_int (sgn_of s2) * (of_int m2 * pw e2)"
    using assms(2) by (rule f64_isE)
  let ?p = "m1 * 2 ^ nat (e1 - e2)" and ?q = "m2 * 2 ^ nat (e2 - e1)"
  have m2: "0 < m2" using assms(3) b by (cases "m2 = 0") auto
  have "(2 ^ nat (e1 - e2) :: real) / 2 ^ nat (e2 - e1) = pw e1 / pw e2"
    using pow_split [of "e1 - e2"] by (simp add: pw_diff)
  then have "real_of_int ?p / of_int ?q = of_int m1 * pw e1 / (of_int m2 * pw e2)"
    by (simp only: of_int_mult of_int_power of_int_numeral times_divide_times_eq [symmetric])
  moreover have "x / y = of_int (sgn_of (s1 \<noteq> s2)) * (of_int m1 * pw e1 / (of_int m2 * pw e2))"
    by (cases s1; cases s2) (simp_all add: a(3) b(3))
  ultimately have xy: "x / y = of_int (sgn_of (s1 \<noteq> s2)) * (of_int ?p / of_int ?q)" by simp
  have "\<bar>x / y\<bar> = of_int ?p / of_int ?q"
    unfolding xy using a(2) m2 by (simp add: sgn_of_def abs_mult)
  then have "rnd (of_int ?p / of_int ?q) < pw 1024"
    using assms(4) rnd_small [of "\<bar>x / y\<bar>"] by (simp only: abs_ge_zero)
  then have "f64_is (f64_round (s1 \<noteq> s2) ?p ?q) (rnds (x / y))"
    unfolding xy by (intro f64_round_is) (use a(2) m2 in auto)
  then show ?thesis using m2 by (simp add: a(1) b(1))
qed

lemma f64_lt_val:
  assumes "f64_is a x" "f64_is b y"
  shows "f64_lt a b \<longleftrightarrow> x < y"
proof -
  obtain s1 m1 e1 where a: "a = F_Fin s1 m1 e1" "x = of_int (sgn_of s1) * (of_int m1 * pw e1)"
    using assms(1) by (rule f64_isE)
  obtain s2 m2 e2 where b: "b = F_Fin s2 m2 e2" "y = of_int (sgn_of s2) * (of_int m2 * pw e2)"
    using assms(2) by (rule f64_isE)
  let ?e = "min e1 e2"
  have "x = real_of_int (sgn_of s1 * m1 * 2 ^ nat (e1 - ?e)) * pw ?e"
    "y = real_of_int (sgn_of s2 * m2 * 2 ^ nat (e2 - ?e)) * pw ?e"
    by (simp_all only: shift_val min.cobounded1 min.cobounded2) (simp_all add: a(2) b(2))
  then have "x < y \<longleftrightarrow> sgn_of s1 * m1 * 2 ^ nat (e1 - ?e) < sgn_of s2 * m2 * 2 ^ nat (e2 - ?e)"
    by (simp only: mult_less_cancel_right_pos pw_pos of_int_less_iff)
  then show ?thesis by (simp only: a(1) b(1) f64_lt.simps Let_def)
qed

lemma f64_le_val:
  assumes "f64_is a x" "f64_is b y"
  shows "f64_le a b \<longleftrightarrow> x \<le> y"
proof -
  have "f64_le a b \<longleftrightarrow> \<not> f64_lt b a"
    using assms by (cases a; cases b) (auto simp: f64_is_def)
  then show ?thesis using f64_lt_val [OF assms(2,1)] by auto
qed

section \<open>Rounding up and back to integers\<close>

lemma f64_trunc_of_int:
  assumes "f64_is a (of_int k)"
  shows "f64_trunc a = k"
proof -
  obtain s m e where a: "a = F_Fin s m e" "0 \<le> m" "of_int k = of_int (sgn_of s) * (of_int m * pw e)"
    using assms by (rule f64_isE)
  have "real_of_int m * 2 ^ nat e = of_int (sgn_of s) * of_int k * 2 ^ nat (- e)"
    using a(3) pow_split [of e] by (cases s) (simp_all add: field_simps)
  then have "m * 2 ^ nat e = sgn_of s * k * 2 ^ nat (- e)"
    by (metis (mono_tags, lifting) of_int_eq_iff of_int_mult of_int_numeral of_int_power)
  then have "m * 2 ^ nat e div 2 ^ nat (- e) = sgn_of s * k" by simp
  then show ?thesis by (cases s) (simp_all add: a(1))
qed

lemma f64_to_u64_of_int:
  assumes "f64_is a (of_int k)" "0 \<le> k" "k < 2 ^ 64"
  shows "f64_to_u64 a = of_int k"
proof -
  have "f64_trunc a = k" by (rule f64_trunc_of_int [OF assms(1)])
  then show ?thesis using assms by (cases a) (auto simp: f64_is_def)
qed

lemma ceiling_div_pow: "\<lceil>of_int i / (2 ^ n :: real)\<rceil> = - ((- i) div 2 ^ n)"
proof -
  have "\<lfloor>real_of_int (- i) / of_int (2 ^ n)\<rfloor> = (- i) div 2 ^ n" by (rule floor_divide_of_int_eq)
  then show ?thesis by (simp add: ceiling_def)
qed

lemma f64_ceil_is:
  assumes "f64_is a x" "0 \<le> x" "x \<le> 2 ^ 52"
  shows "f64_is (f64_ceil a) (of_int \<lceil>x\<rceil>)"
proof -
  obtain s m e where a: "a = F_Fin s m e" "x = of_int (sgn_of s) * (of_int m * pw e)"
    using assms(1) by (rule f64_isE)
  show ?thesis
  proof (cases "0 \<le> e")
    case True
    then have "x = of_int (sgn_of s * (m * 2 ^ nat e))" by (simp add: a(2) pw_nat)
    then have "of_int \<lceil>x\<rceil> = x" by (metis ceiling_of_int)
    moreover have "f64_ceil a = a" using True by (simp add: a(1))
    ultimately show ?thesis using assms(1) by (simp only:)
  next
    case False
    define i where "i = - ((- (sgn_of s * m)) div 2 ^ nat (- e))"
    have "x = of_int (sgn_of s * m) / 2 ^ nat (- e)"
      using False pow_split [of e] by (simp add: a(2)) (simp add: field_simps)
    then have i: "\<lceil>x\<rceil> = i" by (simp only: i_def ceiling_div_pow)
    have b: "0 \<le> i" "i \<le> 2 ^ 52" using assms(2,3) i by (simp_all add: ceiling_le_iff flip: i)
    have c: "f64_ceil a = (if i = 0 then F_Fin s 0 (- 1074) else f64_of_int i)"
      using False by (simp add: a(1) i_def Let_def f64_of_int_def)
    show ?thesis
    proof (cases "i = 0")
      case True
      then show ?thesis by (simp add: c i f64_is_def)
    next
      case False
      have "f64_is (f64_of_int i) (rnds (of_int i))" using b by (intro f64_of_int_is) simp
      moreover have "rnds (of_int i) = of_int i"
        using b by (simp add: rnds_nonneg rnd_of_int)
      ultimately show ?thesis using False by (simp add: c i)
    qed
  qed
qed

lemma f64_ceil_to_u64:
  assumes "f64_is a x" "0 \<le> x" "x \<le> 2 ^ 52"
  shows "f64_to_u64 (f64_ceil a) = of_int \<lceil>x\<rceil>"
proof (rule f64_to_u64_of_int [OF f64_ceil_is [OF assms]])
  show "0 \<le> \<lceil>x\<rceil>" using assms(2) by simp
  have "\<lceil>x\<rceil> \<le> 2 ^ 52" using assms(3) by (simp add: ceiling_le_iff)
  then show "\<lceil>x\<rceil> < 2 ^ 64" by simp
qed

text \<open>
  An integer product that is only slightly off after rounding one factor: the factor
  \<open>q\<close> approximates \<open>a / b\<close> to a quarter of the last place, so rounding the product and
  then rounding it up gives the exact \<open>n * a / b\<close> rounded up.
\<close>

lemma rnd_near_int:
  assumes "0 < t" "t \<le> 2 ^ 42" "\<bar>x - of_int t\<bar> \<le> of_int t * pw (- 55)"
  shows "rnd x = of_int t"
proof -
  have pos: "0 < (of_int t :: real)" using assms(1) by simp
  have p55: "pw (- 55) = 1 / 2 ^ 55" by (simp add: pw_uminus pw_nat)
  have t42: "(of_int t :: real) \<le> 2 ^ 42" using assms(2) by (metis of_int_le_iff of_int_numeral of_int_power)
  have lo: "of_int t - of_int t / 2 ^ 55 \<le> x" and hi: "x \<le> of_int t + of_int t / 2 ^ 55"
    using assms(3) unfolding p55 abs_le_iff
    by (simp_all only: times_divide_eq_right mult_1_right) linarith+
  have x0: "0 < x" using lo pos by simp
  have "x < pw (0 + 53)" using hi t42 by (simp add: pw_nat)
  then have fe: "fexp x \<le> 0" using fexp_le [OF x0, of 0] by simp
  have "x < 2 ^ 53 * pw (fexp x)" using fexp_bounds(1) [OF x0] by (simp add: pw_53)
  with lo pos have half: "of_int t / 2 ^ 55 < pw (fexp x) / 2" by simp
  have m: "real_of_int t = of_int (t * 2 ^ nat (0 - fexp x)) * pw (fexp x)"
    using pw_int_multiple [OF fe] by simp
  have "rnd x = of_int (t * 2 ^ nat (0 - fexp x)) * pw (fexp x)"
    by (rule rnd_near) (use assms(3) half in \<open>simp only: m [symmetric] p55; simp\<close>)
  then show ?thesis by (simp only: m)
qed

lemma ceiling_frac_stable:
  fixes n a b :: int and y :: real
  assumes "0 < b" "b \<le> 1000" "\<not> b dvd n * a" "\<bar>y - of_int (n * a) / of_int b\<bar> < 1 / 1000"
  shows "\<lceil>y\<rceil> = \<lceil>of_int (n * a) / of_int b :: real\<rceil>"
proof -
  let ?d = "n * a div b" and ?r = "n * a mod b"
  have r: "0 < ?r" "?r < b"
    using assms(1,3) by (simp_all add: dvd_eq_mod_eq_0 order_le_neq_trans)
  have s: "real_of_int (n * a) / of_int b = of_int ?d + of_int ?r / of_int b"
    using assms(1) by (simp add: real_of_int_div4 field_simps flip: of_int_mult of_int_add)
  have "1 \<le> real_of_int ?r" "real_of_int ?r \<le> of_int b - 1"
    using r by linarith+
  then have "1 / of_int b \<le> of_int ?r / real_of_int b" "of_int ?r / real_of_int b \<le> 1 - 1 / of_int b"
    using assms(1) by (simp_all add: field_simps)
  moreover have "1 / 1000 \<le> 1 / real_of_int b" using assms(1,2) by (intro divide_left_mono) simp_all
  ultimately have "1 / 1000 \<le> of_int ?r / real_of_int b" "of_int ?r / real_of_int b \<le> 1 - 1 / 1000"
    by linarith+
  moreover have "y - (of_int ?d + of_int ?r / of_int b) < 1 / 1000"
    "of_int ?d + of_int ?r / of_int b - y < 1 / 1000"
    using assms(4) unfolding s by linarith+
  ultimately have "of_int ?d < y \<and> y \<le> of_int ?d + 1"
    "of_int ?d < real_of_int (n * a) / of_int b \<and> real_of_int (n * a) / of_int b \<le> of_int ?d + 1"
    unfolding s by linarith+
  then have "\<lceil>y\<rceil> = ?d + 1" "\<lceil>real_of_int (n * a) / of_int b\<rceil> = ?d + 1"
    by (simp_all add: ceiling_eq_iff)
  then show ?thesis by simp
qed

section \<open>Exact results\<close>

lemma rnds_of_f64: "f64_is a x \<Longrightarrow> rnds x = x"
  by (erule f64_isE) (simp add: rnds_sgn rnd_exact)

lemma rnd_pw: "- 1074 \<le> e \<Longrightarrow> rnd (pw e) = pw e"
  using rnd_exact [of 1 e] by simp

lemma rnd_range:
  assumes "pw a \<le> x" "x \<le> pw b" "- 1074 \<le> a" "- 1074 \<le> b"
  shows "pw a \<le> rnd x" and "rnd x \<le> pw b"
proof -
  have "0 \<le> x" using assms(1) pw_ge_0 [of a] by linarith
  then show "pw a \<le> rnd x" "rnd x \<le> pw b"
    using rnd_mono [of "pw a" x] rnd_mono [of x "pw b"] assms by (simp_all add: rnd_pw)
qed

lemma f64_lit_small_is:
  assumes "\<bar>p\<bar> < 2 ^ 53"
  shows "f64_is (f64_lit p 1) (of_int p)"
proof -
  have "\<bar>real_of_int p\<bar> \<le> 2 ^ 53"
    using assms by (metis less_imp_le of_int_abs of_int_le_iff of_int_numeral of_int_power)
  also have "\<dots> \<le> pw 1000" using pw_mono [of 53 1000] by (simp add: pw_nat [of 53])
  finally have "f64_is (f64_lit p 1) (rnds (of_int p))" using f64_lit_is [of 1 p] by simp
  moreover have "rnds (of_int p) = of_int p"
    using rnd_of_int [of p] rnd_of_int [of "- p"] assms by (auto simp: rnds_def)
  ultimately show ?thesis by simp
qed

lemma f64_add_zero_is: "f64_is a x \<Longrightarrow> f64_is b 0 \<Longrightarrow> \<bar>x\<bar> \<le> pw 1000 \<Longrightarrow> f64_is (f64_add a b) x"
  using f64_add_is [of a x b 0] rnds_of_f64 [of a x] by simp

lemma f64_mul_one_is: "f64_is a 1 \<Longrightarrow> f64_is b y \<Longrightarrow> \<bar>y\<bar> \<le> pw 1000 \<Longrightarrow> f64_is (f64_mul a b) y"
  using f64_mul_is [of a 1 b y] rnds_of_f64 [of b y] by simp

lemma f64_mul_zero_is: "f64_is a 0 \<Longrightarrow> f64_is b y \<Longrightarrow> f64_is (f64_mul a b) 0"
  using f64_mul_is [of a 0 b y] by simp

lemma f64_sub_self_is: "f64_is a x \<Longrightarrow> f64_is b x \<Longrightarrow> f64_is (f64_sub a b) 0"
  using f64_sub_is [of a x b x] by simp

lemma f64_zero_div_zero: "f64_is a 0 \<Longrightarrow> f64_is b 0 \<Longrightarrow> f64_div a b = F_NaN"
  by (erule f64_isE, erule f64_isE) (simp add: sgn_of_def split: if_splits)

section \<open>Absolute errors and truncation\<close>

lemma fexp_pw:
  assumes "0 < x" "x \<le> pw k" "- 1022 \<le> k"
  shows "fexp x \<le> k - 52"
proof -
  have "fexp x \<le> fexp (pw k)" by (rule fexp_mono [OF assms(1,2)])
  also have "\<dots> \<le> k - 52" by (rule fexp_le) (use assms(3) in simp_all)
  finally show ?thesis .
qed

lemma rnds_err:
  assumes "\<bar>x\<bar> \<le> pw k" "- 1022 \<le> k"
  shows "\<bar>rnds x - x\<bar> \<le> pw (k - 53)"
proof (cases "x = 0")
  case True
  then show ?thesis by simp
next
  case False
  then have "fexp \<bar>x\<bar> \<le> k - 52" by (intro fexp_pw) (use assms in simp_all)
  then have "pw (fexp \<bar>x\<bar>) \<le> pw (k - 52)" by simp
  also have "\<dots> = 2 * pw (k - 53)" using pw_add [of 1 "k - 53"] by (simp add: pw_nat)
  finally have "pw (fexp \<bar>x\<bar>) / 2 \<le> pw (k - 53)" by simp
  moreover have "\<bar>rnds x - x\<bar> = \<bar>rnd \<bar>x\<bar> - \<bar>x\<bar>\<bar>" by (auto simp: rnds_def abs_if)
  ultimately show ?thesis using rnd_error [of "\<bar>x\<bar>"] by linarith
qed

lemma f64_trunc_floor:
  assumes "f64_is a x" "0 \<le> x"
  shows "f64_trunc a = \<lfloor>x\<rfloor>"
proof -
  obtain s m e where a: "a = F_Fin s m e" "0 \<le> m" "x = of_int (sgn_of s) * (of_int m * pw e)"
    using assms(1) by (rule f64_isE)
  have fl: "\<lfloor>of_int m * pw e\<rfloor> = m * 2 ^ nat e div 2 ^ nat (- e)"
  proof -
    have "real_of_int (m * 2 ^ nat e) / of_int (2 ^ nat (- e)) = of_int m * pw e"
      by (simp add: times_divide_eq_right [symmetric] pow_split del: times_divide_eq_right)
    then show ?thesis by (metis floor_divide_of_int_eq)
  qed
  show ?thesis
  proof (cases s)
    case False
    then show ?thesis using fl by (simp add: a(1,3))
  next
    case True
    have "0 \<le> of_int m * pw e" using a(2) by simp
    then have "of_int m * pw e = 0" using assms(2) True unfolding a(3) by simp
    then have "m = 0" by simp
    then show ?thesis by (simp add: a(1,3))
  qed
qed

lemma f64_to_i64_floor:
  assumes "f64_is a x" "0 \<le> x" "x \<le> 2 ^ 62"
  shows "sint (f64_to_i64 a) = \<lfloor>x\<rfloor>"
proof -
  have t: "f64_trunc a = \<lfloor>x\<rfloor>" by (rule f64_trunc_floor [OF assms(1,2)])
  have "0 \<le> \<lfloor>x\<rfloor>" "\<lfloor>x\<rfloor> \<le> 2 ^ 62" using assms(2,3) by (simp_all add: floor_le_iff le_floor_iff)
  then have b: "min (2 ^ 63 - 1) (max (- (2 ^ 63)) \<lfloor>x\<rfloor>) = \<lfloor>x\<rfloor>" "\<lfloor>x\<rfloor> < 2 ^ 63" "- (2 ^ 63) \<le> \<lfloor>x\<rfloor>" by simp_all
  have "f64_to_i64 a = of_int \<lfloor>x\<rfloor>"
    using assms(1) t b(1) by (cases a) (auto simp: f64_is_def)
  then show ?thesis using b(2,3) by (simp add: signed_take_bit_int_eq_self sint_sbintrunc')
qed

section \<open>Operations with an error bound\<close>

text \<open>The result of an operation is within \<open>2\<^bsup>k-53\<^esup>\<close> of the exact one, if that is at most \<open>2\<^sup>k\<close>.\<close>

lemma rnds_approx:
  assumes "\<bar>z\<bar> \<le> pw k \<Longrightarrow> f64_is a (rnds z)" "\<bar>z\<bar> \<le> pw k" "- 1022 \<le> k"
  obtains w where "f64_is a w" "\<bar>w - z\<bar> \<le> pw (k - 53)"
  using that [of "rnds z"] assms(1) [OF assms(2)] rnds_err [OF assms(2,3)] by blast

lemma f64_add_approx:
  assumes "f64_is a x" "f64_is b y" "\<bar>x + y\<bar> \<le> pw k" "- 1022 \<le> k" "k \<le> 1000"
  obtains w where "f64_is (f64_add a b) w" "\<bar>w - (x + y)\<bar> \<le> pw (k - 53)"
  by (rule rnds_approx [OF f64_add_is [OF assms(1,2)] assms(3,4)])
    (use assms(3,5) pw_trans in auto)

lemma f64_sub_approx:
  assumes "f64_is a x" "f64_is b y" "\<bar>x - y\<bar> \<le> pw k" "- 1022 \<le> k" "k \<le> 1000"
  obtains w where "f64_is (f64_sub a b) w" "\<bar>w - (x - y)\<bar> \<le> pw (k - 53)"
  by (rule rnds_approx [OF f64_sub_is [OF assms(1,2)] assms(3,4)])
    (use assms(3,5) pw_trans in auto)

lemma f64_mul_approx:
  assumes "f64_is a x" "f64_is b y" "\<bar>x * y\<bar> \<le> pw k" "- 1022 \<le> k" "k \<le> 1000"
  obtains w where "f64_is (f64_mul a b) w" "\<bar>w - x * y\<bar> \<le> pw (k - 53)"
  by (rule rnds_approx [OF f64_mul_is [OF assms(1,2)] assms(3,4)])
    (use assms(3,5) pw_trans in auto)

lemma f64_lit_approx:
  assumes "0 < q" "\<bar>of_int p / of_int q\<bar> \<le> pw k" "- 1022 \<le> k" "k \<le> 1000"
  obtains w where "f64_is (f64_lit p q) w" "\<bar>w - of_int p / of_int q\<bar> \<le> pw (k - 53)"
proof (rule rnds_approx [OF f64_lit_is [OF assms(1)] assms(2,3)])
  assume "\<bar>of_int p / of_int q\<bar> \<le> pw k"
  then have "\<bar>of_int p / of_int q\<bar> \<le> pw 1000" using assms(4) pw_trans by blast
  then show "real_of_int \<bar>p\<bar> / of_int q \<le> pw 1000" using assms(1) by (simp add: abs_divide)
qed

lemma f64_max_is:
  assumes "f64_is a x" "f64_is b y"
  shows "f64_is (f64_max a b) (max x y)"
proof -
  have "a \<noteq> F_NaN" "b \<noteq> F_NaN" using assms by (auto simp: f64_is_def)
  then show ?thesis using assms f64_lt_val [OF assms] by (auto simp: f64_max_def max_def)
qed

end
