(* ===== verification/Strategy.thy ===== *)
theory Strategy
  imports Message Float64_Real
begin

text \<open>
  The trading strategy of \<open>trading-engine/src/main.rs\<close>: \<open>strategy_step\<close> with its state per
  symbol, \<open>symbol_hash\<close>, \<open>ema_alpha\<close>, \<open>now_ns\<close> and \<open>idle_backoff\<close>. Prices and averages are
  binary64 numbers, computed operation by operation as in the code; \<open>ln\<close> and \<open>exp\<close> are the
  platform's and arguments of \<open>ema_alpha\<close>. The hash map is a map from symbols, the clock's
  reading an argument.
\<close>

section \<open>State and operations\<close>

record symbol_state =
  ss_ema_px :: f64
  ss_last_order_ns :: u64
  ss_initialised :: bool

definition symbol_state_default :: symbol_state where
  "symbol_state_default =
     \<lparr>ss_ema_px = F_Fin False 0 (- 1074), ss_last_order_ns = 0, ss_initialised = False\<rparr>"

type_synonym strategy_state = "u8 list \<Rightarrow> symbol_state option"

text \<open>\<open>duration_since(UNIX_EPOCH)\<close> as seconds and nanoseconds, nothing before the epoch.\<close>

definition now_ns :: "(u64 \<times> u32) option \<Rightarrow> u64" where
  "now_ns since_epoch =
     (case since_epoch of None \<Rightarrow> 0 | Some (secs, nanos) \<Rightarrow> secs * 1000000000 + ucast nanos)"

definition ema_alpha :: "(f64 \<Rightarrow> f64) \<Rightarrow> (f64 \<Rightarrow> f64) \<Rightarrow> f64 \<Rightarrow> f64" where
  "ema_alpha ln_f exp_f halflife_ticks =
     (if f64_le halflife_ticks (f64_lit 0 1) then f64_lit 1 1
      else f64_sub (f64_lit 1 1) (exp_f (f64_div (f64_neg (ln_f (f64_lit 2 1))) halflife_ticks)))"

definition mid_px :: "market_tick \<Rightarrow> f64" where
  "mid_px tick =
     f64_div (f64_mul (f64_add (f64_of_i64 (mt_bid_px tick)) (f64_of_i64 (mt_ask_px tick))) (f64_lit 1 2))
       (f64_lit 1000000 1)"

definition ema_update :: "f64 \<Rightarrow> f64 \<Rightarrow> f64 \<Rightarrow> f64" where
  "ema_update alpha mid ema =
     f64_add (f64_mul alpha mid) (f64_mul (f64_sub (f64_lit 1 1) alpha) ema)"

definition dev_bps :: "f64 \<Rightarrow> f64 \<Rightarrow> f64" where
  "dev_bps mid ema = f64_mul (f64_div (f64_sub mid ema) ema) (f64_lit 10000 1)"

record strategy_params =
  sp_alpha :: f64
  sp_threshold_bps :: f64
  sp_cooldown_ns :: u64
  sp_qty :: u32

definition strategy_step ::
  "strategy_params \<Rightarrow> u64 \<Rightarrow> market_tick \<Rightarrow> strategy_state \<Rightarrow> u64
   \<Rightarrow> (order_msg option \<times> f64) \<times> strategy_state \<times> u64" where
  "strategy_step ps now tick state next_order_id =
     (let mid = mid_px tick;
          entry = (case state (mt_symbol tick) of None \<Rightarrow> symbol_state_default | Some e \<Rightarrow> e)
      in if \<not> ss_initialised entry
         then ((None, f64_lit 0 1),
               state(mt_symbol tick \<mapsto> entry\<lparr>ss_ema_px := mid, ss_initialised := True\<rparr>), next_order_id)
         else
           let ema = ema_update (sp_alpha ps) mid (ss_ema_px entry);
               entry1 = entry\<lparr>ss_ema_px := ema\<rparr>;
               dev = dev_bps mid ema;
               state1 = state(mt_symbol tick \<mapsto> entry1)
           in if f64_lt (f64_abs dev) (sp_threshold_bps ps) then ((None, dev), state1, next_order_id)
              else if now - ss_last_order_ns entry1 < sp_cooldown_ns ps
              then ((None, dev), state1, next_order_id)
              else
                let sd = (if f64_lt (f64_lit 0 1) dev then Sell else Buy);
                    px = (if sd = Buy then mt_ask_px tick else mt_bid_px tick);
                    order_id = next_order_id + 1
                in ((Some \<lparr>om_order_id = order_id, om_submit_ts_ns = now,
                           om_symbol = mt_symbol tick, om_px = px, om_qty = sp_qty ps,
                           om_side = side_as_u8 sd, om_pad = [0, 0, 0]\<rparr>, dev),
                    state1(mt_symbol tick \<mapsto> entry1\<lparr>ss_last_order_ns := now\<rparr>), order_id))"

definition symbol_hash :: "u8 list \<Rightarrow> u64" where
  "symbol_hash s = fold (\<lambda>b h. (xor h (ucast b)) * 0x100000001b3) s 0xcbf29ce484222325"

datatype backoff = Spin | Yield | Sleep_50us

definition idle_backoff :: "u32 \<Rightarrow> backoff \<times> u32" where
  "idle_backoff spin =
     (let s = saturating_add spin 1
      in (if s < 64 then Spin else if s < 1024 then Yield else Sleep_50us, s))"

section \<open>Runs\<close>

text \<open>The strategy over a sequence of ticks, each with the clock's reading: its orders.\<close>

fun strategy_run ::
  "strategy_params \<Rightarrow> (u64 \<times> market_tick) list \<Rightarrow> strategy_state \<Rightarrow> u64
   \<Rightarrow> order_msg list \<times> strategy_state \<times> u64" where
  "strategy_run ps [] st i = ([], st, i)"
| "strategy_run ps ((now, t) # es) st i =
     (let ((ord, dev), st1, i1) = strategy_step ps now t st i;
          (os, st2, i2) = strategy_run ps es st1 i1
      in ((case ord of None \<Rightarrow> os | Some m \<Rightarrow> m # os), st2, i2))"

lemma strategy_run_append:
  "strategy_run ps (es @ es') st i =
    (let (os, st1, i1) = strategy_run ps es st i; (os', st2, i2) = strategy_run ps es' st1 i1
     in (os @ os', st2, i2))"
  by (induction es arbitrary: st i) (auto split: prod.splits option.splits)

definition entry_of :: "strategy_state \<Rightarrow> u8 list \<Rightarrow> symbol_state" where
  "entry_of st s = (case st s of None \<Rightarrow> symbol_state_default | Some e \<Rightarrow> e)"

text \<open>
  What a step does to the one entry it looks at: the order without its number, and the new
  entry. The step itself is this, stored, with the next number.
\<close>

definition entry_step ::
  "strategy_params \<Rightarrow> u64 \<Rightarrow> market_tick \<Rightarrow> symbol_state \<Rightarrow> order_msg option \<times> symbol_state" where
  "entry_step ps now t e =
     (let mid = mid_px t; ema = ema_update (sp_alpha ps) mid (ss_ema_px e); dev = dev_bps mid ema;
          sd = (if f64_lt (f64_lit 0 1) dev then Sell else Buy)
      in if \<not> ss_initialised e then (None, e\<lparr>ss_ema_px := mid, ss_initialised := True\<rparr>)
         else if f64_lt (f64_abs dev) (sp_threshold_bps ps) \<or>
                 now - ss_last_order_ns e < sp_cooldown_ns ps
         then (None, e\<lparr>ss_ema_px := ema\<rparr>)
         else (Some \<lparr>om_order_id = 0, om_submit_ts_ns = now, om_symbol = mt_symbol t,
                     om_px = (if sd = Buy then mt_ask_px t else mt_bid_px t), om_qty = sp_qty ps,
                     om_side = side_as_u8 sd, om_pad = [0, 0, 0]\<rparr>,
               e\<lparr>ss_ema_px := ema, ss_last_order_ns := now\<rparr>))"

lemma strategy_step_entry:
  assumes "entry_step ps now t (entry_of st (mt_symbol t)) = (ord, e)"
  shows "\<exists>dev. strategy_step ps now t st i =
    ((map_option (\<lambda>m. m\<lparr>om_order_id := i + 1\<rparr>) ord, dev), st(mt_symbol t \<mapsto> e),
     (if ord = None then i else i + 1))"
  using assms unfolding entry_step_def entry_of_def strategy_step_def Let_def
  by (cases "st (mt_symbol t)") (auto split: if_splits)

lemma strategy_run_Cons:
  assumes "entry_step ps now t (entry_of st (mt_symbol t)) = (ord, e)"
  shows "strategy_run ps ((now, t) # es) st i =
    (let (os, st2, i2) = strategy_run ps es (st(mt_symbol t \<mapsto> e)) (if ord = None then i else i + 1)
     in ((case ord of None \<Rightarrow> os | Some m \<Rightarrow> m\<lparr>om_order_id := i + 1\<rparr> # os), st2, i2))"
  using strategy_step_entry [OF assms, of i]
  by (elim exE) (cases ord; simp add: Let_def split: prod.splits)

lemma entry_of_upd [simp]: "entry_of (st(s \<mapsto> e)) s' = (if s' = s then e else entry_of st s')"
  by (simp add: entry_of_def)

lemma entry_step_order:
  "entry_step ps now t e = (Some m, e') \<Longrightarrow>
   om_symbol m = mt_symbol t \<and> om_submit_ts_ns m = now \<and> ss_last_order_ns e' = now \<and>
   \<not> now - ss_last_order_ns e < sp_cooldown_ns ps"
  by (auto simp: entry_step_def Let_def split: if_splits)

lemma entry_step_none:
  "entry_step ps now t e = (None, e') \<Longrightarrow> ss_last_order_ns e' = ss_last_order_ns e"
  by (auto simp: entry_step_def Let_def split: if_splits)

section \<open>Order numbers\<close>

lemma strategy_run_ids:
  "let (os, st', i') = strategy_run ps es st i
   in map om_order_id os = map (\<lambda>k. i + 1 + of_nat k) [0..<length os] \<and>
      i' = i + of_nat (length os) \<and> length os \<le> length es"
proof (induction es arbitrary: st i)
  case Nil
  then show ?case by simp
next
  case (Cons ev es)
  obtain now t where ev: "ev = (now, t)" by (cases ev)
  obtain ord e where s: "entry_step ps now t (entry_of st (mt_symbol t)) = (ord, e)"
    by (cases "entry_step ps now t (entry_of st (mt_symbol t))")
  show ?case
  proof (cases ord)
    case None
    then show ?thesis
      using Cons.IH [of "st(mt_symbol t \<mapsto> e)" i] unfolding ev strategy_run_Cons [OF s]
      by (auto simp: Let_def simp del: fun_upd_apply split: prod.splits)
  next
    case (Some m)
    have "map (\<lambda>k. i + 1 + of_nat k) [0..<Suc n] = (i + 1) # map (\<lambda>k. i + 1 + 1 + of_nat k) [0..<n]" for n
      by (subst upt_conv_Cons) (simp_all add: map_Suc_upt [symmetric] del: upt_Suc)
    then show ?thesis
      using Cons.IH [of "st(mt_symbol t \<mapsto> e)" "i + 1"] Some unfolding ev strategy_run_Cons [OF s]
      by (auto simp: Let_def simp del: upt_Suc fun_upd_apply split: prod.splits)
  qed
qed

text \<open>Order numbers: over any sequence of ticks the orders carry consecutive numbers from one
  after the counter's start, whatever symbols they are for, and the counter ends at the
  last. So workers, which start at their index times \<open>2\<^sup>3\<^sup>2\<close>, never give the same number to two
  orders as long as each emits fewer than \<open>2\<^sup>3\<^sup>2\<close>; and the engine without workers, which starts
  at 1, gives its first order the number 2.\<close>

theorem order_ids_consecutive:
  "let (os, st', i') = strategy_run ps es st i
   in map om_order_id os = map (\<lambda>k. i + 1 + of_nat k) [0..<length os] \<and>
      i' = i + of_nat (length os) \<and> length os \<le> length es"
  by (rule strategy_run_ids)

section \<open>The cooldown\<close>

definition cooled :: "strategy_params \<Rightarrow> u64 \<Rightarrow> u64 \<Rightarrow> bool" where
  "cooled ps before after \<longleftrightarrow> unat before + unat (sp_cooldown_ns ps) \<le> unat after"

lemma cooled_sub: "t0 \<le> now \<Longrightarrow> \<not> now - t0 < sp_cooldown_ns ps \<Longrightarrow> cooled ps t0 now"
  by (simp add: cooled_def word_less_nat_alt word_le_nat_alt unat_sub)

lemma strategy_run_cooled:
  assumes "sorted (map (unat \<circ> fst) es)"
    and "\<forall>s. \<forall>ev \<in> set es. ss_last_order_ns (entry_of st s) \<le> fst ev"
    and "strategy_run ps es st i = (os, st', i')"
  shows "(\<forall>m \<in> set os. cooled ps (ss_last_order_ns (entry_of st (om_symbol m))) (om_submit_ts_ns m)) \<and>
    sorted_wrt (\<lambda>m m'. om_symbol m = om_symbol m' \<longrightarrow> cooled ps (om_submit_ts_ns m) (om_submit_ts_ns m')) os"
  using assms
proof (induction es arbitrary: st i os)
  case Nil
  then show ?case by simp
next
  case (Cons ev es)
  obtain now t where ev: "ev = (now, t)" by (cases ev)
  let ?s = "mt_symbol t"
  obtain ord e where s: "entry_step ps now t (entry_of st ?s) = (ord, e)"
    by (cases "entry_step ps now t (entry_of st ?s)")
  let ?st = "st(?s \<mapsto> e)" and ?i = "if ord = None then i else i + 1"
  obtain os1 where run: "strategy_run ps es ?st ?i = (os1, st', i')"
    and os: "os = (case ord of None \<Rightarrow> os1 | Some m \<Rightarrow> m\<lparr>om_order_id := i + 1\<rparr> # os1)"
    using Cons.prems(3) unfolding ev strategy_run_Cons [OF s] by (auto simp: Let_def split: prod.splits)
  have now: "\<forall>ev \<in> set es. now \<le> fst ev"
    using Cons.prems(1) by (auto simp: ev word_le_nat_alt)
  have last: "ss_last_order_ns (entry_of st ?s) \<le> now" using Cons.prems(2) by (simp add: ev)
  show ?case
  proof (cases ord)
    case None
    have "\<forall>s. ss_last_order_ns (entry_of ?st s) = ss_last_order_ns (entry_of st s)"
      using entry_step_none [of ps now t "entry_of st ?s" e] s None by simp
    then show ?thesis
      using Cons.IH [of ?st ?i os1] Cons.prems(1,2) run os None by (simp del: fun_upd_apply)
  next
    case (Some m)
    have m: "om_symbol m = ?s" "om_submit_ts_ns m = now" "ss_last_order_ns e = now"
      "cooled ps (ss_last_order_ns (entry_of st ?s)) now"
      using entry_step_order [of ps now t "entry_of st ?s" m e] s Some cooled_sub [OF last] by auto
    have IH: "\<forall>m \<in> set os1. cooled ps (ss_last_order_ns (entry_of ?st (om_symbol m))) (om_submit_ts_ns m)"
      "sorted_wrt (\<lambda>m m'. om_symbol m = om_symbol m' \<longrightarrow> cooled ps (om_submit_ts_ns m) (om_submit_ts_ns m')) os1"
      using Cons.IH [of ?st ?i os1] Cons.prems(1,2) run now m(3) by (auto simp del: fun_upd_apply)
    have "cooled ps (ss_last_order_ns (entry_of st (om_symbol m'))) (om_submit_ts_ns m')"
      if "m' \<in> set os1" for m'
      using IH(1) that m(3,4) by (cases "om_symbol m' = ?s") (fastforce simp: cooled_def)+
    moreover have "cooled ps now (om_submit_ts_ns m')" if "m' \<in> set os1" "om_symbol m' = ?s" for m'
      using IH(1) that m(3) by fastforce
    ultimately show ?thesis using IH(2) m(1,2,4) os Some by auto
  qed
qed

text \<open>C27. The cooldown: over any sequence of ticks read while the clock does not go back, starting
  with no state, two orders for the same symbol are at least \<open>cooldown_ns\<close> apart, however the
  ticks of other symbols lie between them.\<close>

theorem cooldown_respected:
  assumes "sorted (map (unat \<circ> fst) es)" and "strategy_run ps es (\<lambda>s. None) i = (os, st', i')"
    and "a < b" "b < length os" "om_symbol (os ! a) = om_symbol (os ! b)"
  shows "unat (om_submit_ts_ns (os ! a)) + unat (sp_cooldown_ns ps) \<le> unat (om_submit_ts_ns (os ! b))"
proof -
  have "sorted_wrt (\<lambda>m m'. om_symbol m = om_symbol m' \<longrightarrow> cooled ps (om_submit_ts_ns m) (om_submit_ts_ns m')) os"
    using strategy_run_cooled [OF assms(1) _ assms(2)]
    by (simp add: entry_of_def symbol_state_default_def)
  from sorted_wrt_nth_less [OF this assms(3,4)] assms(5) show ?thesis by (simp add: cooled_def)
qed

definition demo_tick :: "int \<Rightarrow> int \<Rightarrow> market_tick" where
  "demo_tick bid ask =
     \<lparr>mt_seq_num = 1, mt_exch_ts_ns = 0, mt_recv_ts_ns = 0, mt_symbol = [65, 0, 0, 0, 0, 0, 0, 0],
      mt_bid_px = of_int bid, mt_ask_px = of_int ask, mt_bid_sz = 1, mt_ask_sz = 1, mt_pad = 0\<rparr>"

definition demo_params :: strategy_params where
  "demo_params =
     \<lparr>sp_alpha = f64_lit 1 100, sp_threshold_bps = f64_lit 5 1, sp_cooldown_ns = 50, sp_qty = 100\<rparr>"

definition demo_events :: "(u64 \<times> market_tick) list" where
  "demo_events =
     [(10, demo_tick 100000000 100010000), (60, demo_tick 102000000 102010000),
      (120, demo_tick 102000000 102010000)]"

text \<open>Three ticks: the first sets the average, the other two give orders.\<close>

lemma demo_values:
  "mid_px (demo_tick 100000000 100010000) = F_Fin False 7037226261487288 (- 46)"
  "mid_px (demo_tick 102000000 102010000) = F_Fin False 7177963749842616 (- 46)"
  "ema_update (f64_lit 1 100) (F_Fin False 7177963749842616 (- 46)) (F_Fin False 7037226261487288 (- 46)) =
     F_Fin False 7038633636370841 (- 46)"
  "ema_update (f64_lit 1 100) (F_Fin False 7177963749842616 (- 46)) (F_Fin False 7038633636370841 (- 46)) =
     F_Fin False 7040026937505559 (- 46)"
  "f64_lt (f64_abs (dev_bps (F_Fin False 7177963749842616 (- 46)) (F_Fin False 7038633636370841 (- 46))))
     (f64_lit 5 1) = False"
  "f64_lt (f64_abs (dev_bps (F_Fin False 7177963749842616 (- 46)) (F_Fin False 7040026937505559 (- 46))))
     (f64_lit 5 1) = False"
  by code_simp+

lemma demo_run:
  "map om_submit_ts_ns (fst (strategy_run demo_params demo_events (\<lambda>s. None) 1)) = [60, 120] \<and>
   map om_symbol (fst (strategy_run demo_params demo_events (\<lambda>s. None) 1)) =
     [[65, 0, 0, 0, 0, 0, 0, 0], [65, 0, 0, 0, 0, 0, 0, 0]]"
proof -
  have sym: "mt_symbol (demo_tick a b) = [65, 0, 0, 0, 0, 0, 0, 0]" for a b by (simp add: demo_tick_def)
  have ps: "sp_alpha demo_params = f64_lit 1 100" "sp_threshold_bps demo_params = f64_lit 5 1"
    "sp_cooldown_ns demo_params = 50" by (simp_all add: demo_params_def)
  show ?thesis
    by (simp add: demo_events_def strategy_step_def Let_def demo_values sym ps
        symbol_state_default_def word_less_nat_alt)
qed

theorem cooldown_respected_witness:
  "\<exists>os st' i'. strategy_run demo_params demo_events (\<lambda>s. None) 1 = (os, st', i') \<and> length os = 2 \<and>
     unat (om_submit_ts_ns (os ! 0)) + 50 \<le> unat (om_submit_ts_ns (os ! 1))"
proof -
  obtain os st' i' where run: "strategy_run demo_params demo_events (\<lambda>s. None) 1 = (os, st', i')"
    by (metis prod_cases3)
  have subm: "map om_submit_ts_ns os = [60, 120]" and symb: "map om_symbol os = [[65, 0, 0, 0, 0, 0, 0, 0], [65, 0, 0, 0, 0, 0, 0, 0]]"
    using demo_run unfolding run by simp_all
  have len: "length os = 2" using arg_cong [OF subm, of length] by simp
  have "om_symbol (os ! 0) = map om_symbol os ! 0" "om_symbol (os ! 1) = map om_symbol os ! 1"
    using len by simp_all
  then have "om_symbol (os ! 0) = om_symbol (os ! 1)" unfolding symb by simp
  moreover have "sorted (map (unat \<circ> fst) demo_events)" by (simp add: demo_events_def)
  moreover have "unat (sp_cooldown_ns demo_params) = 50" by (simp add: demo_params_def)
  ultimately show ?thesis using cooldown_respected [OF _ run, of 0 1] run len by auto
qed

text \<open>C34. What the cooldown does when the clock goes back, as \<open>SystemTime\<close> may: \<open>now -
  last_order_ns\<close> wraps around (a debug build panics) to almost \<open>2\<^sup>6\<^sup>4\<close>, so for every cooldown up
  to that the guard passes and the order goes out, though less than the cooldown has passed
  since the last one. The rest of the program subtracts time stamps with \<open>saturating_sub\<close>.\<close>

theorem cooldown_lost_on_clock_step:
  assumes "st (mt_symbol t) = Some e" "ss_initialised e" "now < ss_last_order_ns e"
    and "unat (sp_cooldown_ns ps) \<le> 2 ^ 64 - unat (ss_last_order_ns e - now)"
    and "\<not> f64_lt (f64_abs (dev_bps (mid_px t) (ema_update (sp_alpha ps) (mid_px t) (ss_ema_px e))))
           (sp_threshold_bps ps)"
  shows "\<exists>m dev st'. strategy_step ps now t st i = ((Some m, dev), st', i + 1) \<and> om_submit_ts_ns m = now"
proof -
  have "unat (now - ss_last_order_ns e) = 2 ^ 64 - unat (ss_last_order_ns e - now)"
    using assms(3) unat_lt64 [of "ss_last_order_ns e"] unat_lt64 [of now]
    by (simp add: unat_sub_if' word_less_nat_alt word_le_nat_alt)
  then have "\<not> now - ss_last_order_ns e < sp_cooldown_ns ps"
    using assms(4) by (simp add: word_less_nat_alt)
  then show ?thesis using assms(1,2,5) by (simp add: strategy_step_def Let_def)
qed

theorem cooldown_lost_on_clock_step_witness:
  "\<exists>m dev st'. strategy_step demo_params 99 (demo_tick 104000000 104010000)
     [[65, 0, 0, 0, 0, 0, 0, 0] \<mapsto>
        \<lparr>ss_ema_px = f64_lit 100 1, ss_last_order_ns = 100, ss_initialised = True\<rparr>] 7 =
     ((Some m, dev), st', 8) \<and> om_submit_ts_ns m = 99"
proof -
  have "\<not> f64_lt (f64_abs (dev_bps (mid_px (demo_tick 104000000 104010000))
      (ema_update (sp_alpha demo_params) (mid_px (demo_tick 104000000 104010000)) (f64_lit 100 1))))
      (sp_threshold_bps demo_params)"
    by code_simp
  then show ?thesis
    using cooldown_lost_on_clock_step [of "[[65, 0, 0, 0, 0, 0, 0, 0] \<mapsto>
        \<lparr>ss_ema_px = f64_lit 100 1, ss_last_order_ns = 100, ss_initialised = True\<rparr>]"
        "demo_tick 104000000 104010000" _ 99 demo_params 7]
    by (simp add: demo_tick_def demo_params_def)
qed

section \<open>Symbols do not interfere\<close>

text \<open>Symbols are independent: the orders a run gives for the symbols of any set are, but for
  their numbers, the orders of a run over the ticks of those symbols alone. With the set of
  symbols that \<open>symbol_hash\<close> sends to one worker, this is why splitting the ticks between
  workers changes no order.\<close>

theorem sharding_preserves_orders:
  "map (\<lambda>m. m\<lparr>om_order_id := 0\<rparr>)
     (filter (\<lambda>m. om_symbol m \<in> S) (fst (strategy_run ps es st i))) =
   map (\<lambda>m. m\<lparr>om_order_id := 0\<rparr>)
     (fst (strategy_run ps (filter (\<lambda>ev. mt_symbol (snd ev) \<in> S) es) st j))"
proof -
  have "map (\<lambda>m. m\<lparr>om_order_id := 0\<rparr>)
      (filter (\<lambda>m. om_symbol m \<in> S) (fst (strategy_run ps es st i))) =
    map (\<lambda>m. m\<lparr>om_order_id := 0\<rparr>)
      (fst (strategy_run ps (filter (\<lambda>ev. mt_symbol (snd ev) \<in> S) es) st2 j))"
    if "\<forall>s \<in> S. entry_of st s = entry_of st2 s" for st2
    using that
  proof (induction es arbitrary: st st2 i j)
    case Nil
    then show ?case by simp
  next
    case (Cons ev es)
    obtain now t where ev: "ev = (now, t)" by (cases ev)
    let ?s = "mt_symbol t"
    obtain ord e where s: "entry_step ps now t (entry_of st ?s) = (ord, e)"
      by (cases "entry_step ps now t (entry_of st ?s)")
    have sym: "\<And>m. ord = Some m \<Longrightarrow> om_symbol m = ?s" using entry_step_order s by blast
    show ?case
    proof (cases "?s \<in> S")
      case True
      then have s2: "entry_step ps now t (entry_of st2 ?s) = (ord, e)" using s Cons.prems by simp
      have "\<forall>x \<in> S. entry_of (st(?s \<mapsto> e)) x = entry_of (st2(?s \<mapsto> e)) x"
        using Cons.prems by (auto simp del: fun_upd_apply)
      from Cons.IH [OF this] show ?thesis
        using True sym unfolding ev
        by (simp add: strategy_run_Cons [OF s] strategy_run_Cons [OF s2] Let_def split_def
            split: option.splits del: fun_upd_apply strategy_run.simps(2))
    next
      case False
      then have "\<forall>x \<in> S. entry_of (st(?s \<mapsto> e)) x = entry_of st2 x"
        using Cons.prems by (auto simp del: fun_upd_apply)
      from Cons.IH [OF this] show ?thesis
        using False sym unfolding ev
        by (auto simp: strategy_run_Cons [OF s] Let_def split_def
            simp del: fun_upd_apply strategy_run.simps(2) split: option.splits)
    qed
  qed
  from this [of st] show ?thesis by simp
qed

section \<open>Prices in the real numbers\<close>

lemma f64_of_i64_pos:
  assumes "0 < sint (x :: i64)"
  obtains v where "f64_is (f64_of_i64 x) v" "pw 0 \<le> v" "v \<le> pw 63"
proof -
  have "sint x < 2 ^ 63" using sint_less [of x] by simp
  then have "of_int (sint x) \<le> (2 ^ 63 :: real)"
    by (metis less_imp_le of_int_le_iff of_int_numeral of_int_power)
  then have hi: "of_int (sint x) \<le> pw 63" by (simp add: pw_nat)
  have "of_int 1 \<le> (of_int (sint x) :: real)" using assms by (simp only: of_int_le_iff)
  then have lo: "pw 0 \<le> of_int (sint x)" by (simp only: pw_0 of_int_1)
  have "f64_is (f64_of_i64 x) (rnd (of_int (sint x)))"
    using f64_of_i64_is [of x] rnds_nonneg [OF order_trans [OF pw_ge_0 lo]] by (simp only:)
  then show ?thesis using that rnd_range [OF lo hi] by simp
qed

lemma mid_px_range:
  assumes "0 < sint (mt_bid_px t)" "0 < sint (mt_ask_px t)"
  obtains m where "f64_is (mid_px t) m" "pw (- 21) \<le> m" "m \<le> pw 64"
proof -
  obtain b where b: "f64_is (f64_of_i64 (mt_bid_px t)) b" "pw 0 \<le> b" "b \<le> pw 63"
    by (rule f64_of_i64_pos [OF assms(1)])
  obtain a where a: "f64_is (f64_of_i64 (mt_ask_px t)) a" "pw 0 \<le> a" "a \<le> pw 63"
    by (rule f64_of_i64_pos [OF assms(2)])
  have big: "x \<le> pw 1000" if "x \<le> pw 64" for x using that pw_mono [of 64 1000] by linarith
  have p64: "pw 64 = pw 63 + pw 63" by (simp add: pw_nat)
  have s: "pw 0 \<le> b + a" "b + a \<le> pw 64" using a b pw_pos [of 0] unfolding p64 by linarith+
  then have "f64_is (f64_add (f64_of_i64 (mt_bid_px t)) (f64_of_i64 (mt_ask_px t))) (rnd (b + a))"
    using f64_add_is [OF b(1) a(1)] big [of "b + a"] by (simp add: rnds_nonneg)
  note sum = this rnd_range [OF s]
  let ?s = "rnd (b + a)"
  have half: "f64_is (f64_lit 1 2) (pw (- 1))"
  proof -
    have "f64_lit 1 2 = F_Fin False (2 ^ 52) (- 53)" by code_simp
    then show ?thesis by (simp add: f64_is_def pw_uminus pw_nat)
  qed
  have h: "pw (- 1) \<le> ?s * pw (- 1)" "?s * pw (- 1) \<le> pw 63"
    using sum(2,3) pw_add [of 64 "- 1"] by (simp_all add: mult_right_mono)
  then have "f64_is (f64_mul (f64_add (f64_of_i64 (mt_bid_px t)) (f64_of_i64 (mt_ask_px t))) (f64_lit 1 2))
      (rnd (?s * pw (- 1)))"
    using f64_mul_is [OF sum(1) half] big [of "?s * pw (- 1)"] pw_mono [of 63 64] pw_pos [of "- 1"]
    by (simp add: rnds_nonneg del: pw_le_iff)
  note prod = this rnd_range [OF h]
  let ?p = "rnd (?s * pw (- 1))"
  have mil: "f64_is (f64_lit 1000000 1) 1000000" using f64_lit_small_is [of 1000000] by simp
  have q: "pw (- 21) \<le> ?p / 1000000" "?p / 1000000 \<le> pw 63"
  proof -
    have "pw (- 21) * 1000000 \<le> pw (- 1)" by (simp add: pw_uminus pw_nat)
    then show "pw (- 21) \<le> ?p / 1000000" using prod(2) by simp
    have "0 \<le> ?p" using prod(2) pw_pos [of "- 1"] by linarith
    then have "?p / 1000000 \<le> ?p" by simp
    moreover have "?p \<le> pw 63" using prod(3) by simp
    ultimately show "?p / 1000000 \<le> pw 63" by (rule order_trans)
  qed
  then have "f64_is (mid_px t) (rnd (?p / 1000000))"
    using f64_div_is [OF prod(1) mil] big [of "?p / 1000000"] pw_mono [of 63 64] pw_pos [of "- 21"]
    unfolding mid_px_def by (simp add: rnds_nonneg del: pw_le_iff)
  moreover have "pw (- 21) \<le> rnd (?p / 1000000)" "rnd (?p / 1000000) \<le> pw 64"
    using rnd_range [OF q] pw_trans [of _ 63 64] by simp_all
  ultimately show ?thesis using that by blast
qed

lemma ema_update_alpha_one:
  assumes "f64_is alpha 1" "f64_is mid m" "f64_is ema x" "\<bar>m\<bar> \<le> pw 1000"
  shows "f64_is (ema_update alpha mid ema) m"
proof -
  have one: "f64_is (f64_lit 1 1) 1" using f64_lit_small_is [of 1] by simp
  have "f64_is (f64_mul (f64_sub (f64_lit 1 1) alpha) ema) 0"
    by (rule f64_mul_zero_is [OF f64_sub_self_is [OF one assms(1)] assms(3)])
  from f64_add_zero_is [OF f64_mul_one_is [OF assms(1,2,4)] this assms(4)] show ?thesis
    by (simp add: ema_update_def)
qed

lemma dev_bps_self:
  assumes "f64_is mid m" "f64_is ema m" "m \<noteq> 0"
  shows "f64_is (dev_bps mid ema) 0"
proof -
  have "f64_is (f64_div (f64_sub mid ema) ema) 0"
    using f64_div_is [OF f64_sub_self_is [OF assms(1,2)] assms(2,3)] by simp
  from f64_mul_zero_is [OF this f64_lit_small_is [of 10000]] show ?thesis by (simp add: dev_bps_def)
qed

text \<open>A half-life of zero or less turns the strategy off: \<open>ema_alpha\<close> is then 1, the average
  follows the price exactly, the deviation is exactly zero, and with a positive threshold no
  sequence of ticks with positive prices gives an order, whatever the cooldown and the clock.\<close>

theorem no_halflife_no_orders:
  assumes "f64_le h (f64_lit 0 1)" "sp_alpha ps = ema_alpha ln_f exp_f h"
    and "f64_is (sp_threshold_bps ps) thr" "0 < thr"
    and "\<forall>ev \<in> set es. 0 < sint (mt_bid_px (snd ev)) \<and> 0 < sint (mt_ask_px (snd ev))"
  shows "fst (strategy_run ps es (\<lambda>s. None) i) = []"
proof -
  have alpha: "f64_is (sp_alpha ps) 1"
    using f64_lit_small_is [of 1] assms(1,2) by (simp add: ema_alpha_def)
  have "fst (strategy_run ps es st i) = []"
    if "\<forall>s. ss_initialised (entry_of st s) \<longrightarrow> (\<exists>x. f64_is (ss_ema_px (entry_of st s)) x)" for st
    using that assms(5)
  proof (induction es arbitrary: st)
    case Nil
    then show ?case by simp
  next
    case (Cons ev es)
    obtain now t where ev: "ev = (now, t)" by (cases ev)
    let ?e = "entry_of st (mt_symbol t)"
    obtain m where m: "f64_is (mid_px t) m" "pw (- 21) \<le> m" "m \<le> pw 64"
      using Cons.prems(2) mid_px_range [of t] by (auto simp: ev)
    have m0: "0 < m" using m(2) pw_pos [of "- 21"] by linarith
    then have big: "\<bar>m\<bar> \<le> pw 1000" using pw_trans [OF m(3), of 1000] by simp
    have "\<exists>e. entry_step ps now t ?e = (None, e) \<and> (\<exists>x. f64_is (ss_ema_px e) x)"
    proof (cases "ss_initialised ?e")
      case False
      then show ?thesis using m(1) by (auto simp: entry_step_def Let_def)
    next
      case True
      then obtain x where x: "f64_is (ss_ema_px ?e) x" using Cons.prems(1) by blast
      let ?ema = "ema_update (sp_alpha ps) (mid_px t) (ss_ema_px ?e)"
      have ema: "f64_is ?ema m" by (rule ema_update_alpha_one [OF alpha m(1) x big])
      have "f64_is (dev_bps (mid_px t) ?ema) 0" using dev_bps_self [OF m(1) ema] m0 by simp
      from f64_abs_is [OF this] have "f64_lt (f64_abs (dev_bps (mid_px t) ?ema)) (sp_threshold_bps ps)"
        using f64_lt_val [OF _ assms(3)] assms(4) by simp
      with True ema show ?thesis by (auto simp: entry_step_def Let_def)
    qed
    then obtain e where e: "entry_step ps now t ?e = (None, e)" "\<exists>x. f64_is (ss_ema_px e) x" by blast
    have "\<forall>s. ss_initialised (entry_of (st(mt_symbol t \<mapsto> e)) s) \<longrightarrow>
        (\<exists>x. f64_is (ss_ema_px (entry_of (st(mt_symbol t \<mapsto> e)) s)) x)"
      using Cons.prems(1) e(2) by (auto simp del: fun_upd_apply)
    from Cons.IH [OF this] show ?case
      using Cons.prems(2) unfolding ev strategy_run_Cons [OF e(1)]
      by (auto simp: Let_def simp del: fun_upd_apply split: prod.splits)
  qed
  from this [of "\<lambda>s. None"] show ?thesis by (simp add: entry_of_def symbol_state_default_def)
qed

theorem no_halflife_no_orders_witness:
  "fst (strategy_run (demo_params\<lparr>sp_alpha := ema_alpha f64_abs f64_abs (f64_lit 0 1)\<rparr>) demo_events
     (\<lambda>s. None) 1) = []"
proof (rule no_halflife_no_orders)
  show "f64_le (f64_lit 0 1) (f64_lit 0 1)" by code_simp
  show "f64_is (sp_threshold_bps (demo_params\<lparr>sp_alpha := ema_alpha f64_abs f64_abs (f64_lit 0 1)\<rparr>)) 5"
    using f64_lit_small_is [of 5] by (simp add: demo_params_def)
qed (simp_all add: demo_events_def demo_tick_def)

text \<open>The deviation, computed with three roundings, has the sign of the difference, as rounding is monotone and
  keeps zero.\<close>

lemma dev_bps_sign:
  assumes "f64_is a x" "f64_is b y" "0 < y" "\<bar>x - y\<bar> \<le> pw 400" "pw (- 400) \<le> y"
  obtains z where "f64_is (dev_bps a b) z" "0 < z \<Longrightarrow> y < x" "z < 0 \<Longrightarrow> x < y"
proof
  let ?d = "rnds (x - y)" and ?q = "rnds (rnds (x - y) / y)"
  have bnd: "\<bar>rnds z\<bar> \<le> pw k" if "\<bar>z\<bar> \<le> pw k" "- 1074 \<le> k" for z k
    using that rnd_mono [of "\<bar>z\<bar>" "pw k"] rnd_nonneg [of "\<bar>z\<bar>"]
    by (auto simp: rnds_def rnd_pw abs_if split: if_splits)
  have d: "\<bar>?d\<bar> \<le> pw 400" by (rule bnd [OF assms(4)]) simp
  have sub: "f64_is (f64_sub a b) ?d"
    by (rule f64_sub_is [OF assms(1,2) pw_trans [OF assms(4)]]) simp
  have "\<bar>?d / y\<bar> = \<bar>?d\<bar> / y" using assms(3) by (simp add: abs_divide)
  also have "\<dots> \<le> pw 400 / pw (- 400)"
    using d assms(3,5) by (intro frac_le) simp_all
  also have "\<dots> = pw 800" using pw_diff [of 400 "- 400"] by simp
  finally have q: "\<bar>?d / y\<bar> \<le> pw 800" .
  have div: "f64_is (f64_div (f64_sub a b) b) ?q"
    using f64_div_is [OF sub assms(2)] assms(3) pw_trans [OF q, of 1000] by simp
  have "\<bar>?q\<bar> \<le> pw 800" by (rule bnd [OF q]) simp
  then have "\<bar>?q * 10000\<bar> \<le> pw 800 * pw 14" by (simp add: abs_mult pw_nat [of 14])
  also have "\<dots> \<le> pw 1000" using pw_add [of 800 14] pw_mono [of 814 1000] by simp
  finally show "f64_is (dev_bps a b) (rnds (?q * 10000))"
    using f64_mul_is [OF div f64_lit_small_is [of 10000]] by (simp add: dev_bps_def)
  show "y < x" if "0 < rnds (?q * 10000)"
  proof (rule ccontr)
    assume "\<not> y < x"
    then have "?d \<le> 0" using rnds_mono [of "x - y" 0] by simp
    then have "?q \<le> 0" using rnds_mono [of "?d / y" 0] assms(3) by (simp add: divide_nonpos_pos)
    then show False using rnds_mono [of "?q * 10000" 0] that by simp
  qed
  show "x < y" if "rnds (?q * 10000) < 0"
  proof (rule ccontr)
    assume "\<not> x < y"
    then have "0 \<le> ?d" using rnds_mono [of 0 "x - y"] by simp
    then have "0 \<le> ?q" using rnds_mono [of 0 "?d / y"] assms(3) by simp
    then show False using rnds_mono [of 0 "?q * 10000"] that by simp
  qed
qed

text \<open>C28. Which way an order goes, in exact arithmetic: whenever the updated average is a positive
  finite number, an order is a sale at the bid only if the price is above the average, and a
  purchase at the ask only if it is below it, provided the threshold is positive and the average is at least \<open>2\<close> to the power
  \<open>-400\<close> and no further than \<open>2\<close> to the power \<open>400\<close> from the price, so that nothing underflows or overflows; within these bounds rounding
  never turns the direction. (At an average of zero there is no direction: see \<open>zero_price_order\<close>.)\<close>

theorem order_direction:
  assumes "entry_step ps now t e = (Some m, e')"
    and "f64_is (mid_px t) x" "f64_is (ss_ema_px e') y" "0 < y" "f64_is (sp_threshold_bps ps) thr" "0 < thr"
    and "\<bar>x - y\<bar> \<le> pw 400" "pw (- 400) \<le> y"
  shows "(om_side m = side_as_u8 Sell \<and> om_px m = mt_bid_px t \<and> y < x) \<or>
    (om_side m = side_as_u8 Buy \<and> om_px m = mt_ask_px t \<and> x < y)"
proof -
  let ?dev = "dev_bps (mid_px t) (ss_ema_px e')"
  have m: "om_side m = side_as_u8 (if f64_lt (f64_lit 0 1) ?dev then Sell else Buy)"
    "om_px m = (if f64_lt (f64_lit 0 1) ?dev then mt_bid_px t else mt_ask_px t)"
    "\<not> f64_lt (f64_abs ?dev) (sp_threshold_bps ps)"
    using assms(1) by (auto simp: entry_step_def Let_def split: if_splits)
  obtain z where z: "f64_is ?dev z" and up: "0 < z \<Longrightarrow> y < x" and down: "z < 0 \<Longrightarrow> x < y"
    using dev_bps_sign [OF assms(2-4,7,8)] by blast
  have sell: "f64_lt (f64_lit 0 1) ?dev \<longleftrightarrow> 0 < z"
    by (rule f64_lt_val [OF _ z]) (use f64_lit_small_is [of 0] in simp)
  have "thr \<le> \<bar>z\<bar>" using m(3) f64_lt_val [OF f64_abs_is [OF z] assms(5)] by simp
  then have "0 < z \<or> z < 0" using assms(6) by linarith
  then show ?thesis using m(1,2) sell up down by auto
qed

theorem order_direction_witness:
  "om_side (the (fst (entry_step demo_params 60 (demo_tick 102000000 102010000)
     \<lparr>ss_ema_px = F_Fin False 7037226261487288 (- 46), ss_last_order_ns = 0, ss_initialised = True\<rparr>))) = 2"
proof -
  let ?e = "\<lparr>ss_ema_px = F_Fin False 7037226261487288 (- 46), ss_last_order_ns = 0, ss_initialised = True\<rparr>"
  let ?t = "demo_tick 102000000 102010000"
  have ps: "sp_alpha demo_params = f64_lit 1 100" "sp_threshold_bps demo_params = f64_lit 5 1"
    "sp_cooldown_ns demo_params = 50" by (simp_all add: demo_params_def)
  obtain m e' where r: "entry_step demo_params 60 ?t ?e = (Some m, e')"
    and e': "ss_ema_px e' = F_Fin False 7038633636370841 (- 46)"
    by (simp add: entry_step_def Let_def demo_values ps word_less_nat_alt)
  have p46: "pw (- 46) = 1 / 2 ^ 46" "pw (- 400) \<le> pw 0"
    by (simp_all only: pw_le_iff pw_uminus [of 46]) (simp_all add: pw_nat)
  let ?x = "7177963749842616 / 2 ^ 46 :: real" and ?y = "7038633636370841 / 2 ^ 46 :: real"
  have x: "f64_is (mid_px ?t) ?x" by (simp add: demo_values f64_is_def p46(1))
  have y: "f64_is (ss_ema_px e') ?y" by (simp add: e' f64_is_def p46(1))
  have "\<bar>?x - ?y\<bar> \<le> pw 20" by (simp add: pw_nat)
  then have b1: "\<bar>?x - ?y\<bar> \<le> pw 400" by (rule pw_trans) simp
  have "pw 0 \<le> ?y" by simp
  with p46(2) have b2: "pw (- 400) \<le> ?y" by (rule order_trans)
  have "f64_is (sp_threshold_bps demo_params) 5" using f64_lit_small_is [of 5] by (simp add: ps)
  from order_direction [OF r x y _ this _ b1 b2]
  have "om_side m = side_as_u8 Sell" by simp
  then show ?thesis using r by simp
qed

text \<open>C33. Prices that are zero: with bid and ask zero, as in an empty quote, the average and the
  price are both zero and the deviation is not a number. No comparison with it holds, so it
  passes the guard \<open>dev_bps.abs() < threshold_bps\<close> for every threshold, and the second such tick
  sends an order to buy at price zero as soon as the cooldown allows.\<close>

theorem zero_price_order:
  assumes "f64_is (sp_alpha ps) a" "0 \<le> a" "a \<le> 1" "sp_cooldown_ns ps \<le> now"
    and "mt_bid_px t = 0" "mt_ask_px t = 0"
  shows "\<exists>m st' i'. strategy_run ps [(now0, t), (now, t)] (\<lambda>s. None) i = ([m], st', i') \<and>
    om_side m = side_as_u8 Buy \<and> om_px m = 0 \<and> om_submit_ts_ns m = now"
proof -
  have mid: "mid_px t = F_Fin False 0 (- 1074)"
  proof -
    have "f64_of_i64 0 = F_Fin False 0 (- 1074)"
      by (simp add: f64_of_i64_def f64_of_int_def f64_round_def)
    moreover have "f64_lit 1 2 = F_Fin False (2 ^ 52) (- 53)"
      "f64_lit 1000000 1 = F_Fin False 8589934592000000 (- 33)" by code_simp+
    ultimately show ?thesis
      by (simp add: mid_px_def assms(5,6) Let_def f64_scaled_def f64_round_def)
  qed
  have z: "f64_is (mid_px t) 0" by (simp add: mid f64_is_def)
  have one: "f64_is (f64_lit 1 1) 1" using f64_lit_small_is [of 1] by simp
  have s: "f64_is (f64_sub (f64_lit 1 1) (sp_alpha ps)) (rnds (1 - a))"
  proof (rule f64_sub_is [OF one assms(1)])
    have "\<bar>1 - a\<bar> \<le> pw 0" using assms(2,3) by simp
    then show "\<bar>1 - a\<bar> \<le> pw 1000" by (rule pw_trans) simp
  qed
  let ?ema = "ema_update (sp_alpha ps) (mid_px t) (mid_px t)"
  have "f64_is (f64_mul (sp_alpha ps) (mid_px t)) 0" "f64_is (f64_mul (f64_sub (f64_lit 1 1) (sp_alpha ps)) (mid_px t)) 0"
    using f64_mul_is [OF assms(1) z] f64_mul_is [OF s z] by simp_all
  then have ema: "f64_is ?ema 0"
    unfolding ema_update_def by (rule f64_add_zero_is) simp
  have dev: "dev_bps (mid_px t) ?ema = F_NaN"
    unfolding dev_bps_def f64_zero_div_zero [OF f64_sub_self_is [OF z ema] ema] by simp
  have "f64_lt (f64_lit 0 1) F_NaN = False" by (cases "f64_lit 0 1") simp_all
  moreover have "\<not> now < sp_cooldown_ns ps" using assms(4) by simp
  ultimately show ?thesis
    using dev assms(5,6) by (simp add: strategy_step_def Let_def symbol_state_default_def)
qed

theorem zero_price_order_witness:
  "\<exists>m st' i'. strategy_run demo_params [(10, demo_tick 0 0), (60, demo_tick 0 0)] (\<lambda>s. None) 1 = ([m], st', i') \<and>
     om_px m = 0"
proof -
  have "f64_lit 1 100 = F_Fin False 5764607523034235 (- 59)" by code_simp
  then have "f64_is (sp_alpha demo_params) (5764607523034235 / 2 ^ 59)"
    by (simp add: demo_params_def f64_is_def pw_uminus [of 59] pw_nat [of 59])
  then show ?thesis
    using zero_price_order [of demo_params "5764607523034235 / 2 ^ 59" 60 "demo_tick 0 0" 10 1]
    by (auto simp: demo_params_def demo_tick_def word_le_nat_alt)
qed

end
