(* ===== verification/Text.thy ===== *)
theory Text
  imports Bus_Prelude
begin

text \<open>
  Strings of the program and the pieces of the standard library it formats and parses them
  with. A \<open>String\<close> is a list of characters, each one code point up to 255: everything the
  modelled code prints or compares lies in that range. The theory holds \<open>to_string\<close> of an
  unsigned integer, \<open>str::parse\<close>, \<open>str::trim\<close>, \<open>str::split\<close>, \<open>split_once\<close> and \<open>as_bytes\<close>, and the
  round trip of printing and parsing.
\<close>

section \<open>Decimal numbers\<close>

definition digit_char :: "nat \<Rightarrow> char" where
  "digit_char d = char_of (48 + d)"

definition is_digit :: "char \<Rightarrow> bool" where
  "is_digit c \<longleftrightarrow> 48 \<le> (of_char c :: nat) \<and> (of_char c :: nat) \<le> 57"

definition digit_val :: "char \<Rightarrow> nat" where
  "digit_val c = of_char c - 48"

fun show_nat :: "nat \<Rightarrow> string" where
  "show_nat n = (if n < 10 then [digit_char n] else show_nat (n div 10) @ [digit_char (n mod 10)])"

declare show_nat.simps [simp del]

text \<open>
  \<open>str::parse\<close> of an unsigned type below \<open>bound\<close>: an empty string, a lone sign or any
  other character is an error, one leading \<open>+\<close> is allowed, and a value that reaches the
  bound overflows. Of a bad character and an overflow, the one met first is reported.
\<close>

datatype parse_int_error = PIE_Empty | PIE_InvalidDigit | PIE_PosOverflow

fun parse_digits :: "nat \<Rightarrow> nat \<Rightarrow> string \<Rightarrow> parse_int_error + nat" where
  "parse_digits bound acc [] = Inr acc"
| "parse_digits bound acc (c # cs) =
     (if \<not> is_digit c then Inl PIE_InvalidDigit
      else if bound \<le> acc * 10 + digit_val c then Inl PIE_PosOverflow
      else parse_digits bound (acc * 10 + digit_val c) cs)"

definition parse_uint :: "nat \<Rightarrow> string \<Rightarrow> parse_int_error + nat" where
  "parse_uint bound s =
     (if s = [] then Inl PIE_Empty
      else if s = ''+'' \<or> s = ''-'' then Inl PIE_InvalidDigit
      else parse_digits bound 0 (if hd s = CHR ''+'' then tl s else s))"

lemma of_char_digit: "d < 10 \<Longrightarrow> of_char (digit_char d) = 48 + d"
  by (simp add: digit_char_def)

lemma is_digit_digit_char [simp]: "d < 10 \<Longrightarrow> is_digit (digit_char d)"
  by (simp add: is_digit_def of_char_digit)

lemma digit_val_digit_char [simp]: "d < 10 \<Longrightarrow> digit_val (digit_char d) = d"
  by (simp add: digit_val_def of_char_digit)

lemma show_nat_digits: "c \<in> set (show_nat n) \<Longrightarrow> is_digit c"
  by (induction n rule: show_nat.induct) (subst (asm) (2) show_nat.simps, auto split: if_splits)

lemma show_nat_ne [simp]: "show_nat n \<noteq> []"
  by (subst show_nat.simps) simp

lemma parse_digits_append:
  "parse_digits b acc (xs @ ys) =
     (case parse_digits b acc xs of Inl e \<Rightarrow> Inl e | Inr v \<Rightarrow> parse_digits b v ys)"
  by (induction xs arbitrary: acc) auto

lemma parse_digits_show_nat: "n < b \<Longrightarrow> parse_digits b 0 (show_nat n) = Inr n"
proof (induction n rule: show_nat.induct)
  case (1 n)
  show ?case
  proof (cases "n < 10")
    case True
    then show ?thesis using 1(2) by (subst show_nat.simps) simp
  next
    case False
    then have "parse_digits b 0 (show_nat (n div 10)) = Inr (n div 10)"
      using 1 by (metis div_le_dividend le_less_trans)
    moreover have "n div 10 * 10 + n mod 10 = n" by simp
    ultimately show ?thesis
      using False 1(2) by (subst show_nat.simps) (simp add: parse_digits_append)
  qed
qed

lemma not_digit_signs [simp]: "\<not> is_digit CHR ''+''" "\<not> is_digit CHR ''-''" "\<not> is_digit CHR '',''"
  by (simp_all add: is_digit_def)

lemma parse_uint_show_nat [simp]:
  assumes "n < b"
  shows "parse_uint b (show_nat n) = Inr n"
proof -
  have d: "is_digit (hd (show_nat n))" by (rule show_nat_digits [of _ n]) simp
  then have "hd (show_nat n) \<noteq> CHR ''+''" "show_nat n \<noteq> ''+''" "show_nat n \<noteq> ''-''" by auto
  then show ?thesis using assms by (simp add: parse_uint_def parse_digits_show_nat)
qed

lemma parse_digits_bound: "parse_digits b acc s = Inr v \<Longrightarrow> acc < b \<Longrightarrow> v < b"
  by (induction s arbitrary: acc) (auto split: if_splits)

lemma parse_uint_bound: "parse_uint b s = Inr v \<Longrightarrow> 0 < b \<Longrightarrow> v < b"
  using parse_digits_bound [of b 0] by (auto simp: parse_uint_def split: if_splits)

section \<open>White space and splitting\<close>

text \<open>\<open>char::is_whitespace\<close>, for the code points the strings hold.\<close>

definition is_whitespace :: "char \<Rightarrow> bool" where
  "is_whitespace c \<longleftrightarrow>
     (let n = of_char c :: nat in 9 \<le> n \<and> n \<le> 13 \<or> n = 32 \<or> n = 133 \<or> n = 160)"

definition trim_start :: "string \<Rightarrow> string" where
  "trim_start s = dropWhile is_whitespace s"

definition trim :: "string \<Rightarrow> string" where
  "trim s = rev (dropWhile is_whitespace (rev (trim_start s)))"

text \<open>\<open>split(c)\<close> keeps the empty parts; \<open>split_once(c)\<close> cuts at the first \<open>c\<close>.\<close>

fun split_on :: "char \<Rightarrow> string \<Rightarrow> string list" where
  "split_on c [] = [[]]"
| "split_on c (x # xs) =
     (if x = c then [] # split_on c xs
      else case split_on c xs of [] \<Rightarrow> [[x]] | p # ps \<Rightarrow> (x # p) # ps)"

fun split_once :: "char \<Rightarrow> string \<Rightarrow> (string \<times> string) option" where
  "split_once c [] = None"
| "split_once c (x # xs) =
     (if x = c then Some ([], xs)
      else case split_once c xs of None \<Rightarrow> None | Some (a, b) \<Rightarrow> Some (x # a, b))"

definition strip_prefix :: "string \<Rightarrow> string \<Rightarrow> string option" where
  "strip_prefix p s = (if take (length p) s = p then Some (drop (length p) s) else None)"

definition strip_suffix_char :: "char \<Rightarrow> string \<Rightarrow> string option" where
  "strip_suffix_char c s = (if s \<noteq> [] \<and> last s = c then Some (butlast s) else None)"

lemma split_on_ne [simp]: "split_on c s \<noteq> []"
  by (induction s) (auto split: list.splits)

lemma split_on_free: "c \<notin> set xs \<Longrightarrow> split_on c (xs @ ys) = (xs @ hd (split_on c ys)) # tl (split_on c ys)"
  by (induction xs) (auto split: list.splits)

lemma split_on_sep: "c \<notin> set xs \<Longrightarrow> split_on c (xs @ c # ys) = xs # split_on c ys"
  by (simp add: split_on_free)

lemma split_on_id: "c \<notin> set xs \<Longrightarrow> split_on c xs = [xs]"
  using split_on_free [of c xs "[]"] by simp

lemma split_once_sep: "c \<notin> set xs \<Longrightarrow> split_once c (xs @ c # ys) = Some (xs, ys)"
  by (induction xs) auto

lemma split_once_None [simp]: "split_once c xs = None \<longleftrightarrow> c \<notin> set xs"
  by (induction xs) (auto split: option.splits)

lemma trim_id: "s \<noteq> [] \<Longrightarrow> \<not> is_whitespace (hd s) \<Longrightarrow> \<not> is_whitespace (last s) \<Longrightarrow> trim s = s"
  by (simp add: trim_def trim_start_def dropWhile_eq_self_iff [THEN iffD2] hd_rev)

lemma trim_around:
  assumes "\<forall>c \<in> set a. is_whitespace c" "\<forall>c \<in> set b. is_whitespace c"
    and "s \<noteq> []" "\<not> is_whitespace (hd s)" "\<not> is_whitespace (last s)"
  shows "trim (a @ s @ b) = s"
proof -
  have "dropWhile is_whitespace (a @ s @ b) = s @ b"
    using assms by (cases s) (simp_all add: dropWhile_append)
  moreover have "dropWhile is_whitespace (rev b @ rev s) = rev s"
    using assms by (simp add: dropWhile_append dropWhile_eq_self_iff hd_rev)
  ultimately show ?thesis by (simp add: trim_def trim_start_def)
qed

lemma trim_Nil [simp]: "trim [] = []"
  by (simp add: trim_def trim_start_def)

lemma is_digit_not_space: "is_digit c \<Longrightarrow> \<not> is_whitespace c"
  by (auto simp: is_digit_def is_whitespace_def Let_def)

lemma is_digit_not_sep: "is_digit c \<Longrightarrow> c \<noteq> CHR '','' \<and> c \<noteq> CHR ''-'' \<and> c \<noteq> CHR ''+''"
  by auto

lemma trim_digits:
  assumes "s \<noteq> []" "is_digit (hd s)" "is_digit (last s)"
  shows "trim s = s"
  using assms by (intro trim_id) (simp_all add: is_digit_not_space)

lemma show_nat_no_sep [simp]: "CHR '','' \<notin> set (show_nat n)" "CHR ''-'' \<notin> set (show_nat n)"
  using show_nat_digits [of _ n] by fastforce+

lemma show_nat_hd_last [simp]: "is_digit (hd (show_nat n))" "is_digit (last (show_nat n))"
  by (rule show_nat_digits [of _ n], simp)+

lemma trim_show_nat [simp]: "trim (show_nat n) = show_nat n"
  by (rule trim_digits) simp_all

section \<open>Bytes\<close>

text \<open>The bytes of a string in UTF-8, for the code points the strings hold.\<close>

definition utf8_char :: "char \<Rightarrow> u8 list" where
  "utf8_char c =
     (let n = of_char c :: nat
      in if n < 128 then [of_nat n] else [of_nat (192 + n div 64), of_nat (128 + n mod 64)])"

definition utf8_bytes :: "string \<Rightarrow> u8 list" where
  "utf8_bytes s = concat (map utf8_char s)"

end
