(* ===== verification/Latency.thy ===== *)
theory Latency
  imports Float64_Real Text "HOL-Library.Multiset"
begin

text \<open>
  The latency histogram (\<open>shmbus/src/latency.rs\<close>): 21 buckets with inclusive upper bounds,
  minimum, maximum, sum and count of the samples, the percentiles read off the cumulative
  counts, and the text of a summary. The counters are machine words, and the rank of a
  percentile is computed in \<open>f64\<close> as in the code.

  The lemmas show that the state is a function of the multiset of samples, that the rank
  computed in floating point is the exact nearest rank, and that a percentile is the bound
  of the bucket of the sample of that rank.
\<close>

section \<open>State and operations\<close>

definition BUCKET_BOUNDS_NS :: "u64 list" where
  "BUCKET_BOUNDS_NS =
     [500, 1000, 2000, 5000, 10000, 20000, 50000, 100000, 200000, 500000,
      1000000, 2000000, 5000000, 10000000, 20000000, 50000000, 100000000,
      200000000, 500000000, 1000000000, - 1]"

record latency_histogram =
  buckets :: "u64 list"
  min_ns :: u64
  max_ns :: u64
  sum_ns :: u128
  lh_count :: u64

definition histogram_new :: latency_histogram where
  "histogram_new =
     \<lparr> buckets = replicate (length BUCKET_BOUNDS_NS) 0, min_ns = - 1, max_ns = 0,
       sum_ns = 0, lh_count = 0 \<rparr>"

text \<open>\<open>iter().position(p)\<close>\<close>

fun position :: "('a \<Rightarrow> bool) \<Rightarrow> 'a list \<Rightarrow> nat option" where
  "position p [] = None"
| "position p (x # xs) = (if p x then Some 0 else map_option Suc (position p xs))"

definition bucket_index :: "u64 \<Rightarrow> nat" where
  "bucket_index latency_ns =
     (case position (\<lambda>b. latency_ns \<le> b) BUCKET_BOUNDS_NS of
        Some i \<Rightarrow> i | None \<Rightarrow> length BUCKET_BOUNDS_NS - 1)"

definition record_ns :: "u64 \<Rightarrow> latency_histogram \<Rightarrow> latency_histogram" where
  "record_ns latency_ns h =
     (let idx = bucket_index latency_ns
      in h \<lparr> buckets := (buckets h)[idx := buckets h ! idx + 1],
             min_ns := (if latency_ns < min_ns h then latency_ns else min_ns h),
             max_ns := (if max_ns h < latency_ns then latency_ns else max_ns h),
             sum_ns := sum_ns h + ucast latency_ns,
             lh_count := lh_count h + 1 \<rparr>)"

definition histogram_count :: "latency_histogram \<Rightarrow> u64" where
  "histogram_count h = lh_count h"

definition histogram_reset :: "latency_histogram \<Rightarrow> latency_histogram" where
  "histogram_reset h = histogram_new"

text \<open>The loop over the buckets with its running total.\<close>

fun quantile_scan :: "u64 \<Rightarrow> u64 \<Rightarrow> nat \<Rightarrow> u64 list \<Rightarrow> u64 option" where
  "quantile_scan target cum i [] = None"
| "quantile_scan target cum i (b # bs) =
     (if target \<le> cum + b then Some (BUCKET_BOUNDS_NS ! i)
      else quantile_scan target (cum + b) (i + 1) bs)"

definition quantile_target :: "u64 \<Rightarrow> f64 \<Rightarrow> u64" where
  "quantile_target n q = max (f64_to_u64 (f64_ceil (f64_mul (f64_of_u64 n) q))) 1"

definition quantile :: "latency_histogram \<Rightarrow> f64 \<Rightarrow> u64" where
  "quantile h q =
     (if lh_count h = 0 then 0
      else case quantile_scan (quantile_target (lh_count h) q) 0 0 (buckets h) of
             Some b \<Rightarrow> b | None \<Rightarrow> max_ns h)"

record latency_summary =
  s_count :: u64
  s_min_ns :: u64
  s_max_ns :: u64
  s_mean_ns :: u64
  s_p50_ns :: u64
  s_p90_ns :: u64
  s_p99_ns :: u64
  s_p999_ns :: u64

definition summary :: "latency_histogram \<Rightarrow> latency_summary" where
  "summary h =
     \<lparr> s_count = lh_count h,
       s_min_ns = (if lh_count h = 0 then 0 else min_ns h),
       s_max_ns = max_ns h,
       s_mean_ns = (if lh_count h = 0 then 0 else ucast (sum_ns h div ucast (lh_count h))),
       s_p50_ns = quantile h (f64_lit 50 100),
       s_p90_ns = quantile h (f64_lit 90 100),
       s_p99_ns = quantile h (f64_lit 99 100),
       s_p999_ns = quantile h (f64_lit 999 1000) \<rparr>"

section \<open>Text of a summary\<close>

text \<open>
  \<open>format!("{:.2}", x)\<close> for a finite \<open>x \<ge> 0\<close>: the exact value of the number, rounded to
  hundredths, ties to even.
\<close>

definition hundredths :: "f64 \<Rightarrow> nat" where
  "hundredths x =
     (case x of F_Fin s m e \<Rightarrow> nat (rne_div (100 * m * 2 ^ nat e) (2 ^ nat (- e))) | _ \<Rightarrow> 0)"

definition show_fixed2 :: "f64 \<Rightarrow> string" where
  "show_fixed2 x =
     (let h = hundredths x
      in show_nat (h div 100) @ ''.'' @ [digit_char (h mod 100 div 10), digit_char (h mod 10)])"

definition fmt_ns :: "u64 \<Rightarrow> string" where
  "fmt_ns ns =
     (if 1000000000 \<le> ns then show_fixed2 (f64_div (f64_of_u64 ns) (f64_lit 1000000000 1)) @ ''s''
      else if 1000000 \<le> ns then show_fixed2 (f64_div (f64_of_u64 ns) (f64_lit 1000000 1)) @ ''ms''
      else if 1000 \<le> ns
      then show_fixed2 (f64_div (f64_of_u64 ns) (f64_lit 1000 1)) @ CHR 0xB5 # ''s''
      else show_nat (unat ns) @ ''ns'')"

definition show_summary :: "latency_summary \<Rightarrow> string" where
  "show_summary s =
     ''n='' @ show_nat (unat (s_count s)) @
     '' min='' @ fmt_ns (s_min_ns s) @
     '' p50='' @ fmt_ns (s_p50_ns s) @
     '' p90='' @ fmt_ns (s_p90_ns s) @
     '' p99='' @ fmt_ns (s_p99_ns s) @
     '' p99.9='' @ fmt_ns (s_p999_ns s) @
     '' max='' @ fmt_ns (s_max_ns s) @
     '' mean='' @ fmt_ns (s_mean_ns s)"

section \<open>Buckets\<close>

lemma position_Some:
  "position p xs = Some i \<Longrightarrow> i < length xs \<and> p (xs ! i) \<and> (\<forall>j < i. \<not> p (xs ! j))"
proof (induction xs arbitrary: i)
  case Nil
  then show ?case by simp
next
  case (Cons x xs)
  then show ?case by (auto split: if_splits simp: nth_Cons split: nat.splits)
qed

lemma position_ex: "x \<in> set xs \<Longrightarrow> p x \<Longrightarrow> \<exists>i. position p xs = Some i"
  by (induction xs) auto

lemma length_bounds [simp]: "length BUCKET_BOUNDS_NS = 21"
  by (simp add: BUCKET_BOUNDS_NS_def)

lemma bucket_index_position:
  "position (\<lambda>b. x \<le> b) BUCKET_BOUNDS_NS = Some (bucket_index x)"
proof -
  have "- 1 \<in> set BUCKET_BOUNDS_NS" by (simp add: BUCKET_BOUNDS_NS_def)
  then obtain i where "position (\<lambda>b. x \<le> b) BUCKET_BOUNDS_NS = Some i"
    using position_ex [of "- 1" BUCKET_BOUNDS_NS "\<lambda>b. x \<le> b"] by auto
  then show ?thesis by (simp add: bucket_index_def)
qed

lemma bucket_index_less [simp]: "bucket_index x < 21"
  using position_Some [OF bucket_index_position [of x]] by simp

lemma bucket_bound: "x \<le> BUCKET_BOUNDS_NS ! bucket_index x"
  using position_Some [OF bucket_index_position [of x]] by simp

lemma bucket_below: "j < bucket_index x \<Longrightarrow> BUCKET_BOUNDS_NS ! j < x"
  using position_Some [OF bucket_index_position [of x]] by (simp add: not_le)

lemma bucket_index_mono: "x \<le> y \<Longrightarrow> bucket_index x \<le> bucket_index y"
  using bucket_below [of "bucket_index y" x] bucket_bound [of y] by (meson leD leI order_trans)

lemma bounds_sorted: "sorted BUCKET_BOUNDS_NS"
  by (simp add: BUCKET_BOUNDS_NS_def)

lemma bounds_mono: "i \<le> j \<Longrightarrow> j < 21 \<Longrightarrow> BUCKET_BOUNDS_NS ! i \<le> BUCKET_BOUNDS_NS ! j"
  using sorted_nth_mono [OF bounds_sorted] by simp

lemma bucket_index_iff:
  assumes "i < 21"
  shows "bucket_index x = i \<longleftrightarrow>
    x \<le> BUCKET_BOUNDS_NS ! i \<and> (0 < i \<longrightarrow> BUCKET_BOUNDS_NS ! (i - 1) < x)"
proof
  assume "bucket_index x = i"
  then show "x \<le> BUCKET_BOUNDS_NS ! i \<and> (0 < i \<longrightarrow> BUCKET_BOUNDS_NS ! (i - 1) < x)"
    using bucket_bound [of x] bucket_below [of "i - 1" x] by auto
next
  assume a: "x \<le> BUCKET_BOUNDS_NS ! i \<and> (0 < i \<longrightarrow> BUCKET_BOUNDS_NS ! (i - 1) < x)"
  then have "\<not> i < bucket_index x" using bucket_below by (meson leD)
  moreover have "\<not> bucket_index x < i"
  proof
    assume l: "bucket_index x < i"
    then have "BUCKET_BOUNDS_NS ! bucket_index x \<le> BUCKET_BOUNDS_NS ! (i - 1)"
      using assms by (intro bounds_mono) simp_all
    moreover have "BUCKET_BOUNDS_NS ! (i - 1) < x" using a l by (cases i) simp_all
    ultimately show False using bucket_bound [of x] by (meson leD order_trans)
  qed
  ultimately show "bucket_index x = i" by simp
qed

section \<open>The state after a list of samples\<close>

definition histogram_of :: "u64 list \<Rightarrow> latency_histogram" where
  "histogram_of xs = fold record_ns xs histogram_new"

definition in_bucket :: "nat \<Rightarrow> u64 list \<Rightarrow> nat" where
  "in_bucket i xs = length (filter (\<lambda>x. bucket_index x = i) xs)"

lemma histogram_of_Nil [simp]: "histogram_of [] = histogram_new"
  by (simp add: histogram_of_def)

lemma histogram_of_snoc [simp]: "histogram_of (xs @ [x]) = record_ns x (histogram_of xs)"
  by (simp add: histogram_of_def)

lemma histogram_count_of: "lh_count (histogram_of xs) = of_nat (length xs)"
  by (induction xs rule: rev_induct) (simp_all add: histogram_new_def record_ns_def Let_def)

lemma histogram_sum_of: "sum_ns (histogram_of xs) = of_nat (sum_list (map unat xs))"
proof (induction xs rule: rev_induct)
  case Nil
  then show ?case by (simp add: histogram_new_def)
next
  case (snoc x xs)
  have "(ucast x :: u128) = of_nat (unat x)" by simp
  with snoc show ?case by (simp add: record_ns_def Let_def)
qed

lemma histogram_buckets_of:
  "buckets (histogram_of xs) = map (\<lambda>i. of_nat (in_bucket i xs)) [0..<21]"
proof (induction xs rule: rev_induct)
  case Nil
  then show ?case by (simp add: histogram_new_def in_bucket_def map_replicate_trivial)
next
  case (snoc x xs)
  show ?case
  proof (rule nth_equalityI)
    show "length (buckets (histogram_of (xs @ [x]))) = length (map (\<lambda>i. of_nat (in_bucket i (xs @ [x])) :: u64) [0..<21])"
      by (simp add: record_ns_def Let_def snoc)
    fix i assume "i < length (buckets (histogram_of (xs @ [x])))"
    then have "i < 21" by (simp add: record_ns_def Let_def snoc)
    then show "buckets (histogram_of (xs @ [x])) ! i = map (\<lambda>i. of_nat (in_bucket i (xs @ [x]))) [0..<21] ! i"
      by (simp add: record_ns_def Let_def snoc nth_list_update in_bucket_def)
  qed
qed

lemma record_ns_min_max:
  "min_ns (record_ns x h) = min x (min_ns h)" "max_ns (record_ns x h) = max x (max_ns h)"
  by (auto simp: record_ns_def Let_def min_def max_def)

lemma histogram_min_max_of:
  "xs \<noteq> [] \<Longrightarrow> min_ns (histogram_of xs) = Min (set xs) \<and> max_ns (histogram_of xs) = Max (set xs)"
proof (induction xs rule: rev_induct)
  case Nil
  then show ?case by simp
next
  case (snoc x xs)
  show ?case
  proof (cases "xs = []")
    case True
    have "histogram_of (xs @ [x]) = record_ns x histogram_new" using True by (simp add: histogram_of_def)
    then show ?thesis using True
      by (auto simp: histogram_new_def record_ns_def Let_def not_less word_gt_0
          word_order.extremum_unique)
  next
    case False
    have "Min (set (xs @ [x])) = min x (Min (set xs))" "Max (set (xs @ [x])) = max x (Max (set xs))"
      using False by simp_all
    with snoc False show ?thesis unfolding histogram_of_snoc by (simp add: record_ns_min_max)
  qed
qed

lemma sum_in_bucket: "sum_list (map (\<lambda>i. in_bucket i xs) [0..<n]) = length (filter (\<lambda>x. bucket_index x < n) xs)"
proof (induction n)
  case 0
  then show ?case by simp
next
  case (Suc n)
  have "length (filter (\<lambda>x. bucket_index x < Suc n) xs) =
      length (filter (\<lambda>x. bucket_index x < n) xs) + in_bucket n xs"
    unfolding in_bucket_def by (induction xs) auto
  with Suc show ?case by simp
qed

lemma in_bucket_le: "in_bucket i xs \<le> length xs"
  by (simp add: in_bucket_def)

lemma unat_buckets_of:
  assumes "length xs < 2 ^ 64"
  shows "map unat (buckets (histogram_of xs)) = map (\<lambda>i. in_bucket i xs) [0..<21]"
  using assms
  by (auto simp: histogram_buckets_of intro!: unat_of_nat64_small le_less_trans [OF in_bucket_le])

lemma sum_list_unat_bound: "sum_list (map unat (xs :: u64 list)) \<le> length xs * (2 ^ 64 - 1)"
proof (induction xs)
  case (Cons x xs)
  then show ?case using unat_lt64 [of x] by simp
qed simp

lemma sum_list_unat_Min: "xs \<noteq> [] \<Longrightarrow> unat (Min (set (xs :: u64 list))) * length xs \<le> sum_list (map unat xs)"
proof -
  have "m * length ys \<le> sum_list (map unat ys)" if "\<forall>y \<in> set ys. m \<le> unat y" for m and ys :: "u64 list"
    using that by (induction ys) auto
  from this [of xs "unat (Min (set xs))"] show "xs \<noteq> [] \<Longrightarrow> ?thesis"
    by (simp add: word_le_nat_alt [symmetric])
qed

lemma sum_list_unat_Max: "xs \<noteq> [] \<Longrightarrow> sum_list (map unat (xs :: u64 list)) \<le> unat (Max (set xs)) * length xs"
proof -
  have "sum_list (map unat ys) \<le> m * length ys" if "\<forall>y \<in> set ys. unat y \<le> m" for m and ys :: "u64 list"
    using that by (induction ys) auto
  from this [of xs "unat (Max (set xs))"] show "xs \<noteq> [] \<Longrightarrow> ?thesis"
    by (simp add: word_le_nat_alt [symmetric])
qed

lemma unat_ucast_u128: "unat (ucast (x :: u64) :: u128) = unat x"
  using unat_lt64 [of x] by (simp add: unsigned_ucast_eq take_bit_nat_eq_self)

lemma sum_ns_exact:
  assumes "length xs < 2 ^ 64"
  shows "unat (sum_ns (histogram_of xs)) = sum_list (map unat xs)"
proof -
  have "sum_list (map unat xs) \<le> 2 ^ 64 * (2 ^ 64 - 1)"
    using sum_list_unat_bound [of xs] assms by (meson less_imp_le mult_le_mono1 order_trans)
  then have "sum_list (map unat xs) < 2 ^ 128" by simp
  then show ?thesis by (simp add: histogram_sum_of unat_of_nat)
qed

section \<open>Ranks\<close>

lemma sorted_filter_le:
  fixes s :: "nat list"
  assumes "sorted s" "t < length s"
  shows "t < length (filter (\<lambda>x. x \<le> k) s) \<longleftrightarrow> s ! t \<le> k"
  using assms
proof (induction s arbitrary: t)
  case Nil
  then show ?case by simp
next
  case (Cons a s)
  show ?case
  proof (cases "a \<le> k")
    case True
    then show ?thesis using Cons by (cases t) auto
  next
    case False
    then have "\<forall>x \<in> set (a # s). \<not> x \<le> k" using Cons.prems(1) by auto
    then have "filter (\<lambda>x. x \<le> k) (a # s) = []" "\<not> (a # s) ! t \<le> k"
      using nth_mem [OF Cons.prems(2)] by (auto simp: filter_empty_conv simp del: filter.simps)
    then show ?thesis by simp
  qed
qed

lemma rank_bucket:
  assumes "t < length xs"
  shows "t < length (filter (\<lambda>x. bucket_index x \<le> k) xs) \<longleftrightarrow> bucket_index (sort xs ! t) \<le> k"
proof -
  have s: "sorted (map bucket_index (sort xs))"
    by (rule sorted_map_mono [OF sorted_sort]) (simp add: bucket_index_mono mono_on_def)
  have "length (filter (\<lambda>x. bucket_index x \<le> k) xs) = length (filter (\<lambda>x. bucket_index x \<le> k) (sort xs))"
    by (simp add: filter_sort)
  also have "\<dots> = length (filter (\<lambda>x. x \<le> k) (map bucket_index (sort xs)))"
    by (simp add: filter_map comp_def)
  finally show ?thesis using sorted_filter_le [OF s, of t k] assms by simp
qed

lemma quantile_scan_finds:
  assumes "k < length bs" "unat cum + sum_list (map unat bs) < 2 ^ 64"
    and "unat target \<le> unat cum + sum_list (map unat (take (Suc k) bs))"
    and "\<And>j. j < k \<Longrightarrow> unat cum + sum_list (map unat (take (Suc j) bs)) < unat target"
  shows "quantile_scan target cum i bs = Some (BUCKET_BOUNDS_NS ! (i + k))"
  using assms
proof (induction bs arbitrary: cum i k)
  case Nil
  then show ?case by simp
next
  case (Cons b bs)
  have u: "unat (cum + b) = unat cum + unat b"
    using Cons.prems(2) by (simp add: unat_word_ariths)
  show ?case
  proof (cases k)
    case 0
    then have "target \<le> cum + b" using Cons.prems(3) by (simp add: word_le_nat_alt u)
    then show ?thesis using 0 by simp
  next
    case (Suc k')
    have "\<not> target \<le> cum + b" using Cons.prems(4) [of 0] Suc by (simp add: word_le_nat_alt u)
    moreover have "quantile_scan target (cum + b) (i + 1) bs = Some (BUCKET_BOUNDS_NS ! (i + 1 + k'))"
    proof (rule Cons.IH)
      show "unat (cum + b) + sum_list (map unat (take (Suc j) bs)) < unat target" if "j < k'" for j
        using Cons.prems(4) [of "Suc j"] that Suc by (simp add: u)
    qed (use Cons.prems Suc in \<open>simp_all add: u\<close>)
    ultimately show ?thesis using Suc by simp
  qed
qed

lemma sum_take_buckets:
  assumes "length xs < 2 ^ 64" "k < 21"
  shows "sum_list (map unat (take (Suc k) (buckets (histogram_of xs)))) =
    length (filter (\<lambda>x. bucket_index x \<le> k) xs)"
proof -
  have "map unat (take (Suc k) (buckets (histogram_of xs))) =
      map (\<lambda>i. in_bucket i xs) (take (Suc k) [0..<21])"
    using unat_buckets_of [OF assms(1)] by (simp add: take_map [symmetric])
  also have "take (Suc k) [0..<21] = [0..<Suc k]" using assms(2) by (simp add: take_upt)
  finally have "sum_list (map unat (take (Suc k) (buckets (histogram_of xs)))) =
      length (filter (\<lambda>x. bucket_index x < Suc k) xs)" by (simp only: sum_in_bucket)
  then show ?thesis by (simp add: less_Suc_eq_le)
qed

lemma quantile_scan_rank:
  assumes "length xs < 2 ^ 64" "0 < unat target" "unat target \<le> length xs"
  shows "quantile_scan target 0 0 (buckets (histogram_of xs)) =
    Some (BUCKET_BOUNDS_NS ! bucket_index (sort xs ! (unat target - 1)))"
proof -
  let ?k = "bucket_index (sort xs ! (unat target - 1))"
  have last_rank: "unat target - 1 < length xs" using assms(2,3) by linarith
  have len: "length (buckets (histogram_of xs)) = 21" by (simp add: histogram_buckets_of)
  have "quantile_scan target 0 0 (buckets (histogram_of xs)) = Some (BUCKET_BOUNDS_NS ! (0 + ?k))"
  proof (rule quantile_scan_finds)
    show "?k < length (buckets (histogram_of xs))" by (simp add: len)
    have "sum_list (map unat (buckets (histogram_of xs))) = length xs"
      using sum_in_bucket [of xs 21] by (simp add: unat_buckets_of [OF assms(1)])
    then show "unat (0 :: u64) + sum_list (map unat (buckets (histogram_of xs))) < 2 ^ 64"
      using assms(1) by simp
    show "unat target \<le> unat (0 :: u64) + sum_list (map unat (take (Suc ?k) (buckets (histogram_of xs))))"
      using rank_bucket [of "unat target - 1" xs ?k] assms(2,3) last_rank
      by (simp add: sum_take_buckets [OF assms(1)])
    show "unat (0 :: u64) + sum_list (map unat (take (Suc j) (buckets (histogram_of xs)))) < unat target"
      if "j < ?k" for j
    proof -
      have "j < 21" using that bucket_index_less less_trans by blast
      then show ?thesis
        using rank_bucket [of "unat target - 1" xs j] assms(2,3) that last_rank
        by (simp add: sum_take_buckets [OF assms(1)])
    qed
  qed
  then show ?thesis by simp
qed

section \<open>The rank computed in floating point\<close>

text \<open>The nearest rank of the fraction \<open>a / b\<close> among \<open>n\<close> samples, from 1.\<close>

definition nearest_rank :: "nat \<Rightarrow> nat \<Rightarrow> nat \<Rightarrow> nat" where
  "nearest_rank a b n = max 1 ((n * a + b - 1) div b)"

lemma ceiling_nat_div:
  assumes "0 < b"
  shows "\<lceil>of_int (int (n * a)) / real b\<rceil> = int ((n * a + b - 1) div b)"
proof -
  have "\<lceil>of_int (int (n * a)) / real b\<rceil> = - ((- int (n * a)) div int b)"
    using ceiling_divide_eq_div [of "int (n * a)" "int b"] by simp
  also have "\<dots> = (int (n * a) + int b - 1) div int b"
  proof -
    define r where "r = (- int (n * a)) mod int b"
    define d where "d = (- int (n * a)) div int b"
    have "- int (n * a) = d * int b + r" "0 \<le> r" "r < int b"
      using assms by (simp_all add: d_def r_def)
    then have "int (n * a) + int b - 1 = (int b - 1 - r) + (- d) * int b" "0 \<le> int b - 1 - r"
      "int b - 1 - r < int b" by (simp_all add: algebra_simps)
    then have "(int (n * a) + int b - 1) div int b = - d"
      using assms by (simp only: div_mult_self1 div_pos_pos_trivial)
    then show ?thesis by (simp add: d_def)
  qed
  also have "\<dots> = int ((n * a + b - 1) div b)" using assms by (simp add: zdiv_int of_nat_diff)
  finally show ?thesis .
qed

lemma product_ceiling:
  assumes "0 < n" "n \<le> 2 ^ 42" "0 < a" "a \<le> b" "b \<le> 1000"
    and q: "\<bar>q - real a / real b\<bar> \<le> real a / real b * pw (- 55)" "0 \<le> q"
  shows "\<lceil>rnd (real n * q)\<rceil> = \<lceil>of_int (int (n * a)) / real b\<rceil>"
proof -
  let ?x = "real n * q" and ?z = "of_int (int (n * a)) / real b"
  have z: "?z = real n * (real a / real b)" by simp
  have dist: "\<bar>?x - ?z\<bar> \<le> ?z * pw (- 55)"
  proof -
    have "\<bar>?x - ?z\<bar> = real n * \<bar>q - real a / real b\<bar>"
      unfolding z right_diff_distrib [symmetric] abs_mult by simp
    also have "\<dots> \<le> real n * (real a / real b * pw (- 55))" by (rule mult_left_mono [OF q(1)]) simp
    finally show ?thesis by (simp add: z)
  qed
  have ab: "real a / real b \<le> 1" using assms(3,4) by simp
  have n42: "real n \<le> 2 ^ 42" using assms(2) by (metis of_nat_le_iff of_nat_numeral of_nat_power)
  have "real n * (real a / real b) \<le> real n * 1" by (rule mult_left_mono [OF ab]) simp
  then have zn: "?z \<le> 2 ^ 42" using n42 unfolding z by linarith
  show ?thesis
  proof (cases "int b dvd int (n * a)")
    case True
    then obtain t where t: "int (n * a) = int b * t" by (rule dvdE)
    have zt: "?z = of_int t" using assms(3,4) unfolding t by simp
    have "0 < t" using t assms(1,3,4) by (metis mult_pos_pos of_nat_0_less_iff order_less_le_trans zero_less_mult_pos)
    moreover have "t \<le> 2 ^ 42" using zn unfolding zt by (metis of_int_le_iff of_int_numeral of_int_power)
    ultimately have "rnd ?x = of_int t" using rnd_near_int dist zt by metis
    then show ?thesis by (simp only: zt ceiling_of_int)
  next
    case False
    have p55: "pw (- 55) = 1 / 2 ^ 55" by (simp add: pw_uminus pw_nat)
    have "?z * pw (- 55) \<le> 2 ^ 42 * pw (- 55)" by (rule mult_right_mono [OF zn]) simp
    also have "2 ^ 42 * pw (- 55) = 1 / 8192" by (simp add: p55)
    finally have d: "\<bar>?x - ?z\<bar> \<le> 1 / 8192" using dist by (rule order_trans [rotated])
    have "?x - ?z \<le> 1" using d by (simp only: abs_le_iff) (elim conjE, erule order_trans, simp)
    moreover have "(2 :: real) ^ 42 + 1 < 2 ^ 43" by simp
    ultimately have "?x < 2 ^ 43" using zn by linarith
    then have "?x < pw (- 10 + 53)" by (simp add: pw_nat)
    then have "0 < ?x \<Longrightarrow> fexp ?x \<le> - 10" using fexp_le [of ?x "- 10"] by simp
    then have "0 < ?x \<Longrightarrow> pw (fexp ?x) \<le> pw (- 10)" by simp
    moreover have "pw (- 10) = 1 / 1024" using pw_uminus [of 10] by (simp add: pw_nat)
    ultimately have "\<bar>rnd ?x - ?x\<bar> \<le> 1 / 2048"
      using rnd_error [of ?x] q(2) assms(1) by (cases "q = 0") force+
    then have "\<bar>rnd ?x - ?z\<bar> < 1 / 1000" using d by linarith
    then show ?thesis
      using ceiling_frac_stable [of "int b" "int n" "int a" "rnd ?x"] assms(3,4,5) False by simp
  qed
qed

lemma quantile_target_exact:
  assumes "0 < n" "n \<le> 2 ^ 42" "0 < a" "a \<le> b" "b \<le> 1000" "f64_is f q" "0 \<le> q"
    and "\<bar>q - real a / real b\<bar> \<le> real a / real b * pw (- 55)"
  shows "unat (quantile_target (of_nat n) f) = nearest_rank a b n"
proof -
  let ?x = "rnd (real n * q)" and ?r = "(n * a + b - 1) div b"
  have n64: "n < 2 ^ 53" using assms(2) by simp
  have un: "unat (of_nat n :: u64) = n" using n64 by (intro unat_of_nat64_small) simp
  have c: "\<lceil>?x\<rceil> = int ?r"
    using product_ceiling [OF assms(1-5,8,7)] ceiling_nat_div [of b n a] assms(3,4) by simp
  have "n * a + b - 1 \<le> n * b + b - 1" using assms(4) by (simp add: diff_le_mono)
  then have "?r \<le> (n * b + b - 1) div b" by (rule div_le_mono)
  also have "\<dots> = n"
  proof -
    have "n * b + b - 1 = (b - 1) + n * b" "b - 1 < b" using assms(3,4) by simp_all
    then show ?thesis using assms(3,4) by (simp only: div_mult_self1) simp
  qed
  finally have rn: "?r \<le> n" .
  have "real a / real b \<le> 1" using assms(3,4) by simp
  moreover have "pw (- 55) \<le> pw 0" by (subst pw_le_iff) simp
  ultimately have "real a / real b * pw (- 55) \<le> 1" using mult_le_one [of "real a / real b" "pw (- 55)"] by simp
  with assms(8) \<open>real a / real b \<le> 1\<close> have q2: "q \<le> 2" by (simp only: abs_le_iff) linarith
  have "real n \<le> 2 ^ 42" using assms(2) by (metis of_nat_le_iff of_nat_numeral of_nat_power)
  with q2 have "real n * q \<le> 2 ^ 42 * 2" by (intro mult_mono) (use assms(7) in simp_all)
  also have "\<dots> \<le> pw 1000" using pw_mono [of 43 1000] by (simp add: pw_nat [of 43])
  finally have "f64_is (f64_mul (f64_of_u64 (of_nat n)) f) (rnds (real n * q))"
    using f64_mul_is [OF f64_of_u64_exact [of "of_nat n"] assms(6)] un n64 assms(7) by simp
  then have "f64_is (f64_mul (f64_of_u64 (of_nat n)) f) ?x" using assms(7) by (simp add: rnds_nonneg)
  moreover have "0 \<le> ?x" using assms(7) by (intro rnd_nonneg) simp
  moreover have "?x \<le> 2 ^ 52"
  proof -
    have "?x \<le> of_int (int ?r)" using c by (metis le_of_int_ceiling)
    also have "\<dots> \<le> real n" using rn by simp
    finally show ?thesis using \<open>real n \<le> 2 ^ 42\<close> by simp
  qed
  ultimately have "f64_to_u64 (f64_ceil (f64_mul (f64_of_u64 (of_nat n)) f)) = of_nat ?r"
    using f64_ceil_to_u64 c by (metis of_int_of_nat_eq)
  moreover have "unat (of_nat ?r :: u64) = ?r" using rn n64 by (intro unat_of_nat64_small) simp
  ultimately show ?thesis
    by (simp add: quantile_target_def nearest_rank_def max_def word_le_nat_alt)
qed

section \<open>Properties\<close>

text \<open>The percentiles a summary holds: the literal, its value and the fraction meant.\<close>

definition percentile_of :: "f64 \<Rightarrow> nat \<Rightarrow> nat \<Rightarrow> bool" where
  "percentile_of f a b \<longleftrightarrow>
     f = f64_lit (int a) (int b) \<and> (a, b) \<in> {(50, 100), (90, 100), (99, 100), (999, 1000)}"

lemma percentile_value:
  assumes "percentile_of f a b"
  obtains q where "f64_is f q" "0 \<le> q"
    "\<bar>q - real a / real b\<bar> \<le> real a / real b * pw (- 55)"
proof -
  have lits: "f64_lit 50 100 = F_Fin False 4503599627370496 (- 53)"
    "f64_lit 90 100 = F_Fin False 8106479329266893 (- 53)"
    "f64_lit 99 100 = F_Fin False 8917127262193582 (- 53)"
    "f64_lit 999 1000 = F_Fin False 8998192055486251 (- 53)"
    by code_simp+
  have p: "pw (- 53) = 1 / 2 ^ 53" "pw (- 55) = 1 / 2 ^ 55" by (simp_all add: pw_uminus pw_nat)
  have "f64_is f (f64_val f) \<and> 0 \<le> f64_val f \<and>
      \<bar>f64_val f - real a / real b\<bar> \<le> real a / real b * pw (- 55)"
    using assms unfolding percentile_of_def by (auto simp: f64_is_def lits p)
  then show ?thesis using that by blast
qed

lemma quantile_target_rank:
  assumes "percentile_of f a b" "0 < n" "n \<le> 2 ^ 42"
  shows "unat (quantile_target (of_nat n) f) = nearest_rank a b n"
proof -
  obtain q where "f64_is f q" "0 \<le> q" "\<bar>q - real a / real b\<bar> \<le> real a / real b * pw (- 55)"
    by (rule percentile_value [OF assms(1)])
  moreover have "0 < a" "a \<le> b" "b \<le> 1000" using assms(1) by (auto simp: percentile_of_def)
  ultimately show ?thesis using quantile_target_exact assms(2,3) by blast
qed

lemma nearest_rank_range:
  assumes "percentile_of f a b" "0 < n"
  shows "0 < nearest_rank a b n" and "nearest_rank a b n \<le> n"
proof -
  have ab: "0 < a" "a \<le> b" using assms(1) by (auto simp: percentile_of_def)
  show "0 < nearest_rank a b n" by (simp add: nearest_rank_def)
  have "n * a \<le> n * b" using ab by simp
  then have "n * a + b - 1 \<le> n * b + (b - 1)" using ab by linarith
  then have "(n * a + b - 1) div b \<le> (n * b + (b - 1)) div b" by (rule div_le_mono)
  also have "\<dots> = (b - 1 + n * b) div b" by (simp only: add.commute)
  also have "\<dots> = n" using ab by (simp only: div_mult_self1) simp
  finally show "nearest_rank a b n \<le> n" using assms(2) by (simp add: nearest_rank_def)
qed

lemma quantile_rank:
  assumes "percentile_of f a b" "xs \<noteq> []" "length xs \<le> 2 ^ 42"
  shows "quantile (histogram_of xs) f =
    BUCKET_BOUNDS_NS ! bucket_index (sort xs ! (nearest_rank a b (length xs) - 1))"
proof -
  let ?t = "quantile_target (of_nat (length xs)) f"
  have n: "0 < length xs" "length xs < 2 ^ 64" using assms(2,3) by simp_all
  then have "lh_count (histogram_of xs) \<noteq> 0"
    using unat_of_nat64_small [of "length xs"] by (simp add: histogram_count_of) (metis unat_0 not_gr_zero n(1))
  moreover have "unat ?t = nearest_rank a b (length xs)"
    by (rule quantile_target_rank [OF assms(1) n(1) assms(3)])
  ultimately show ?thesis
    using quantile_scan_rank [OF n(2), of ?t] nearest_rank_range [OF assms(1) n(1)]
    by (simp add: quantile_def histogram_count_of)
qed

text \<open>C32. What a histogram holds after any list of fewer than \<open>2\<^sup>6\<^sup>4\<close> samples, with
  wrapping counters: the exact number of samples, the exact sum (128 bits never overflow),
  the smallest and the largest sample, and in each bucket the number of samples that are at
  most its bound and above the bound before it. Every sample is in one bucket.\<close>

theorem histogram_exact:
  assumes "xs \<noteq> []" "length xs < 2 ^ 64"
  shows "unat (histogram_count (histogram_of xs)) = length xs \<and>
    unat (sum_ns (histogram_of xs)) = sum_list (map unat xs) \<and>
    min_ns (histogram_of xs) = Min (set xs) \<and> max_ns (histogram_of xs) = Max (set xs) \<and>
    map unat (buckets (histogram_of xs)) =
      map (\<lambda>i. length (filter (\<lambda>x. x \<le> BUCKET_BOUNDS_NS ! i \<and>
                                (0 < i \<longrightarrow> BUCKET_BOUNDS_NS ! (i - 1) < x)) xs)) [0..<21] \<and>
    sum_list (map unat (buckets (histogram_of xs))) = length xs"
proof -
  have bk: "bucket_index x = i \<longleftrightarrow>
      x \<le> BUCKET_BOUNDS_NS ! i \<and> (0 < i \<longrightarrow> BUCKET_BOUNDS_NS ! (i - 1) < x)" if "i < 21" for x i
    by (rule bucket_index_iff [OF that])
  have "map unat (buckets (histogram_of xs)) =
      map (\<lambda>i. length (filter (\<lambda>x. x \<le> BUCKET_BOUNDS_NS ! i \<and>
                                (0 < i \<longrightarrow> BUCKET_BOUNDS_NS ! (i - 1) < x)) xs)) [0..<21]"
    unfolding unat_buckets_of [OF assms(2)] in_bucket_def by (rule map_cong [OF refl]) (simp add: bk)
  moreover have "sum_list (map unat (buckets (histogram_of xs))) = length xs"
    using sum_in_bucket [of xs 21] by (simp add: unat_buckets_of [OF assms(2)])
  moreover have "unat (histogram_count (histogram_of xs)) = length xs"
    using unat_of_nat64_small [OF assms(2)] by (simp add: histogram_count_def histogram_count_of)
  ultimately show ?thesis using sum_ns_exact [OF assms(2)] histogram_min_max_of [OF assms(1)] by blast
qed

theorem histogram_exact_witness:
  "unat (histogram_count (histogram_of [100, 2000, 800])) = 3 \<and>
   min_ns (histogram_of [100, 2000, 800]) = 100 \<and> max_ns (histogram_of [100, 2000, 800]) = 2000"
  using histogram_exact [of "[100, 2000, 800]"] by simp

text \<open>C31. The percentiles of a summary, with the rank computed in \<open>f64\<close>, for up to
  \<open>2\<^sup>4\<^sup>2\<close> samples: rounding never shifts the rank, which is the exact nearest rank
  \<open>\<lceil>n a / b\<rceil>\<close>, and the percentile is the inclusive upper bound of the bucket that holds the
  sample of that rank in sorted order. The fallback to the maximum is never taken, and the
  percentiles are ordered.\<close>

theorem summary_percentiles:
  assumes "xs \<noteq> []" "length xs \<le> 2 ^ 42"
  shows "let s = summary (histogram_of xs);
             bound = (\<lambda>a b. BUCKET_BOUNDS_NS ! bucket_index (sort xs ! (nearest_rank a b (length xs) - 1)))
         in s_p50_ns s = bound 50 100 \<and> s_p90_ns s = bound 90 100 \<and>
            s_p99_ns s = bound 99 100 \<and> s_p999_ns s = bound 999 1000 \<and>
            s_p50_ns s \<le> s_p90_ns s \<and> s_p90_ns s \<le> s_p99_ns s \<and> s_p99_ns s \<le> s_p999_ns s"
proof -
  let ?n = "length xs"
  let ?bound = "\<lambda>a b. BUCKET_BOUNDS_NS ! bucket_index (sort xs ! (nearest_rank a b ?n - 1))"
  note P = quantile_rank [OF _ assms]
  have p: "percentile_of (f64_lit 50 100) 50 100" "percentile_of (f64_lit 90 100) 90 100"
    "percentile_of (f64_lit 99 100) 99 100" "percentile_of (f64_lit 999 1000) 999 1000"
    by (simp_all add: percentile_of_def)
  have n: "0 < ?n" using assms(1) by simp
  have "nearest_rank 50 100 ?n \<le> nearest_rank 90 100 ?n" "nearest_rank 90 100 ?n \<le> nearest_rank 99 100 ?n"
    "nearest_rank 99 100 ?n \<le> nearest_rank 999 1000 ?n"
    unfolding nearest_rank_def by (intro max.mono order_refl; simp; linarith)+
  moreover have "?bound a b \<le> ?bound c d"
    if "nearest_rank a b ?n \<le> nearest_rank c d ?n" "nearest_rank c d ?n \<le> ?n" for a b c d
  proof -
    have "sort xs ! (nearest_rank a b ?n - 1) \<le> sort xs ! (nearest_rank c d ?n - 1)"
      using that by (intro sorted_nth_mono) (auto simp: nearest_rank_def)
    then show ?thesis by (intro bounds_mono bucket_index_mono) simp_all
  qed
  ultimately show ?thesis
    unfolding Let_def summary_def latency_summary.simps P [OF p(1)] P [OF p(2)] P [OF p(3)] P [OF p(4)]
    using nearest_rank_range(2) [OF p(2) n] nearest_rank_range(2) [OF p(3) n]
      nearest_rank_range(2) [OF p(4) n] by blast
qed

theorem summary_percentiles_witness:
  "s_p50_ns (summary (histogram_of [900, 900, 40000])) = 1000 \<and>
   s_p999_ns (summary (histogram_of [900, 900, 40000])) = 50000"
proof -
  have "BUCKET_BOUNDS_NS ! bucket_index 900 = 1000" "BUCKET_BOUNDS_NS ! bucket_index 40000 = 50000"
    by code_simp+
  then show ?thesis
    using summary_percentiles [of "[900, 900, 40000]"] by (simp add: Let_def nearest_rank_def)
qed

text \<open>The mean of a summary is the exact mean rounded down, and lies between the
  minimum and the maximum.\<close>

theorem summary_mean:
  assumes "xs \<noteq> []" "length xs < 2 ^ 64"
  shows "let s = summary (histogram_of xs)
         in unat (s_count s) = length xs \<and>
            unat (s_mean_ns s) = sum_list (map unat xs) div length xs \<and>
            s_min_ns s = Min (set xs) \<and> s_max_ns s = Max (set xs) \<and>
            s_min_ns s \<le> s_mean_ns s \<and> s_mean_ns s \<le> s_max_ns s"
proof -
  let ?h = "histogram_of xs" and ?n = "length xs" and ?S = "sum_list (map unat xs)"
  have n: "0 < ?n" using assms(1) by simp
  have c: "unat (lh_count ?h) = ?n" using assms(2) by (simp add: histogram_count_of unat_of_nat64_small)
  then have nz: "lh_count ?h \<noteq> 0" using n by auto
  have bnd: "unat (Min (set xs)) * ?n \<le> ?S" "?S \<le> unat (Max (set xs)) * ?n"
    by (rule sum_list_unat_Min, rule assms(1), rule sum_list_unat_Max, rule assms(1))
  have lo: "unat (Min (set xs)) \<le> ?S div ?n" using bnd(1) n by (simp add: less_eq_div_iff_mult_less_eq)
  have hi: "?S div ?n \<le> unat (Max (set xs))" using bnd(2) n by (metis div_le_mono nonzero_mult_div_cancel_right not_gr_zero)
  have "unat (sum_ns ?h div ucast (lh_count ?h)) = ?S div ?n"
    by (simp add: unat_div sum_ns_exact [OF assms(2)] c unat_ucast_u128)
  then have mean: "unat (ucast (sum_ns ?h div ucast (lh_count ?h)) :: u64) = ?S div ?n"
    using hi unat_lt64 [of "Max (set xs)"] by (simp add: unsigned_ucast_eq take_bit_nat_eq_self)
  show ?thesis
    using c nz mean lo hi histogram_min_max_of [OF assms(1)]
    by (simp add: Let_def summary_def word_le_nat_alt)
qed

theorem summary_mean_witness:
  "unat (s_mean_ns (summary (histogram_of [100, 2000, 801]))) = 967"
  using summary_mean [of "[100, 2000, 801]"] by (simp add: Let_def)

end
