(* ===== verification/Engine_Inline.thy ===== *)
theory Engine_Inline
  imports Strategy Ring Latency
begin

text \<open>
  The trading engine (\<open>trading-engine/src/main.rs\<close>): what both of its modes share, sending an order and the
  metrics of the report, and the mode without workers, \<open>run_inline\<close>. An iteration takes the clock's readings as
  arguments. The lemmas show that the loop computes the orders of \<open>strategy_run\<close> over the ticks
  it takes, and offers each to the orders ring once.
\<close>

section \<open>Sending an order\<close>

definition try_publish_order :: "order_msg \<Rightarrow> ring_ends \<Rightarrow> bool \<times> ring_ends" where
  "try_publish_order order s = ring_push (order_bytes order) s"

text \<open>The assertion of \<open>try_publish\<close> holds for every order.\<close>

lemma try_publish_order_no_panic:
  assumes "order_wf order"
  shows "try_publish (order_bytes order) r p \<noteq> Inl e"
  using length_order_bytes [OF assms]
  by (simp add: try_publish_def Let_def SLOT_PAYLOAD_def layout_simps)

definition queued_orders :: "ring_ends \<Rightarrow> order_msg list" where
  "queued_orders s = map order_of_bytes (ends_queue s)"

lemma try_publish_order_cases:
  assumes "ends_ok s" "order_wf m"
  obtains (sent) s' where "try_publish_order m s = (True, s')" "ends_ok s'"
      "queued_orders s' = queued_orders s @ [m]" "length (queued_orders s) < RING_CAPACITY"
    | (full) "try_publish_order m s = (False, s)" "length (queued_orders s) = RING_CAPACITY"
proof -
  have fits: "fits_slot (order_bytes m)"
    using length_order_bytes [OF assms(2)] by (simp add: fits_slot_def SLOT_PAYLOAD_def layout_simps)
  have dec: "order_of_bytes (pad_payload (order_bytes m)) = m"
    unfolding pad_payload_def by (rule order_of_order_bytes [OF assms(2)])
  from assms(1) fits show ?thesis
  proof (cases rule: ring_fifo.push_cases)
    case (accepted s')
    then show ?thesis using sent [of s'] dec by (simp add: try_publish_order_def queued_orders_def)
  next
    case full
    then show ?thesis using that(2) ring_fifo.bounded [OF assms(1)]
      by (simp add: try_publish_order_def queued_orders_def)
  qed
qed

text \<open>The orders of the strategy have the shape the ring needs, when its ticks do.\<close>

lemma strategy_step_wf:
  assumes "strategy_step ps now t st i = ((Some m, dev), st', i')" "tick_wf t"
  shows "order_wf m"
  using assms
  by (auto simp: strategy_step_def Let_def order_wf_def tick_wf_def split: if_splits)

section \<open>The loop without workers\<close>

record inline_engine =
  ie_ticks :: ring_ends
  ie_orders :: ring_ends
  ie_state :: strategy_state
  ie_next_order_id :: u64
  ie_ticks_seen :: u64
  ie_orders_sent :: u64
  ie_orders_dropped :: u64
  ie_shm_transit :: latency_histogram
  ie_end_to_end :: latency_histogram
  ie_idle_spin :: u32

definition inline_init :: "ring_ends \<Rightarrow> ring_ends \<Rightarrow> inline_engine" where
  "inline_init ticks orders =
     \<lparr>ie_ticks = ticks, ie_orders = orders, ie_state = (\<lambda>s. None), ie_next_order_id = 1,
      ie_ticks_seen = 0, ie_orders_sent = 0, ie_orders_dropped = 0, ie_shm_transit = histogram_new,
      ie_end_to_end = histogram_new, ie_idle_spin = 0\<rparr>"

text \<open>One turn of the loop. The clock is read when a tick is taken and again in \<open>strategy_step\<close>.\<close>

definition inline_iteration :: "strategy_params \<Rightarrow> u64 \<times> u64 \<Rightarrow> inline_engine \<Rightarrow> inline_engine" where
  "inline_iteration ps clk e =
     (case ring_pop (ie_ticks e) of
        (None, s) \<Rightarrow> e\<lparr>ie_ticks := s, ie_idle_spin := snd (idle_backoff (ie_idle_spin e))\<rparr>
      | (Some buf, s) \<Rightarrow>
          let tick = tick_of_bytes buf;
              consume_ts = fst clk;
              e1 = e\<lparr>ie_ticks := s, ie_idle_spin := 0, ie_ticks_seen := ie_ticks_seen e + 1,
                     ie_shm_transit := record_ns (saturating_sub consume_ts (mt_recv_ts_ns tick)) (ie_shm_transit e),
                     ie_end_to_end := record_ns (saturating_sub consume_ts (mt_exch_ts_ns tick)) (ie_end_to_end e)\<rparr>;
              ((order_opt, dev), st, i) = strategy_step ps (snd clk) tick (ie_state e1) (ie_next_order_id e1);
              e2 = e1\<lparr>ie_state := st, ie_next_order_id := i\<rparr>
          in (case order_opt of
                None \<Rightarrow> e2
              | Some order \<Rightarrow>
                  let (ok, s1) = try_publish_order order (ie_orders e2); e3 = e2\<lparr>ie_orders := s1\<rparr>
                  in if \<not> ok then e3\<lparr>ie_orders_dropped := ie_orders_dropped e3 + 1\<rparr>
                     else e3\<lparr>ie_orders_sent := ie_orders_sent e3 + 1\<rparr>))"

text \<open>The loop over a list of turns: the stop flag, the monotonic clock and the two readings.\<close>

record inline_round =
  ir_stop :: bool
  ir_now :: nat
  ir_clk :: "u64 \<times> u64"

fun inline_loop :: "strategy_params \<Rightarrow> nat option \<Rightarrow> inline_round list \<Rightarrow> inline_engine \<Rightarrow> inline_engine \<times> bool" where
  "inline_loop ps deadline [] e = (e, False)"
| "inline_loop ps deadline (r # rs) e =
     (if ir_stop r \<or> (case deadline of None \<Rightarrow> False | Some d \<Rightarrow> d \<le> ir_now r) then (e, True)
      else inline_loop ps deadline rs (inline_iteration ps (ir_clk r) e))"

section \<open>Metrics\<close>

record engine_metrics =
  em_ticks_consumed :: u64
  em_ticks_dropped_dispatch :: u64
  em_orders_emitted :: u64
  em_orders_dropped_ring_full :: u64
  em_elapsed_secs :: f64
  em_throughput_ticks_per_sec :: f64
  em_shm_transit :: latency_summary
  em_end_to_end :: latency_summary
  em_worker_dispatch :: "latency_summary list"

definition engine_metrics_of ::
  "u64 \<Rightarrow> u64 \<Rightarrow> u64 \<Rightarrow> u64 \<Rightarrow> f64 \<Rightarrow> latency_histogram \<Rightarrow> latency_histogram \<Rightarrow> latency_summary list
   \<Rightarrow> engine_metrics" where
  "engine_metrics_of ticks_seen ticks_dropped orders_sent orders_dropped elapsed shm_transit end_to_end worker_dispatch =
     \<lparr>em_ticks_consumed = ticks_seen, em_ticks_dropped_dispatch = ticks_dropped,
      em_orders_emitted = orders_sent, em_orders_dropped_ring_full = orders_dropped,
      em_elapsed_secs = elapsed,
      em_throughput_ticks_per_sec =
        (if f64_lt (f64_lit 0 1) elapsed then f64_div (f64_of_u64 ticks_seen) elapsed else f64_lit 0 1),
      em_shm_transit = summary shm_transit, em_end_to_end = summary end_to_end,
      em_worker_dispatch = worker_dispatch\<rparr>"

text \<open>\<open>run_inline\<close> ends with no dispatch drops and no workers.\<close>

definition inline_metrics :: "f64 \<Rightarrow> inline_engine \<Rightarrow> engine_metrics" where
  "inline_metrics elapsed e =
     engine_metrics_of (ie_ticks_seen e) 0 (ie_orders_sent e) (ie_orders_dropped e) elapsed
       (ie_shm_transit e) (ie_end_to_end e) []"

section \<open>The loop computes the strategy\<close>

definition inline_ok :: "inline_engine \<Rightarrow> bool" where
  "inline_ok e \<longleftrightarrow> ends_ok (ie_ticks e) \<and> ends_ok (ie_orders e)"

definition queued_market_ticks :: "inline_engine \<Rightarrow> market_tick list" where
  "queued_market_ticks e = map tick_of_bytes (ends_queue (ie_ticks e))"

text \<open>
  The effect of turns with clocks \<open>clks\<close>: the ticks taken, run through the strategy, and its
  orders offered to the ring in order, as many as there is room for going in.
\<close>

definition ran :: "strategy_params \<Rightarrow> (u64 \<times> u64) list \<Rightarrow> inline_engine \<Rightarrow> inline_engine \<Rightarrow> bool" where
  "ran ps clks e e' \<longleftrightarrow>
     (let ts = take (length clks) (queued_market_ticks e);
          (os, st, i) = strategy_run ps (zip (map snd clks) ts) (ie_state e) (ie_next_order_id e);
          room = RING_CAPACITY - length (queued_orders (ie_orders e))
      in inline_ok e' \<and> queued_market_ticks e' = drop (length clks) (queued_market_ticks e) \<and>
         ie_state e' = st \<and> ie_next_order_id e' = i \<and>
         ie_ticks_seen e' = ie_ticks_seen e + of_nat (length ts) \<and>
         queued_orders (ie_orders e') = queued_orders (ie_orders e) @ take room os \<and>
         ie_orders_sent e' = ie_orders_sent e + of_nat (min room (length os)) \<and>
         ie_orders_dropped e' = ie_orders_dropped e + of_nat (length os - room))"

lemma popped_tick_wf:
  assumes "ends_ok s" "ends_queue s = buf # bufs"
  shows "tick_wf (tick_of_bytes buf)"
proof -
  obtain r p c where s: "s = (r, p, c)" by (cases s) auto
  have wf: "ring_wf r" and q: "ring_queue r = buf # bufs" using assms by (auto simp: s ends_ok_def ends_queue_def)
  have "0 < queue_len r" using q by (metis length_ring_queue length_greater_0_conv list.discI)
  then have "buf = slot_payload (ring_slots r ! slot_index (ring_tail r))"
    using q by (simp add: ring_queue_def upt_rec)
  then have "length buf = SLOT_PAYLOAD" using ring_wf_payload [OF wf] by simp
  then show ?thesis by (intro tick_wf_of_bytes) (simp add: SLOT_PAYLOAD_def layout_simps)
qed

lemma inline_iteration_empty:
  assumes "inline_ok e" "queued_market_ticks e = []"
  shows "inline_iteration ps clk e = e\<lparr>ie_idle_spin := snd (idle_backoff (ie_idle_spin e))\<rparr>"
  using assms ring_fifo.pop_none [of "ie_ticks e"]
  by (simp add: inline_iteration_def inline_ok_def queued_market_ticks_def)

text \<open>One turn on a waiting tick.\<close>

lemma inline_iteration_tick:
  assumes "inline_ok e" "queued_market_ticks e = t # ts"
    and step: "strategy_step ps (snd clk) t (ie_state e) (ie_next_order_id e) = ((ord, dev), st, i)"
  shows "inline_ok (inline_iteration ps clk e) \<and> queued_market_ticks (inline_iteration ps clk e) = ts \<and>
    ie_state (inline_iteration ps clk e) = st \<and> ie_next_order_id (inline_iteration ps clk e) = i \<and>
    ie_ticks_seen (inline_iteration ps clk e) = ie_ticks_seen e + 1 \<and>
    (case ord of
       None \<Rightarrow> ie_orders (inline_iteration ps clk e) = ie_orders e \<and>
         ie_orders_sent (inline_iteration ps clk e) = ie_orders_sent e \<and>
         ie_orders_dropped (inline_iteration ps clk e) = ie_orders_dropped e
     | Some m \<Rightarrow>
         if length (queued_orders (ie_orders e)) < RING_CAPACITY
         then queued_orders (ie_orders (inline_iteration ps clk e)) = queued_orders (ie_orders e) @ [m] \<and>
           ie_orders_sent (inline_iteration ps clk e) = ie_orders_sent e + 1 \<and>
           ie_orders_dropped (inline_iteration ps clk e) = ie_orders_dropped e
         else ie_orders (inline_iteration ps clk e) = ie_orders e \<and>
           ie_orders_sent (inline_iteration ps clk e) = ie_orders_sent e \<and>
           ie_orders_dropped (inline_iteration ps clk e) = ie_orders_dropped e + 1)"
proof -
  obtain buf bufs where q: "ends_queue (ie_ticks e) = buf # bufs" and t: "t = tick_of_bytes buf" "ts = map tick_of_bytes bufs"
    using assms(2) by (auto simp: queued_market_ticks_def)
  have ok: "ends_ok (ie_ticks e)" "ends_ok (ie_orders e)" using assms(1) by (auto simp: inline_ok_def)
  obtain s where s: "ring_pop (ie_ticks e) = (Some buf, s)" "ends_ok s" "ends_queue s = bufs"
    using ring_fifo.pop_some [OF ok(1) q] by blast
  have wf: "order_wf m" if "ord = Some m" for m
    using strategy_step_wf [OF step [unfolded that]] popped_tick_wf [OF ok(1) q] t(1) by simp
  show ?thesis
  proof (cases ord)
    case None
    then show ?thesis using s step ok t
      by (simp add: inline_iteration_def inline_ok_def queued_market_ticks_def Let_def)
  next
    case (Some m)
    from ok(2) wf [OF Some] show ?thesis
      by (cases rule: try_publish_order_cases)
        (use s step ok t Some in \<open>simp_all add: inline_iteration_def inline_ok_def queued_market_ticks_def Let_def\<close>)
  qed
qed

lemma ran_iterations: "inline_ok e \<Longrightarrow> ran ps clks e (fold (inline_iteration ps) clks e)"
proof (induction clks arbitrary: e)
  case Nil
  then show ?case by (simp add: ran_def)
next
  case (Cons clk clks)
  let ?e = "inline_iteration ps clk e"
  show ?case
  proof (cases "queued_market_ticks e")
    case Nil
    have e: "?e = e\<lparr>ie_idle_spin := snd (idle_backoff (ie_idle_spin e))\<rparr>"
      by (rule inline_iteration_empty [OF Cons.prems Nil])
    have q: "queued_market_ticks ?e = []" "inline_ok ?e"
      using Nil Cons.prems by (simp_all add: e queued_market_ticks_def inline_ok_def)
    show ?thesis using Cons.IH [OF q(2)] Nil q(1) by (simp add: ran_def e)
  next
    case (Cons t ts)
    obtain ord dev st i where step: "strategy_step ps (snd clk) t (ie_state e) (ie_next_order_id e) = ((ord, dev), st, i)"
      by (metis prod.exhaust)
    note one = inline_iteration_tick [OF Cons.prems Cons step]
    obtain os st2 i2 where run: "strategy_run ps (zip (map snd clks) (take (length clks) ts)) st i = (os, st2, i2)"
      by (metis prod_cases3)
    have IH: "ran ps clks ?e (fold (inline_iteration ps) clks ?e)" using Cons.IH one by blast
    show ?thesis
    proof (cases ord)
      case None
      then show ?thesis using IH one step run Cons by (simp add: ran_def Let_def)
    next
      case (Some m)
      show ?thesis
      proof (cases "length (queued_orders (ie_orders e)) < RING_CAPACITY")
        case True
        define room1 where "room1 = RING_CAPACITY - Suc (length (queued_orders (ie_orders e)))"
        have room: "RING_CAPACITY - length (queued_orders (ie_orders e)) = Suc room1"
          "RING_CAPACITY - length (queued_orders (ie_orders ?e)) = room1"
          using True one Some by (simp_all add: room1_def Suc_diff_Suc)
        show ?thesis using True IH one step run Cons Some unfolding ran_def room
          by (simp add: Let_def algebra_simps)
      next
        case False
        then show ?thesis using IH one step run Cons Some by (simp add: ran_def Let_def)
      qed
    qed
  qed
qed

lemma inline_loop_iterations:
  "\<exists>n \<le> length rs. inline_loop ps deadline rs e = (fold (inline_iteration ps) (map ir_clk (take n rs)) e, n < length rs)"
proof (induction rs arbitrary: e)
  case Nil
  then show ?case by simp
next
  case (Cons r rs)
  show ?case
  proof (cases "ir_stop r \<or> (case deadline of None \<Rightarrow> False | Some d \<Rightarrow> d \<le> ir_now r)")
    case True
    then show ?thesis by (intro exI [of _ 0]) simp
  next
    case False
    obtain n where "n \<le> length rs"
      "inline_loop ps deadline rs (inline_iteration ps (ir_clk r) e) =
        (fold (inline_iteration ps) (map ir_clk (take n rs)) (inline_iteration ps (ir_clk r) e), n < length rs)"
      using Cons.IH by blast
    then show ?thesis using False by (intro exI [of _ "Suc n"]) simp
  qed
qed

text \<open>C15. The engine without workers computes its strategy: from the start, whatever the clocks, the
  orders are those of the strategy over the ticks taken, oldest first, with numbers from 2 on.
  Each is offered to the orders ring once and in order, the ones there is no room for are counted
  as dropped and the rest as sent, and every tick taken is counted.\<close>

theorem inline_mode_runs_strategy:
  assumes "ends_ok ticks" and "ends_ok orders"
    and "inline_loop ps deadline rs (inline_init ticks orders) = (e, fin)"
  shows "\<exists>n \<le> length rs.
    (fin \<longleftrightarrow> n < length rs) \<and>
    (let ts = take n (map tick_of_bytes (ends_queue ticks));
         (os, st, i) = strategy_run ps (zip (map (snd \<circ> ir_clk) (take n rs)) ts) (\<lambda>s. None) 1;
         room = RING_CAPACITY - length (ends_queue orders)
     in ie_state e = st \<and> ie_next_order_id e = i \<and>
        map tick_of_bytes (ends_queue (ie_ticks e)) = drop n (map tick_of_bytes (ends_queue ticks)) \<and>
        ie_ticks_seen e = of_nat (length ts) \<and>
        queued_orders (ie_orders e) = queued_orders orders @ take room os \<and>
        ie_orders_sent e = of_nat (min room (length os)) \<and>
        ie_orders_dropped e = of_nat (length os - room))"
proof -
  let ?e = "inline_init ticks orders"
  have ok: "inline_ok ?e" using assms(1,2) by (simp add: inline_ok_def inline_init_def)
  obtain n where n: "n \<le> length rs"
    "(e, fin) = (fold (inline_iteration ps) (map ir_clk (take n rs)) ?e, n < length rs)"
    using inline_loop_iterations [of rs ps deadline ?e] assms(3) by auto
  have "ran ps (map ir_clk (take n rs)) ?e e" using ran_iterations [OF ok] n(2) by simp
  then show ?thesis using n
    by (intro exI [of _ n])
      (simp add: ran_def Let_def inline_init_def queued_market_ticks_def queued_orders_def min_absorb2 split: prod.splits)
qed

theorem inline_mode_runs_strategy_witness:
  "\<exists>s e. ring_push (tick_bytes [0, 0, 0, 0] (demo_tick 100 200)) fresh_ends = (True, s) \<and>
     inline_loop demo_params None [\<lparr>ir_stop = False, ir_now = 0, ir_clk = (5, 6)\<rparr>] (inline_init s fresh_ends) = (e, False) \<and>
     ie_ticks_seen e = 1 \<and> ends_queue (ie_ticks e) = []"
proof -
  let ?rs = "[\<lparr>ir_stop = False, ir_now = 0, ir_clk = (5 :: u64, 6 :: u64)\<rparr>]"
  have wf: "tick_wf (demo_tick 100 200)" by (simp add: tick_wf_def demo_tick_def SYMBOL_LEN_def)
  have "fits_slot (tick_bytes [0, 0, 0, 0] (demo_tick 100 200))"
    using length_tick_bytes [OF wf, of "[0, 0, 0, 0]"] by (simp add: fits_slot_def SLOT_PAYLOAD_def layout_simps)
  then obtain s where s: "ring_push (tick_bytes [0, 0, 0, 0] (demo_tick 100 200)) fresh_ends = (True, s)" "ends_ok s"
    "length (ends_queue s) = 1"
    using ring_push_room [OF fresh_ends_ok(1)] by (fastforce simp: fresh_ends_ok(2))
  obtain e fin where r: "inline_loop demo_params None ?rs (inline_init s fresh_ends) = (e, fin)" by force
  then have "\<not> fin" by auto
  then show ?thesis
    using s r inline_mode_runs_strategy [OF s(2) fresh_ends_ok(1) r]
    by (auto simp: Let_def case_prod_beta le_Suc_eq simp del: inline_loop.simps)
qed

end
