(* ===== verification/Cpu_List.thy ===== *)
theory Cpu_List
  imports Text
begin

text \<open>
  CPU lists in the syntax of Linux, \<open>parse_cpu_list\<close> and \<open>format_cpu_list\<close> of
  \<open>shmbus/src/cpu.rs\<close>. A \<open>usize\<close> is a natural number below \<open>2\<^sup>6\<^sup>4\<close>; the addition the
  formatting does on one is written with its wrap-around. The loops over indices are
  recursive functions on the index.
\<close>

section \<open>Parsing\<close>

definition USIZE_BOUND :: nat where "USIZE_BOUND = 2 ^ 64"

fun stringify_err :: "parse_int_error \<Rightarrow> string" where
  "stringify_err PIE_Empty = ''cannot parse integer from empty string''"
| "stringify_err PIE_InvalidDigit = ''invalid digit found in string''"
| "stringify_err PIE_PosOverflow = ''number too large to fit in target type''"

definition parse_usize :: "string \<Rightarrow> string + nat" where
  "parse_usize s = (case parse_uint USIZE_BOUND s of Inl e \<Rightarrow> Inl (stringify_err e) | Inr v \<Rightarrow> Inr v)"

text \<open>One part between commas: the numbers it adds, or the error it returns.\<close>

definition parse_part :: "string \<Rightarrow> string + nat list" where
  "parse_part part =
     (case split_once CHR ''-'' part of
        Some (a, b) \<Rightarrow>
          (case parse_usize (trim a) of
             Inl e \<Rightarrow> Inl e
           | Inr lo \<Rightarrow>
               (case parse_usize (trim b) of
                  Inl e \<Rightarrow> Inl e
                | Inr hi \<Rightarrow>
                    if hi < lo
                    then Inl (''invalid range: '' @ show_nat lo @ ''-'' @ show_nat hi)
                    else Inr [lo..<Suc hi]))
      | None \<Rightarrow> (case parse_usize part of Inl e \<Rightarrow> Inl e | Inr v \<Rightarrow> Inr [v]))"

fun parse_parts :: "nat list \<Rightarrow> string list \<Rightarrow> string + nat list" where
  "parse_parts out [] = Inr out"
| "parse_parts out (p # ps) =
     (case parse_part p of Inl e \<Rightarrow> Inl e | Inr vs \<Rightarrow> parse_parts (out @ vs) ps)"

definition parse_cpu_list :: "string \<Rightarrow> string + nat list" where
  "parse_cpu_list s = parse_parts [] (filter (\<lambda>p. p \<noteq> []) (map trim (split_on CHR '','' s)))"

section \<open>Formatting\<close>

text \<open>The inner loop: the last index of the run of consecutive numbers that starts at \<open>j\<close>.\<close>

function run_end :: "nat list \<Rightarrow> nat \<Rightarrow> nat" where
  "run_end xs j =
     (if j + 1 < length xs \<and> xs ! (j + 1) = (xs ! j + 1) mod USIZE_BOUND then run_end xs (j + 1) else j)"
  by auto
termination
  by (relation "measure (\<lambda>(xs, j). length xs - j)") auto

declare run_end.simps [simp del]

lemma run_end_ge: "j \<le> run_end xs j"
  by (induction xs j rule: run_end.induct) (subst run_end.simps, auto)

text \<open>What one turn of the outer loop appends for the run from index \<open>i\<close> to \<open>j\<close>.\<close>

definition run_text :: "nat list \<Rightarrow> nat \<Rightarrow> nat \<Rightarrow> string" where
  "run_text xs i j =
     (if i = j then show_nat (xs ! i) else show_nat (xs ! i) @ CHR ''-'' # show_nat (xs ! j))"

definition append_run :: "string \<Rightarrow> nat list \<Rightarrow> nat \<Rightarrow> nat \<Rightarrow> string" where
  "append_run out xs i j = (if out \<noteq> [] then out @ '','' else out) @ run_text xs i j"

function format_loop :: "nat list \<Rightarrow> nat \<Rightarrow> string \<Rightarrow> string" where
  "format_loop xs i out =
     (if i < length xs
      then let j = run_end xs i in format_loop xs (j + 1) (append_run out xs i j)
      else out)"
  by auto
termination
  by (relation "measure (\<lambda>(xs, i, out). length xs - i)")
    (auto intro: diff_less_mono2 le_less_trans [OF run_end_ge] simp: less_Suc_eq_le run_end_ge)

declare format_loop.simps [simp del]

definition format_cpu_list :: "nat list \<Rightarrow> string" where
  "format_cpu_list cpus =
     (if cpus = [] then [] else format_loop (remdups_adj (sort cpus)) 0 [])"

section \<open>Parsing what is joined with commas\<close>

lemma split_on_append: "split_on c (a @ c # b) = split_on c a @ split_on c b"
proof (induction a)
  case Nil
  then show ?case by simp
next
  case (Cons x a)
  show ?case
  proof (cases "x = c")
    case True
    with Cons show ?thesis by simp
  next
    case False
    obtain p ps where "split_on c a = p # ps" using split_on_ne [of c a] by (cases "split_on c a") auto
    with False Cons show ?thesis by simp
  qed
qed

lemma parse_parts_append:
  "parse_parts out (ps @ qs) =
     (case parse_parts out ps of Inl e \<Rightarrow> Inl e | Inr v \<Rightarrow> parse_parts v qs)"
  by (induction ps arbitrary: out) (auto split: sum.splits)

lemma parse_parts_single:
  "parse_parts out [p] = (case parse_part p of Inl e \<Rightarrow> Inl e | Inr vs \<Rightarrow> Inr (out @ vs))"
  by (auto split: sum.splits)

text \<open>A part that is not changed by splitting and trimming.\<close>

definition plain_part :: "string \<Rightarrow> bool" where
  "plain_part p \<longleftrightarrow> p \<noteq> [] \<and> CHR '','' \<notin> set p \<and> trim p = p"

lemma parse_cpu_list_part:
  "plain_part p \<Longrightarrow> parse_cpu_list p = parse_part p"
  by (auto simp: plain_part_def parse_cpu_list_def split_on_id split: sum.splits)

lemma parse_cpu_list_snoc:
  assumes "plain_part p"
  shows "parse_cpu_list (s @ CHR '','' # p) =
    (case parse_cpu_list s of Inl e \<Rightarrow> Inl e
     | Inr v \<Rightarrow> (case parse_part p of Inl e \<Rightarrow> Inl e | Inr vs \<Rightarrow> Inr (v @ vs)))"
  using assms
proof -
  have "filter (\<lambda>p. p \<noteq> []) (map trim (split_on CHR '','' (s @ CHR '','' # p))) =
      filter (\<lambda>p. p \<noteq> []) (map trim (split_on CHR '','' s)) @ [p]"
    using assms by (simp add: plain_part_def split_on_append split_on_id)
  then show ?thesis
    by (simp only: parse_cpu_list_def parse_parts_append parse_parts_single)
qed

lemma parse_usize_show_nat [simp]: "n < USIZE_BOUND \<Longrightarrow> parse_usize (show_nat n) = Inr n"
  by (simp add: parse_usize_def)

lemma plain_show_nat [simp]: "plain_part (show_nat n)"
  by (simp add: plain_part_def)

lemma plain_range [simp]: "plain_part (show_nat a @ CHR ''-'' # show_nat b)"
  by (simp add: plain_part_def) (rule trim_digits, simp_all add: last_append hd_append)

lemma parse_part_single: "n < USIZE_BOUND \<Longrightarrow> parse_part (show_nat n) = Inr [n]"
  by (simp add: parse_part_def split_once_None [THEN iffD2])

lemma parse_part_range:
  "a < USIZE_BOUND \<Longrightarrow> b < USIZE_BOUND \<Longrightarrow>
   parse_part (show_nat a @ CHR ''-'' # show_nat b) =
     (if b < a then Inl (''invalid range: '' @ show_nat a @ ''-'' @ show_nat b) else Inr [a..<Suc b])"
  by (simp add: parse_part_def split_once_sep)

section \<open>The loop over runs\<close>

lemma run_end_less: "j < length xs \<Longrightarrow> run_end xs j < length xs"
  by (induction xs j rule: run_end.induct) (subst run_end.simps, simp)

lemma run_end_run:
  assumes "\<forall>x \<in> set xs. x < USIZE_BOUND" "sorted_wrt (<) xs" "j < length xs" "k \<le> run_end xs j" "j \<le> k"
  shows "xs ! k = xs ! j + (k - j)"
  using assms
proof (induction xs j arbitrary: k rule: run_end.induct)
  case (1 xs j)
  show ?case
  proof (cases "j + 1 < length xs \<and> xs ! (j + 1) = (xs ! j + 1) mod USIZE_BOUND")
    case False
    then have "run_end xs j = j" by (subst run_end.simps) (simp only: if_False)
    then have "k = j" using 1(5,6) by simp
    then show ?thesis by simp
  next
    case True
    have "xs ! j < xs ! (j + 1)"
      by (rule sorted_wrt_nth_less [OF 1(3)]) (use True in simp_all)
    then have next_val: "xs ! (j + 1) = xs ! j + 1" using True by (metis mod_le_divisor mod_less
          USIZE_BOUND_def le_antisym less_eq_Suc_le Suc_eq_plus1 mod_less_eq_dividend)
    have re: "run_end xs j = run_end xs (j + 1)"
      using True by (subst run_end.simps) (simp only: if_True simp_thms)
    show ?thesis
    proof (cases "k = j")
      case False
      then show ?thesis
        using 1(1) [OF True 1(2,3), of k] 1(5,6) True re next_val by simp
    qed simp
  qed
qed

lemma run_slice:
  assumes "\<forall>x \<in> set xs. x < USIZE_BOUND" "sorted_wrt (<) xs" "i < length xs"
  shows "take i xs @ [xs ! i..<Suc (xs ! run_end xs i)] = take (Suc (run_end xs i)) xs"
proof -
  let ?j = "run_end xs i"
  have j: "i \<le> ?j" "?j < length xs" using run_end_ge run_end_less assms(3) by blast+
  have "xs ! ?j = xs ! i + (?j - i)" by (rule run_end_run [OF assms order_refl j(1)])
  then have len: "length [xs ! i..<Suc (xs ! ?j)] = Suc ?j - i"
    using j(1) by (simp only: length_upt)
  have "[xs ! i..<Suc (xs ! ?j)] = take (Suc ?j - i) (drop i xs)"
  proof (rule nth_equalityI)
    show "length [xs ! i..<Suc (xs ! ?j)] = length (take (Suc ?j - i) (drop i xs))"
      using j by (simp only: len length_take length_drop)
    fix k assume k: "k < length [xs ! i..<Suc (xs ! ?j)]"
    then have "xs ! (i + k) = xs ! i + k"
      using run_end_run [OF assms, of "i + k"] j unfolding len by simp
    with k show "[xs ! i..<Suc (xs ! ?j)] ! k = take (Suc ?j - i) (drop i xs) ! k"
      unfolding len using assms(3) len by (simp del: upt_Suc)
  qed
  moreover have "take i xs @ take (Suc ?j - i) (drop i xs) = take (Suc ?j) xs"
    using take_add [of i "Suc ?j - i" xs] j(1) by simp
  ultimately show ?thesis by simp
qed

text \<open>The invariant of the outer loop: the text so far parses to the numbers passed.\<close>

lemma format_loop_parses:
  assumes "\<forall>x \<in> set xs. x < USIZE_BOUND" "sorted_wrt (<) xs" "i \<le> length xs"
    and "parse_cpu_list out = Inr (take i xs)" "out = [] \<longleftrightarrow> i = 0"
  shows "parse_cpu_list (format_loop xs i out) = Inr xs"
  using assms
proof (induction xs i out rule: format_loop.induct)
  case (1 xs i out)
  show ?case
  proof (cases "i < length xs")
    case False
    then show ?thesis using 1(4,5) by (subst format_loop.simps) simp
  next
    case True
    let ?j = "run_end xs i"
    let ?p = "run_text xs i ?j" and ?out = "append_run out xs i ?j"
    have j: "i \<le> ?j" "?j < length xs" using run_end_ge run_end_less True by blast+
    have step: "format_loop xs i out = format_loop xs (?j + 1) ?out"
      using True by (subst format_loop.simps) (simp add: Let_def)
    have b: "xs ! i < USIZE_BOUND" "xs ! ?j < USIZE_BOUND" using 1(2) True j by simp_all
    have le: "xs ! i \<le> xs ! ?j" using run_end_run [OF 1(2,3) True order_refl j(1)] by simp
    have p: "plain_part ?p" by (simp add: run_text_def)
    have v: "parse_part ?p = Inr [xs ! i..<Suc (xs ! ?j)]"
      using b le by (auto simp: run_text_def parse_part_single parse_part_range simp del: upt_Suc)
        (simp add: upt_rec)
    note slice = run_slice [OF 1(2,3) True]
    have "parse_cpu_list ?out = Inr (take (Suc ?j) xs)"
    proof (cases "out = []")
      case True
      then have "i = 0" using 1(6) by simp
      then have "[xs ! i..<Suc (xs ! ?j)] = take (Suc ?j) xs" using slice by simp
      with True p v show ?thesis by (simp only: append_run_def parse_cpu_list_part append_Nil simp_thms if_False)
    next
      case False
      then have "?out = out @ CHR '','' # ?p" by (simp add: append_run_def)
      then show ?thesis using p v 1(5) slice by (simp only: parse_cpu_list_snoc sum.case)
    qed
    moreover have "?out \<noteq> []" using p by (simp add: append_run_def plain_part_def)
    ultimately show ?thesis
      unfolding step by (intro 1(1) [OF True refl 1(2,3)]) (use j in \<open>simp_all add: Suc_le_eq\<close>)
  qed
qed

lemma strictly_sorted_dedup: "sorted_wrt (<) (remdups_adj (sort (cpus :: nat list)))"
proof -
  have "sorted xs \<Longrightarrow> distinct_adj xs \<Longrightarrow> sorted_wrt (<) xs" for xs :: "nat list"
  proof (induction xs rule: induct_list012)
    case (3 x y zs)
    then have "x < y" "\<forall>z \<in> set zs. y \<le> z" by auto
    with 3 show ?case by auto
  qed auto
  then show ?thesis by simp
qed

lemma dedup_set: "set (remdups_adj (sort (cpus :: nat list))) = set cpus"
  by simp

lemma dedup_sorted_list: "remdups_adj (sort cpus) = sorted_list_of_set (set (cpus :: nat list))"
  using strictly_sorted_dedup [of cpus]
  by (metis dedup_set finite_set sorted_list_of_set.idem_if_sorted_distinct strict_sorted_iff)

lemma format_loop_round_trip:
  assumes "\<forall>c \<in> set cpus. c < 2 ^ 64"
  shows "parse_cpu_list (format_cpu_list cpus) = Inr (sorted_list_of_set (set cpus))"
proof (cases "cpus = []")
  case True
  then show ?thesis by (simp add: format_cpu_list_def parse_cpu_list_def)
next
  case False
  let ?xs = "remdups_adj (sort cpus)"
  have "parse_cpu_list (format_loop ?xs 0 []) = Inr ?xs"
    by (rule format_loop_parses)
      (use assms in \<open>simp_all add: USIZE_BOUND_def strictly_sorted_dedup parse_cpu_list_def\<close>)
  then show ?thesis using False by (simp add: format_cpu_list_def dedup_sorted_list)
qed

text \<open>C39. The round trip: parsing the rendered form of any list of CPU numbers gives its
  numbers in ascending order, each once, for all the lists of \<open>usize\<close>, however long the runs
  and up to the largest number, where \<open>sorted[j] + 1\<close> never wraps around.\<close>

theorem parse_format_cpu_list:
  assumes "\<forall>c \<in> set cpus. c < 2 ^ 64"
  shows "parse_cpu_list (format_cpu_list cpus) = Inr (sorted_list_of_set (set cpus))"
  by (rule format_loop_round_trip [OF assms])

theorem parse_format_cpu_list_witness:
  "parse_cpu_list (format_cpu_list [3, 18446744073709551615, 2, 0, 3]) =
     Inr [0, 2, 3, 18446744073709551615]"
proof -
  have "sorted_list_of_set (set [3, 18446744073709551615, 2, 0, 3]) = [0, 2, 3, 18446744073709551615 :: nat]"
    by (simp only: sorted_list_of_set_sort_remdups) simp
  then show ?thesis
    using parse_format_cpu_list [of "[3, 18446744073709551615, 2, 0, 3]"] by simp
qed

lemma parse_usize_bound: "parse_usize s = Inr v \<Longrightarrow> v < 2 ^ 64"
  using parse_uint_bound [of USIZE_BOUND s v] by (auto simp: parse_usize_def USIZE_BOUND_def split: sum.splits)

lemma parse_part_bound: "parse_part p = Inr vs \<Longrightarrow> v \<in> set vs \<Longrightarrow> v < 2 ^ 64"
  by (auto simp: parse_part_def split: option.splits sum.splits if_splits dest!: parse_usize_bound)

lemma parse_parts_bound:
  "parse_parts out ps = Inr vs \<Longrightarrow> \<forall>v \<in> set out. v < 2 ^ 64 \<Longrightarrow> v \<in> set vs \<Longrightarrow> v < 2 ^ 64"
proof (induction ps arbitrary: out)
  case Nil
  then show ?case by simp
next
  case (Cons p ps)
  then obtain ws where ws: "parse_part p = Inr ws" "parse_parts (out @ ws) ps = Inr vs"
    by (auto split: sum.splits)
  have "\<forall>v \<in> set (out @ ws). v < 2 ^ 64"
    using Cons.prems(2) parse_part_bound [OF ws(1)] by auto
  then show ?case using Cons.IH [OF ws(2)] Cons.prems(3) by blast
qed

lemma parse_cpu_list_bound: "parse_cpu_list s = Inr vs \<Longrightarrow> \<forall>v \<in> set vs. v < 2 ^ 64"
  using parse_parts_bound [of "[]"] by (auto simp: parse_cpu_list_def)

text \<open>The rendered form depends on the set of numbers alone, and determines it: two lists
  are rendered the same exactly if they hold the same CPUs, whatever their order and
  duplicates.\<close>

theorem format_cpu_list_canonical:
  assumes "\<forall>c \<in> set xs \<union> set ys. c < 2 ^ 64"
  shows "format_cpu_list xs = format_cpu_list ys \<longleftrightarrow> set xs = set ys"
proof
  assume "format_cpu_list xs = format_cpu_list ys"
  then have "sorted_list_of_set (set xs) = sorted_list_of_set (set ys)"
    using format_loop_round_trip [of xs] format_loop_round_trip [of ys] assms by simp
  then show "set xs = set ys" by (metis finite_set set_sorted_list_of_set)
next
  assume eq: "set xs = set ys"
  have "remdups_adj (sort xs) = remdups_adj (sort ys)"
    using dedup_sorted_list [of xs] dedup_sorted_list [of ys] eq by simp
  moreover have "xs = [] \<longleftrightarrow> ys = []" using eq by auto
  ultimately show "format_cpu_list xs = format_cpu_list ys" by (simp add: format_cpu_list_def)
qed

theorem format_cpu_list_canonical_witness:
  "format_cpu_list [5, 6, 7, 0, 1, 3] = format_cpu_list [0, 1, 3, 5, 6, 7, 7]"
  using format_cpu_list_canonical [of "[5, 6, 7, 0, 1, 3]" "[0, 1, 3, 5, 6, 7, 7]"] by auto

text \<open>A range of two numbers, with any white space around them and around the part, gives all
  the numbers from the first to the second, both included; if the second is smaller the
  whole list is refused with an error that names the range.\<close>

theorem parse_cpu_range:
  assumes "lo < 2 ^ 64" "hi < 2 ^ 64" "\<forall>c \<in> set (w1 @ w2 @ w3 @ w4). is_whitespace c"
  shows "parse_cpu_list (w1 @ show_nat lo @ w2 @ CHR ''-'' # w3 @ show_nat hi @ w4) =
    (if hi < lo then Inl (''invalid range: '' @ show_nat lo @ ''-'' @ show_nat hi)
     else Inr [lo..<Suc hi])"
proof -
  let ?p = "show_nat lo @ w2 @ CHR ''-'' # w3 @ show_nat hi"
  have ws: "\<forall>c \<in> set w1. is_whitespace c" "\<forall>c \<in> set w2. is_whitespace c"
    "\<forall>c \<in> set w3. is_whitespace c" "\<forall>c \<in> set w4. is_whitespace c" using assms(3) by auto
  have sep: "\<not> is_whitespace CHR '',''" "\<not> is_whitespace CHR ''-''"
    by (simp_all add: is_whitespace_def)
  have nosep: "CHR '','' \<notin> set (w1 @ ?p @ w4)" "CHR ''-'' \<notin> set (show_nat lo @ w2)"
    using ws sep by auto
  have trims: "trim (w1 @ ?p @ w4) = ?p" "trim (show_nat lo @ w2) = show_nat lo"
    "trim (w3 @ show_nat hi) = show_nat hi"
    using ws trim_around [of w1 w4 ?p] trim_around [of "[]" w2 "show_nat lo"]
      trim_around [of w3 "[]" "show_nat hi"]
    by (simp_all add: is_digit_not_space hd_append last_append)
  have "parse_cpu_list (w1 @ ?p @ w4) = parse_part ?p"
    using nosep(1) trims(1) by (auto simp: parse_cpu_list_def split_on_id split: sum.splits)
  also have "\<dots> = (if hi < lo then Inl (''invalid range: '' @ show_nat lo @ ''-'' @ show_nat hi)
      else Inr [lo..<Suc hi])"
    using split_once_sep [OF nosep(2), of "w3 @ show_nat hi"] trims(2,3) assms(1,2)
    by (simp add: parse_part_def USIZE_BOUND_def)
  finally show ?thesis by simp
qed

theorem parse_cpu_range_witness:
  "parse_cpu_list '' 2 - 4 '' = Inr [2, 3, 4] \<and>
   parse_cpu_list ''5-3'' = Inl ''invalid range: 5-3''"
proof -
  have n: "show_nat 2 = ''2''" "show_nat 3 = ''3''" "show_nat 4 = ''4''" "show_nat 5 = ''5''"
    by code_simp+
  have w: "is_whitespace CHR '' ''" by (simp add: is_whitespace_def)
  show ?thesis
    using parse_cpu_range [of 2 4 "'' ''" "'' ''" "'' ''" "'' ''"] parse_cpu_range [of 5 3 "[]" "[]" "[]" "[]"] w
    by (simp add: n upt_rec)
qed

end
