(* ===== verification/Cpu_Info.thy ===== *)
theory Cpu_Info
  imports Cpu_List Float64_Real
    "HOL-Library.List_Lexorder" "HOL-Library.Product_Lexorder" "HOL-Library.Char_ord"
begin

text \<open>
  The probe of the host in \<open>shmbus/src/cpu.rs\<close>: \<open>read_cpu_info\<close> and its readers of
  \<open>/proc\<close> and \<open>/sys\<close>, and \<open>pin_to_cpus\<close>. The file system is two functions: the text of a
  file, \<open>None\<close> where reading fails, and the entries of a directory, with \<open>None\<close> for an entry
  that cannot be read. Paths are their text. The C library's CPU set and system call are
  an argument of \<open>pin_to_cpus\<close>.
\<close>

section \<open>Pinning\<close>

datatype pin_result = Pinned | PinFailed nat | PinPanicked

text \<open>
  What pinning asks of the C library, a \<open>cpu_set_t\<close> being the set of the CPUs in it: a zeroed set after \<open>CPU_ZERO\<close>,
  \<open>CPU_SET\<close>, which panics on an index that does not fit (\<open>None\<close>), and the system call
  \<open>sched_setaffinity\<close> with the error it reports.
\<close>

type_synonym cpu_set = "nat set"

record affinity_calls =
  ac_empty :: cpu_set
  ac_set :: "nat \<Rightarrow> cpu_set \<Rightarrow> cpu_set option"
  ac_setaffinity :: "cpu_set \<Rightarrow> nat option"

fun set_cpus :: "affinity_calls \<Rightarrow> nat list \<Rightarrow> cpu_set \<Rightarrow> cpu_set option" where
  "set_cpus ac [] cset = Some cset"
| "set_cpus ac (c # cs) cset =
     (case ac_set ac c cset of None \<Rightarrow> None | Some cset1 \<Rightarrow> set_cpus ac cs cset1)"

definition pin_to_cpus :: "affinity_calls \<Rightarrow> nat list \<Rightarrow> pin_result" where
  "pin_to_cpus ac cpus =
     (if cpus = [] then Pinned
      else case set_cpus ac cpus (ac_empty ac) of
             None \<Rightarrow> PinPanicked
           | Some cset \<Rightarrow> (case ac_setaffinity ac cset of None \<Rightarrow> Pinned | Some e \<Rightarrow> PinFailed e))"

definition pin_to_cpu :: "affinity_calls \<Rightarrow> nat \<Rightarrow> pin_result" where
  "pin_to_cpu ac cpu = pin_to_cpus ac [cpu]"

text \<open>What the documentation says of these calls: a \<open>cpu_set_t\<close> has \<open>CPU_SETSIZE\<close> bits, and an index beyond them
  is out of the bounds of its array.\<close>

definition CPU_SETSIZE :: nat where "CPU_SETSIZE = 1024"

definition cpu_set_ok :: "affinity_calls \<Rightarrow> bool" where
  "cpu_set_ok ac \<longleftrightarrow> ac_empty ac = {} \<and>
     (\<forall>c s. ac_set ac c s = (if c < CPU_SETSIZE then Some (insert c s) else None))"

text \<open>Pinning asks for exactly the CPUs of the list, and panics if one of them is no index of the set.\<close>

lemma set_cpus_ok:
  assumes "cpu_set_ok ac"
  shows "set_cpus ac cs s = (if \<forall>c \<in> set cs. c < CPU_SETSIZE then Some (s \<union> set cs) else None)"
  using assms by (induction cs arbitrary: s) (auto simp: cpu_set_ok_def)

lemma pin_to_cpus_ok:
  assumes "cpu_set_ok ac"
  shows "pin_to_cpus ac cs =
    (if cs = [] then Pinned else if \<exists>c \<in> set cs. CPU_SETSIZE \<le> c then PinPanicked
     else case ac_setaffinity ac (set cs) of None \<Rightarrow> Pinned | Some e \<Rightarrow> PinFailed e)"
proof -
  have "(\<forall>c \<in> set cs. c < CPU_SETSIZE) \<longleftrightarrow> \<not> (\<exists>c \<in> set cs. CPU_SETSIZE \<le> c)" by (auto simp: not_less)
  then show ?thesis using assms by (auto simp: pin_to_cpus_def set_cpus_ok cpu_set_ok_def)
qed

lemma pin_panics: "cpu_set_ok ac \<Longrightarrow> pin_to_cpu ac c = PinPanicked \<longleftrightarrow> CPU_SETSIZE \<le> c"
  by (auto simp: pin_to_cpu_def pin_to_cpus_ok split: option.splits)

text \<open>A system that takes every CPU of the set.\<close>

definition any_cpu :: affinity_calls where
  "any_cpu = \<lparr>ac_empty = {}, ac_set = (\<lambda>c s. if c < CPU_SETSIZE then Some (insert c s) else None),
     ac_setaffinity = (\<lambda>s. None)\<rparr>"

lemma any_cpu_ok: "cpu_set_ok any_cpu"
  by (simp add: cpu_set_ok_def any_cpu_def)

lemma any_cpu_pins: "c < CPU_SETSIZE \<Longrightarrow> pin_to_cpu any_cpu c = Pinned"
  by (simp add: pin_to_cpu_def pin_to_cpus_ok [OF any_cpu_ok]) (simp add: any_cpu_def)

section \<open>Data\<close>

record cache_level =
  cl_level :: nat
  cl_kind :: string
  cl_size_kib :: u64
  cl_line_size_b :: nat

record numa_node =
  nn_node :: nat
  nn_cpus :: string

datatype turbo_state = Turbo_Unknown | Turbo_Enabled | Turbo_Disabled

record cpu_info =
  ci_vendor :: string
  ci_model :: string
  ci_microcode :: string
  ci_kernel :: string
  ci_cpu_mhz_nominal :: f64
  ci_governor :: string
  ci_turbo :: turbo_state
  ci_online_cpus :: "nat list"
  ci_isolated_cpus :: "nat list"
  ci_numa_nodes :: "numa_node list"
  ci_caches :: "cache_level list"

definition f64_zero :: f64 where "f64_zero = F_Fin False 0 (- 1074)"

definition cpu_info_default :: cpu_info where
  "cpu_info_default =
     \<lparr>ci_vendor = [], ci_model = [], ci_microcode = [], ci_kernel = [],
      ci_cpu_mhz_nominal = f64_zero, ci_governor = [], ci_turbo = Turbo_Unknown,
      ci_online_cpus = [], ci_isolated_cpus = [], ci_numa_nodes = [], ci_caches = []\<rparr>"

section \<open>Pieces of text\<close>

text \<open>\<open>str::lines\<close>: cut at line feeds, without a carriage return before one.\<close>

definition strip_cr :: "string \<Rightarrow> string" where
  "strip_cr l = (case strip_suffix_char (CHR 13) l of None \<Rightarrow> l | Some l1 \<Rightarrow> l1)"

definition lines :: "string \<Rightarrow> string list" where
  "lines s =
     (let ps = split_on (CHR 10) s
      in map strip_cr (butlast ps) @ (if last ps = [] then [] else [last ps]))"

text \<open>
  \<open>str::parse::<f64>\<close>: a sign, then \<open>inf\<close>, \<open>infinity\<close> or \<open>nan\<close> in any case, or digits with
  an optional point and exponent; the value is rounded once.
\<close>

definition to_lower :: "char \<Rightarrow> char" where
  "to_lower c = (let n = of_char c :: nat in if 65 \<le> n \<and> n \<le> 90 then char_of (n + 32) else c)"

fun dec_val :: "nat \<Rightarrow> string \<Rightarrow> nat" where
  "dec_val acc [] = acc"
| "dec_val acc (c # cs) = dec_val (acc * 10 + digit_val c) cs"

definition parse_exponent :: "string \<Rightarrow> int option" where
  "parse_exponent s =
     (let (neg, ds) = (case s of [] \<Rightarrow> (False, [])
                       | c # cs \<Rightarrow> if c = CHR ''-'' then (True, cs)
                                  else if c = CHR ''+'' then (False, cs) else (False, s))
      in if ds \<noteq> [] \<and> list_all is_digit ds
         then Some (if neg then - int (dec_val 0 ds) else int (dec_val 0 ds)) else None)"

definition parse_decimal :: "bool \<Rightarrow> string \<Rightarrow> f64 option" where
  "parse_decimal neg s =
     (let int_part = takeWhile is_digit s; rest = dropWhile is_digit s;
          (frac, rest) =
            (case rest of c # cs \<Rightarrow> if c = CHR ''.'' then (takeWhile is_digit cs, dropWhile is_digit cs)
                                    else ([], rest)
             | [] \<Rightarrow> ([], []));
          ex = (case rest of [] \<Rightarrow> Some 0
                | c # cs \<Rightarrow> if to_lower c = CHR ''e'' then parse_exponent cs else None)
      in if int_part = [] \<and> frac = [] then None
         else case ex of
                None \<Rightarrow> None
              | Some e \<Rightarrow>
                  let m = int (dec_val 0 (int_part @ frac)); k = e - int (length frac)
                  in Some (f64_round neg (m * 10 ^ nat k) (10 ^ nat (- k))))"

definition parse_f64 :: "string \<Rightarrow> f64 option" where
  "parse_f64 s =
     (let (neg, t) = (case s of [] \<Rightarrow> (False, [])
                      | c # cs \<Rightarrow> if c = CHR ''-'' then (True, cs)
                                 else if c = CHR ''+'' then (False, cs) else (False, s))
      in if map to_lower t = ''inf'' \<or> map to_lower t = ''infinity'' then Some (F_Inf neg)
         else if map to_lower t = ''nan'' then Some F_NaN
         else parse_decimal neg t)"

text \<open>The loop over the characters behind the key.\<close>

fun after_colon :: "string \<Rightarrow> string option" where
  "after_colon [] = None"
| "after_colon (c # cs) =
     (if c = CHR '':'' then Some (trim cs)
      else if \<not> is_whitespace c \<and> c \<noteq> CHR 9 then None
      else after_colon cs)"

definition extract_after_colon :: "string \<Rightarrow> string \<Rightarrow> string option" where
  "extract_after_colon line key =
     (case strip_prefix key (trim_start line) of None \<Rightarrow> None | Some rest \<Rightarrow> after_colon rest)"

definition parse_u64_ok :: "string \<Rightarrow> u64 option" where
  "parse_u64_ok s = (case parse_uint (2 ^ 64) s of Inl e \<Rightarrow> None | Inr v \<Rightarrow> Some (of_nat v))"

definition parse_u32_ok :: "string \<Rightarrow> nat option" where
  "parse_u32_ok s = (case parse_uint (2 ^ 32) s of Inl e \<Rightarrow> None | Inr v \<Rightarrow> Some v)"

definition parse_size_kib :: "string \<Rightarrow> u64 option" where
  "parse_size_kib s =
     (let t = trim s
      in case strip_suffix_char CHR ''K'' t of
           Some num \<Rightarrow> parse_u64_ok num
         | None \<Rightarrow>
             (case strip_suffix_char CHR ''M'' t of
                Some num \<Rightarrow> map_option (\<lambda>n. n * 1024) (parse_u64_ok num)
              | None \<Rightarrow> parse_u64_ok t))"

section \<open>Reading the host\<close>

type_synonym files = "string \<Rightarrow> string option"
type_synonym dirs = "string \<Rightarrow> string option list option"

definition read_trim :: "files \<Rightarrow> string \<Rightarrow> string" where
  "read_trim fs path = (case fs path of None \<Rightarrow> [] | Some s \<Rightarrow> trim s)"

definition read_turbo_state :: "files \<Rightarrow> turbo_state" where
  "read_turbo_state fs =
     (case fs ''/sys/devices/system/cpu/intel_pstate/no_turbo'' of
        Some s \<Rightarrow> (if trim s = ''0'' then Turbo_Enabled
                    else if trim s = ''1'' then Turbo_Disabled else Turbo_Unknown)
      | None \<Rightarrow>
          (case fs ''/sys/devices/system/cpu/cpufreq/boost'' of
             Some s \<Rightarrow> (if trim s = ''1'' then Turbo_Enabled
                         else if trim s = ''0'' then Turbo_Disabled else Turbo_Unknown)
           | None \<Rightarrow> Turbo_Unknown))"

definition entry_node :: "files \<Rightarrow> string \<Rightarrow> string option \<Rightarrow> numa_node list" where
  "entry_node fs dir entry =
     (case entry of
        None \<Rightarrow> []
      | Some name \<Rightarrow>
          (case strip_prefix ''node'' name of
             None \<Rightarrow> []
           | Some rest \<Rightarrow>
               (case parse_u32_ok rest of
                  None \<Rightarrow> []
                | Some node_id \<Rightarrow>
                    (case fs (dir @ ''/'' @ name @ ''/cpulist'') of
                       None \<Rightarrow> []
                     | Some s \<Rightarrow> [\<lparr>nn_node = node_id, nn_cpus = trim s\<rparr>]))))"

definition read_numa_nodes :: "files \<Rightarrow> dirs \<Rightarrow> numa_node list" where
  "read_numa_nodes fs ds =
     (let dir = ''/sys/devices/system/node''
      in case ds dir of
           None \<Rightarrow> []
         | Some entries \<Rightarrow> sort_key nn_node (concat (map (entry_node fs dir) entries)))"

definition entry_cache :: "files \<Rightarrow> string \<Rightarrow> string option \<Rightarrow> cache_level list" where
  "entry_cache fs dir entry =
     (case entry of
        None \<Rightarrow> []
      | Some name \<Rightarrow>
          let path = dir @ ''/'' @ name
          in case fs (path @ ''/level'') of
               None \<Rightarrow> []
             | Some s \<Rightarrow>
                 [\<lparr>cl_level = (case parse_u32_ok (trim s) of None \<Rightarrow> 0 | Some v \<Rightarrow> v),
                   cl_kind = read_trim fs (path @ ''/type''),
                   cl_size_kib =
                     (case fs (path @ ''/size'') of
                        None \<Rightarrow> 0
                      | Some t \<Rightarrow> (case parse_size_kib t of None \<Rightarrow> 0 | Some v \<Rightarrow> v)),
                   cl_line_size_b =
                     (case fs (path @ ''/coherency_line_size'') of
                        None \<Rightarrow> 0
                      | Some t \<Rightarrow> (case parse_u32_ok (trim t) of None \<Rightarrow> 0 | Some v \<Rightarrow> v))\<rparr>])"

definition read_caches :: "files \<Rightarrow> dirs \<Rightarrow> cache_level list" where
  "read_caches fs ds =
     (let dir = ''/sys/devices/system/cpu/cpu0/cache''
      in case ds dir of
           None \<Rightarrow> []
         | Some entries \<Rightarrow>
             sort_key (\<lambda>c. (cl_level c, cl_kind c)) (concat (map (entry_cache fs dir) entries)))"

text \<open>One line of \<open>/proc/cpuinfo\<close>: a field is only set while it is empty.\<close>

definition set_if :: "bool \<Rightarrow> string option \<Rightarrow> (string \<Rightarrow> cpu_info \<Rightarrow> cpu_info) \<Rightarrow> cpu_info \<Rightarrow> cpu_info" where
  "set_if missing found store info =
     (if missing then case found of None \<Rightarrow> info | Some v \<Rightarrow> store v info else info)"

definition f64_is_zero :: "f64 \<Rightarrow> bool" where
  "f64_is_zero x = (case x of F_Fin s m e \<Rightarrow> m = 0 | _ \<Rightarrow> False)"

definition cpuinfo_line :: "string \<Rightarrow> cpu_info \<Rightarrow> cpu_info" where
  "cpuinfo_line line info =
     (let i1 = set_if (ci_vendor info = []) (extract_after_colon line ''vendor_id'')
                 (\<lambda>v i. i\<lparr>ci_vendor := v\<rparr>) info;
          i2 = set_if (ci_model i1 = []) (extract_after_colon line ''model name'')
                 (\<lambda>v i. i\<lparr>ci_model := v\<rparr>) i1;
          i3 = set_if (ci_microcode i2 = []) (extract_after_colon line ''microcode'')
                 (\<lambda>v i. i\<lparr>ci_microcode := v\<rparr>) i2
      in set_if (f64_is_zero (ci_cpu_mhz_nominal i3)) (extract_after_colon line ''cpu MHz'')
           (\<lambda>v i. i\<lparr>ci_cpu_mhz_nominal := (case parse_f64 v of None \<Rightarrow> f64_zero | Some x \<Rightarrow> x)\<rparr>) i3)"

definition cpuinfo_complete :: "cpu_info \<Rightarrow> bool" where
  "cpuinfo_complete info \<longleftrightarrow>
     ci_vendor info \<noteq> [] \<and> ci_model info \<noteq> [] \<and> ci_microcode info \<noteq> [] \<and>
     f64_lt f64_zero (ci_cpu_mhz_nominal info)"

text \<open>The loop over the lines, which stops when every field is set.\<close>

fun cpuinfo_lines :: "string list \<Rightarrow> cpu_info \<Rightarrow> cpu_info" where
  "cpuinfo_lines [] info = info"
| "cpuinfo_lines (l # ls) info =
     (let info1 = cpuinfo_line l info
      in if cpuinfo_complete info1 then info1 else cpuinfo_lines ls info1)"

definition cpus_or_empty :: "string \<Rightarrow> nat list" where
  "cpus_or_empty s = (case parse_cpu_list s of Inl e \<Rightarrow> [] | Inr cpus \<Rightarrow> cpus)"

definition read_cpu_info :: "files \<Rightarrow> dirs \<Rightarrow> cpu_info" where
  "read_cpu_info fs ds =
     (let info = (case fs ''/proc/cpuinfo'' of
                    None \<Rightarrow> cpu_info_default | Some s \<Rightarrow> cpuinfo_lines (lines s) cpu_info_default)
      in info\<lparr>ci_kernel := read_trim fs ''/proc/sys/kernel/osrelease'',
              ci_governor := read_trim fs ''/sys/devices/system/cpu/cpu0/cpufreq/scaling_governor'',
              ci_turbo := read_turbo_state fs,
              ci_online_cpus := cpus_or_empty (read_trim fs ''/sys/devices/system/cpu/online''),
              ci_isolated_cpus := cpus_or_empty (read_trim fs ''/sys/devices/system/cpu/isolated''),
              ci_numa_nodes := read_numa_nodes fs ds,
              ci_caches := read_caches fs ds\<rparr>)"

section \<open>What the probe reads\<close>

text \<open>Storing a field is skipped once it is set, so a complete record is a fixed point.\<close>

lemma f64_zero_lt: "f64_lt f64_zero x \<Longrightarrow> \<not> f64_is_zero x"
  by (cases x) (auto simp: f64_zero_def f64_is_zero_def Let_def)

lemma cpuinfo_line_complete: "cpuinfo_complete info \<Longrightarrow> cpuinfo_line l info = info"
  by (simp add: cpuinfo_complete_def cpuinfo_line_def set_if_def f64_zero_lt Let_def)

lemma cpuinfo_lines_fold: "cpuinfo_lines ls info = fold cpuinfo_line ls info"
proof (induction ls arbitrary: info)
  case Nil
  then show ?case by simp
next
  case (Cons l ls)
  have "fold cpuinfo_line ls i = i" if "cpuinfo_complete i" for i
    by (induction ls) (simp_all add: cpuinfo_line_complete that)
  with Cons show ?case by (simp add: Let_def)
qed

text \<open>The first line that gives a field a value that is not empty.\<close>

fun first_value :: "string \<Rightarrow> string list \<Rightarrow> string" where
  "first_value key [] = []"
| "first_value key (l # ls) =
     (case extract_after_colon l key of
        None \<Rightarrow> first_value key ls | Some v \<Rightarrow> if v = [] then first_value key ls else v)"

lemma cpuinfo_line_fields:
  "ci_vendor (cpuinfo_line l i) =
     (if ci_vendor i = [] then first_value ''vendor_id'' [l] else ci_vendor i)"
  "ci_model (cpuinfo_line l i) =
     (if ci_model i = [] then first_value ''model name'' [l] else ci_model i)"
  "ci_microcode (cpuinfo_line l i) =
     (if ci_microcode i = [] then first_value ''microcode'' [l] else ci_microcode i)"
  by (auto simp: cpuinfo_line_def set_if_def Let_def split: option.splits)

lemma first_value_Cons:
  "first_value key (l # ls) = (if first_value key [l] = [] then first_value key ls else first_value key [l])"
  by (auto split: option.splits)

lemma fold_cpuinfo_fields:
  "ci_vendor (fold cpuinfo_line ls i) =
     (if ci_vendor i = [] then first_value ''vendor_id'' ls else ci_vendor i) \<and>
   ci_model (fold cpuinfo_line ls i) =
     (if ci_model i = [] then first_value ''model name'' ls else ci_model i) \<and>
   ci_microcode (fold cpuinfo_line ls i) =
     (if ci_microcode i = [] then first_value ''microcode'' ls else ci_microcode i)"
proof (induction ls arbitrary: i)
  case Nil
  then show ?case by simp
next
  case (Cons l ls)
  then show ?case
    unfolding fold_simps comp_apply first_value_Cons [of _ l ls]
    by (simp only: cpuinfo_line_fields) (simp del: first_value.simps split: if_splits)
qed

text \<open>The scan of \<open>/proc/cpuinfo\<close>: stopping as soon as every field is set changes nothing,
  and vendor, model and microcode are the first non-empty value any line gives them.\<close>

theorem cpuinfo_scan:
  assumes "fs ''/proc/cpuinfo'' = Some s"
  shows "ci_vendor (read_cpu_info fs ds) = first_value ''vendor_id'' (lines s) \<and>
    ci_model (read_cpu_info fs ds) = first_value ''model name'' (lines s) \<and>
    ci_microcode (read_cpu_info fs ds) = first_value ''microcode'' (lines s) \<and>
    cpuinfo_lines (lines s) cpu_info_default = fold cpuinfo_line (lines s) cpu_info_default"
  using fold_cpuinfo_fields [of "lines s" cpu_info_default]
  by (simp add: read_cpu_info_def assms Let_def cpuinfo_lines_fold cpu_info_default_def)

theorem cpuinfo_scan_witness:
  "ci_vendor (read_cpu_info [''/proc/cpuinfo'' \<mapsto> ''vendor_id : A''] (\<lambda>d. None)) = ''A''"
proof -
  have "first_value ''vendor_id'' (lines ''vendor_id : A'') = ''A''" by code_simp
  then show ?thesis
    using cpuinfo_scan [of "[''/proc/cpuinfo'' \<mapsto> ''vendor_id : A'']" "''vendor_id : A''" "\<lambda>d. None"]
    by simp
qed

text \<open>Everything that cannot be read degrades to an empty value: with nothing readable the
  probe returns the default record, and whatever else the host has, a field whose own source is
  missing is empty or unknown.\<close>

theorem unreadable_host:
  "read_cpu_info (\<lambda>p. None) (\<lambda>d. None) = cpu_info_default \<and>
   ci_vendor (read_cpu_info (fs(''/proc/cpuinfo'' := None)) ds) = [] \<and>
   ci_kernel (read_cpu_info (fs(''/proc/sys/kernel/osrelease'' := None)) ds) = [] \<and>
   ci_online_cpus (read_cpu_info (fs(''/sys/devices/system/cpu/online'' := None)) ds) = [] \<and>
   ci_isolated_cpus (read_cpu_info (fs(''/sys/devices/system/cpu/isolated'' := None)) ds) = [] \<and>
   ci_numa_nodes (read_cpu_info fs (ds(''/sys/devices/system/node'' := None))) = [] \<and>
   ci_caches (read_cpu_info fs (ds(''/sys/devices/system/cpu/cpu0/cache'' := None))) = []"
proof -
  have "cpus_or_empty [] = []" by (simp add: cpus_or_empty_def parse_cpu_list_def)
  then show ?thesis
    by (simp add: read_cpu_info_def cpu_info_default_def read_trim_def read_turbo_state_def
        read_numa_nodes_def read_caches_def Let_def)
qed

end
