(* ===== verification/Noise.thy ===== *)
theory Noise
  imports Cpu_Info
begin

unbundle bit_operations_syntax

text \<open>
  The per-thread cache group of \<open>shmbus/src/resctrl.rs\<close> and the noise threads of
  \<open>shmbus/src/noise.rs\<close>: joining a group, the placement of the threads and the loop one of
  them runs over its scratch buffer. The file system calls of \<open>join_group\<close> are arguments; its
  error messages are kept as their parts.
\<close>

section \<open>Cache groups\<close>

text \<open>\<open>PathBuf::join\<close>: an absolute second part replaces the first.\<close>

definition path_join :: "string \<Rightarrow> string \<Rightarrow> string" where
  "path_join a b =
     (if b \<noteq> [] \<and> hd b = CHR ''/'' then b
      else if a = [] \<or> last a = CHR ''/'' then a @ b else a @ ''/'' @ b)"

definition RESCTRL_ROOT :: string where "RESCTRL_ROOT = ''/sys/fs/resctrl''"

datatype join_error = GroupMissing string | WriteFailed nat string nat

record join_calls =
  jc_exists :: "string \<Rightarrow> bool"
  jc_write :: "string \<Rightarrow> string \<Rightarrow> nat option"
  jc_tid :: nat

text \<open>The result, and the file write it made.\<close>

definition join_group ::
  "join_calls \<Rightarrow> string \<Rightarrow> bool \<Rightarrow> join_error option \<times> (string \<times> string) option" where
  "join_group os grp allow_missing =
     (if grp = [] then (None, None)
      else
        let tasks_path = path_join (path_join RESCTRL_ROOT grp) ''tasks''
        in if \<not> jc_exists os tasks_path
           then (if allow_missing then None else Some (GroupMissing grp), None)
           else let tid = jc_tid os
                in (map_option (WriteFailed tid tasks_path) (jc_write os tasks_path (show_nat tid)),
                    Some (tasks_path, show_nat tid)))"

definition resctrl_is_available :: "(string \<Rightarrow> bool) \<Rightarrow> bool" where
  "resctrl_is_available path_exists = path_exists (path_join RESCTRL_ROOT ''schemata'')"

definition current_schemata :: "(string \<Rightarrow> nat + string) \<Rightarrow> string \<Rightarrow> nat + string" where
  "current_schemata read_file grp =
     (let path = if grp = [] then path_join RESCTRL_ROOT ''schemata''
                 else path_join (path_join RESCTRL_ROOT grp) ''schemata''
      in case read_file path of Inl e \<Rightarrow> Inl e | Inr s \<Rightarrow> Inr (trim s))"

section \<open>Placement of the threads\<close>

text \<open>The CPU of thread \<open>i\<close>; an index out of range would be a panic.\<close>

definition noise_pin :: "nat list \<Rightarrow> nat \<Rightarrow> nat option result" where
  "noise_pin pinned i =
     (if pinned = [] then Inr None
      else if i mod length pinned < length pinned then Inr (Some (pinned ! (i mod length pinned)))
      else Inl IndexOutOfBounds)"

fun noise_pins :: "nat list \<Rightarrow> nat list \<Rightarrow> nat option list result" where
  "noise_pins pinned [] = Inr []"
| "noise_pins pinned (i # is) =
     (case noise_pin pinned i of
        Inl e \<Rightarrow> Inl e
      | Inr p \<Rightarrow> (case noise_pins pinned is of Inl e \<Rightarrow> Inl e | Inr ps \<Rightarrow> Inr (p # ps)))"

text \<open>The threads \<open>spawn_noise\<close> starts: name and CPU.\<close>

definition spawn_noise :: "nat \<Rightarrow> nat list \<Rightarrow> (string \<times> nat option) list result" where
  "spawn_noise n_threads pin_cpus =
     (case noise_pins pin_cpus [0..<n_threads] of
        Inl e \<Rightarrow> Inl e
      | Inr ps \<Rightarrow> Inr (zip (map (\<lambda>i. ''noise-'' @ show_nat i) [0..<n_threads]) ps))"

section \<open>The loop of one thread\<close>

record noise_state =
  ns_x :: u64
  ns_buf :: "u64 list"

definition NOISE_LEN :: nat where "NOISE_LEN = 128 * 1024"

definition noise_init :: noise_state where
  "noise_init = \<lparr>ns_x = 0xCAFEBABEDEADBEEF, ns_buf = replicate NOISE_LEN 0\<rparr>"

definition noise_next :: "u64 \<Rightarrow> u64" where
  "noise_next x =
     (let y = x * 6364136223846793005 + 1442695040888963407 in y XOR drop_bit 17 y)"

definition noise_step :: "noise_state \<Rightarrow> noise_state result" where
  "noise_step s =
     (let x = noise_next (ns_x s); idx = unat (x AND (of_nat (length (ns_buf s)) - 1))
      in if idx < length (ns_buf s)
         then Inr \<lparr>ns_x = x, ns_buf = (ns_buf s)[idx := ns_buf s ! idx + x]\<rparr>
         else Inl IndexOutOfBounds)"

fun noise_steps :: "nat \<Rightarrow> noise_state \<Rightarrow> noise_state result" where
  "noise_steps 0 s = Inr s"
| "noise_steps (Suc n) s = (case noise_step s of Inl e \<Rightarrow> Inl e | Inr s1 \<Rightarrow> noise_steps n s1)"

text \<open>The outer loop: \<open>stops\<close> are the values it loads from the stop flag.\<close>

fun noise_loop :: "bool list \<Rightarrow> noise_state \<Rightarrow> noise_state result option" where
  "noise_loop [] s = None"
| "noise_loop (stop # stops) s =
     (if stop then Some (Inr s)
      else case noise_steps 256 s of Inl e \<Rightarrow> Some (Inl e) | Inr s1 \<Rightarrow> noise_loop stops s1)"

section \<open>The generator\<close>

lemma xorshift_inverse:
  fixes x :: u64
  shows "x = (let y = x XOR drop_bit 17 x in y XOR drop_bit 17 y XOR drop_bit 34 y XOR drop_bit 51 y)"
  by (rule bit_eqI) (auto simp: Let_def bit_xor_iff bit_drop_bit_eq dest: bit_imp_le_length)

lemma xorshift_inj: "x XOR drop_bit 17 x = y XOR drop_bit 17 y \<Longrightarrow> x = (y :: u64)"
  by (metis xorshift_inverse)

lemma odd_mult_inj:
  fixes x y c :: u64
  assumes "c * d = 1" "x * c + a = y * c + a"
  shows "x = y"
proof -
  have "x * c * d = y * c * d" using assms(2) by simp
  then show ?thesis using assms(1) by (simp add: mult.assoc)
qed

lemma noise_next_inj: "noise_next x = noise_next y \<Longrightarrow> x = y"
  unfolding noise_next_def Let_def
  by (drule xorshift_inj, rule odd_mult_inj [of 6364136223846793005 13877824140714322085]) simp_all

lemma noise_len_mask: "unat (x AND (of_nat NOISE_LEN - 1) :: u64) < NOISE_LEN"
proof -
  have "x AND (of_nat NOISE_LEN - 1) = take_bit 17 x"
    by (simp add: NOISE_LEN_def take_bit_eq_mask mask_eq_decr_exp)
  moreover have "unat (take_bit 17 x) < 2 ^ 17"
    using take_bit_nat_less_exp [of 17 "unat x"] by (simp add: unsigned_take_bit_eq)
  ultimately show ?thesis by (simp add: NOISE_LEN_def)
qed

lemma noise_step_ok:
  assumes "length (ns_buf s) = NOISE_LEN"
  shows "\<exists>s'. noise_step s = Inr s' \<and> length (ns_buf s') = NOISE_LEN \<and> ns_x s' = noise_next (ns_x s)"
  using noise_len_mask [of "noise_next (ns_x s)"] assms by (simp add: noise_step_def Let_def)

lemma noise_steps_ok:
  assumes "length (ns_buf s) = NOISE_LEN"
  shows "\<exists>s'. noise_steps n s = Inr s' \<and> length (ns_buf s') = NOISE_LEN \<and>
    ns_x s' = (noise_next ^^ n) (ns_x s)"
  using assms
proof (induction n arbitrary: s)
  case 0
  then show ?case by simp
next
  case (Suc n)
  obtain s1 where "noise_step s = Inr s1" "length (ns_buf s1) = NOISE_LEN" "ns_x s1 = noise_next (ns_x s)"
    using noise_step_ok [OF Suc.prems] by blast
  with Suc.IH [of s1] show ?case by (auto simp: funpow_swap1)
qed

section \<open>Properties\<close>

lemma noise_loop_stops:
  assumes "length (ns_buf s) = NOISE_LEN"
  shows "\<exists>s'. noise_loop (replicate k False @ True # rest) s = Some (Inr s') \<and>
    length (ns_buf s') = NOISE_LEN \<and> ns_x s' = (noise_next ^^ (256 * k)) (ns_x s)"
  using assms
proof (induction k arbitrary: s)
  case 0
  then show ?case by simp
next
  case (Suc k)
  obtain s1 where s1: "noise_steps 256 s = Inr s1" "length (ns_buf s1) = NOISE_LEN"
    "ns_x s1 = (noise_next ^^ 256) (ns_x s)"
    using noise_steps_ok [OF Suc.prems] by blast
  have "(noise_next ^^ (256 * Suc k)) (ns_x s) = (noise_next ^^ (256 * k)) ((noise_next ^^ 256) (ns_x s))"
    by (simp only: mult_Suc_right add.commute [of 256] funpow_add comp_apply)
  with Suc.IH [OF s1(2)] s1 show ?case by simp
qed

text \<open>A noise thread never panics and stops on request: whatever the flag's loads return
  before the first true one, every index it computes is inside the buffer, it leaves the loop at
  the first load that is true, after 256 rounds of the generator per load before it, and a
  round of the generator is a permutation of the 64-bit words, so it cannot collapse.\<close>

theorem noise_worker_runs:
  "(\<exists>s. noise_loop (replicate k False @ True # rest) noise_init = Some (Inr s) \<and>
      length (ns_buf s) = NOISE_LEN \<and> ns_x s = (noise_next ^^ (256 * k)) (ns_x noise_init)) \<and>
   inj noise_next"
  using noise_loop_stops [of noise_init k rest] noise_next_inj
  by (simp add: noise_init_def inj_def)

lemma noise_pins_map:
  "pinned \<noteq> [] \<Longrightarrow> noise_pins pinned is = Inr (map (\<lambda>i. Some (pinned ! (i mod length pinned))) is)"
  by (induction "is") (simp_all add: noise_pin_def)

lemma count_mod:
  assumes "j < k"
  shows "length (filter (\<lambda>i. i mod k = j) [0..<n]) = (n + k - 1 - j) div k"
proof (induction n)
  case 0
  then show ?case using assms by simp
next
  case (Suc n)
  have k: "0 < k" using assms by simp
  have eq: "Suc n + k - 1 - j = Suc (n + k - 1 - j)" using assms by simp
  show ?case
  proof (cases "n mod k = j")
    case True
    then have "n + k - 1 - j = n div k * k + (k - 1)"
      using div_mult_mod_eq [of n k] assms by linarith
    moreover from this have "(n + k - 1 - j) div k = n div k"
      using k by (simp only: div_mult_self3) simp
    moreover have "n div k * k + (k - 1) + 1 = (n div k + 1) * k" using k by (simp add: algebra_simps)
    ultimately have "(n + k - 1 - j) div k = n div k" "Suc (n + k - 1 - j) = (n div k + 1) * k"
      by simp_all
    then have "Suc (n + k - 1 - j) div k = Suc ((n + k - 1 - j) div k)" using k by simp
    with True Suc eq show ?thesis by simp
  next
    case False
    have "Suc (n + k - 1 - j) mod k \<noteq> 0"
    proof
      assume "Suc (n + k - 1 - j) mod k = 0"
      moreover have "Suc (n + k - 1 - j) = n + (k - j)" using assms by simp
      ultimately have "(n + (k - j)) mod k = 0" by (simp only:)
      then have "(n mod k + (k - j)) mod k = 0" by (simp add: mod_simps)
      moreover have "n mod k < k" using k by simp
      ultimately have "n mod k = j"
        using assms False by (cases "n mod k + (k - j) < k")
          (auto simp: le_mod_geq not_less split: if_splits)
      with False show False by simp
    qed
    then have "Suc (n + k - 1 - j) div k = (n + k - 1 - j) div k" by (simp add: div_Suc)
    with False Suc eq show ?thesis by simp
  qed
qed

text \<open>Noise threads are spread evenly: with a non-empty CPU list every index is in range,
  thread \<open>i\<close> gets the CPU at position \<open>i\<close> modulo the length, and the number of threads on any two
  positions differs by at most one.\<close>

theorem spawn_noise_even:
  assumes "cpus \<noteq> []"
  shows "\<exists>ts. spawn_noise n cpus = Inr ts \<and> length ts = n \<and>
    (\<forall>i. i < n \<longrightarrow> snd (ts ! i) = Some (cpus ! (i mod length cpus))) \<and>
    (\<forall>j. j < length cpus \<longrightarrow>
       length (filter (\<lambda>i. i mod length cpus = j) [0..<n]) = (n + length cpus - 1 - j) div length cpus)"
  using assms count_mod [of _ "length cpus" n] by (simp add: spawn_noise_def noise_pins_map)

theorem spawn_noise_even_witness:
  "\<exists>ts. spawn_noise 3 [4, 6] = Inr ts \<and> length ts = 3 \<and> snd (ts ! 2) = Some 4"
proof -
  obtain ts where "spawn_noise 3 [4, 6] = Inr ts" "length ts = 3"
    "\<forall>i. i < 3 \<longrightarrow> snd (ts ! i) = Some ([4, 6] ! (i mod length [4, 6 :: nat]))"
    using spawn_noise_even [of "[4, 6]" 3] by blast
  then show ?thesis by (intro exI [of _ ts]) (simp add: numeral_2_eq_2)
qed

end
