(* ===== verification/Engine_Workers.thy ===== *)
theory Engine_Workers
  imports Engine_Inline Noise
begin

text \<open>
  The engine with worker threads (\<open>run_with_workers\<close> and \<open>worker_main\<close> in
  \<open>trading-engine/src/main.rs\<close>): the dispatcher, which takes ticks from the shared ring, routes each
  by the hash of its symbol to a worker's channel and drains the orders the workers send back,
  the workers, and the shutdown, as a step relation in which the threads interleave.

  The channels of \<open>crossbeam_channel\<close> are a parameter, two operations each; what the code relies
  on is the contract \<open>bounded_fifo\<close> of \<open>Fifo\<close>, with 8192 places. A blocking \<open>send\<close> is a step that is
  possible when there is room, \<open>recv_timeout\<close> one that takes an item, or times out, or sees that the sender
  is gone. The clocks' readings are whatever they are. The loads of the stop flag are \<open>Relaxed\<close>: once it is
  set, a thread may still read that it is not, so that only leaving a loop on the flag depends on it; a thread that has
  read that it is set does not read it again.
\<close>

section \<open>State\<close>

definition CHANNEL_CAP :: nat where "CHANNEL_CAP = 8192"

record work_item =
  wi_tick :: market_tick
  wi_enqueued_ns :: u64

record ('m, 'c) chan =
  ch_try_send :: "'m \<Rightarrow> 'c \<Rightarrow> bool \<times> 'c"
  ch_try_recv :: "'c \<Rightarrow> 'm option \<times> 'c"

text \<open>\<open>en_pin\<close> and \<open>en_join\<close> are what the workers ask of the system to place themselves.\<close>

record ('c, 'o) engine_ops =
  en_params :: strategy_params
  en_worker_cpus :: "nat list"
  en_pin :: affinity_calls
  en_group :: string
  en_join :: join_calls
  en_ticks_chan :: "(work_item, 'c) chan"
  en_orders_chan :: "(order_msg, 'o) chan"
  en_deadline :: bool

text \<open>Where a worker is: before the pinning, before it joins its group, at the test of the flag, waiting in
  \<open>recv_timeout\<close>, in the blocking send of an order, or returned.\<close>

datatype worker_log = WorkerPinned nat | WorkerNotPinned nat nat | WorkerNotJoined join_error

datatype worker_pc = W_Pin | W_Group | W_Top | W_Recv | W_Send order_msg | W_Done

record worker =
  wk_pc :: worker_pc
  wk_state :: strategy_state
  wk_next_order_id :: u64
  wk_ticks :: u64
  wk_orders :: u64
  wk_dispatch_lat :: latency_histogram
  wk_log :: "worker_log list"

text \<open>The main thread: at the top of the loop, past its tests, draining orders, joining a worker,
  in the final drain, or at the report.\<close>

datatype main_pc = M_Top | M_Take | M_Drain | M_Join nat | M_Final | M_Finished

text \<open>\<open>eg_lost\<close> is not in the program: it counts the tick whose worker was found gone.\<close>

record ('c, 'o) engine =
  eg_pc :: main_pc
  eg_stop :: bool
  eg_ticks_in :: ring_ends
  eg_orders_out :: ring_ends
  eg_chans :: "'c list"
  eg_orders :: 'o
  eg_workers :: "worker list"
  eg_ticks_seen :: u64
  eg_ticks_dropped :: u64
  eg_lost :: u64
  eg_orders_sent :: u64
  eg_orders_dropped :: u64
  eg_shm_transit :: latency_histogram
  eg_end_to_end :: latency_histogram
  eg_did_work :: bool
  eg_idle_spin :: u32

text \<open>The workers' numbers start at their index times \<open>2\<^sup>3\<^sup>2\<close>.\<close>

definition worker_first_id :: "nat \<Rightarrow> u64" where
  "worker_first_id w = push_bit 32 (of_nat w)"

definition worker_init :: "nat \<Rightarrow> worker" where
  "worker_init w =
     \<lparr>wk_pc = W_Pin, wk_state = (\<lambda>s. None), wk_next_order_id = worker_first_id w, wk_ticks = 0,
      wk_orders = 0, wk_dispatch_lat = histogram_new, wk_log = []\<rparr>"

text \<open>The CPU of worker \<open>w\<close>.\<close>

definition worker_pin :: "nat list \<Rightarrow> nat \<Rightarrow> nat option" where
  "worker_pin worker_cpus w =
     (let i = w mod max (length worker_cpus) 1;
          c = (if i < length worker_cpus then Some (worker_cpus ! i) else None)
      in if worker_cpus = [] then None else c)"

definition engine_init :: "nat \<Rightarrow> 'c \<Rightarrow> 'o \<Rightarrow> ring_ends \<Rightarrow> ring_ends \<Rightarrow> ('c, 'o) engine" where
  "engine_init n c0 o0 ticks orders =
     \<lparr>eg_pc = M_Top, eg_stop = False, eg_ticks_in = ticks, eg_orders_out = orders,
      eg_chans = replicate n c0, eg_orders = o0, eg_workers = map worker_init [0..<n],
      eg_ticks_seen = 0, eg_ticks_dropped = 0, eg_lost = 0, eg_orders_sent = 0, eg_orders_dropped = 0,
      eg_shm_transit = histogram_new, eg_end_to_end = histogram_new, eg_did_work = False, eg_idle_spin = 0\<rparr>"

section \<open>The main thread\<close>

text \<open>Leaving the loop drops the senders of the tick channels.\<close>

definition senders_open :: "('c, 'o) engine \<Rightarrow> bool" where
  "senders_open s \<longleftrightarrow> eg_pc s \<in> {M_Top, M_Take, M_Drain}"

definition route :: "nat \<Rightarrow> u8 list \<Rightarrow> nat" where
  "route n symb = unat (symbol_hash symb) mod n"

text \<open>The first half of a turn: take a tick and hand it on. \<open>clk\<close> are the two readings of the clock.\<close>

definition dispatch :: "('c, 'o) engine_ops \<Rightarrow> u64 \<times> u64 \<Rightarrow> ('c, 'o) engine \<Rightarrow> ('c, 'o) engine" where
  "dispatch ops clk s =
     (case ring_pop (eg_ticks_in s) of
        (None, r) \<Rightarrow> s\<lparr>eg_ticks_in := r, eg_did_work := False, eg_pc := M_Drain\<rparr>
      | (Some buf, r) \<Rightarrow>
          let tick = tick_of_bytes buf;
              consume_ts = fst clk;
              s1 = s\<lparr>eg_ticks_in := r, eg_did_work := True, eg_ticks_seen := eg_ticks_seen s + 1,
                     eg_shm_transit := record_ns (saturating_sub consume_ts (mt_recv_ts_ns tick)) (eg_shm_transit s),
                     eg_end_to_end := record_ns (saturating_sub consume_ts (mt_exch_ts_ns tick)) (eg_end_to_end s)\<rparr>;
              target = route (length (eg_chans s)) (mt_symbol tick);
              work = \<lparr>wi_tick = tick, wi_enqueued_ns = snd clk\<rparr>
          in if wk_pc (eg_workers s ! target) = W_Done
             then s1\<lparr>eg_lost := eg_lost s + 1, eg_pc := M_Join 0\<rparr>
             else let (ok, c) = ch_try_send (en_ticks_chan ops) work (eg_chans s ! target)
                  in if ok then s1\<lparr>eg_chans := (eg_chans s)[target := c], eg_pc := M_Drain\<rparr>
                     else s1\<lparr>eg_chans := (eg_chans s)[target := c],
                             eg_ticks_dropped := eg_ticks_dropped s + 1, eg_pc := M_Drain\<rparr>)"

text \<open>One turn of a drain: publish an order, or go on to \<open>next\<close> when there is none.\<close>

definition publish_next :: "('c, 'o) engine_ops \<Rightarrow> main_pc \<Rightarrow> ('c, 'o) engine \<Rightarrow> ('c, 'o) engine" where
  "publish_next ops next s =
     (case ch_try_recv (en_orders_chan ops) (eg_orders s) of
        (None, c) \<Rightarrow> s\<lparr>eg_orders := c, eg_pc := next\<rparr>
      | (Some order, c) \<Rightarrow>
          let (ok, r) = try_publish_order order (eg_orders_out s);
              s1 = s\<lparr>eg_orders := c, eg_orders_out := r, eg_did_work := True\<rparr>
          in if ok then s1\<lparr>eg_orders_sent := eg_orders_sent s + 1\<rparr>
             else s1\<lparr>eg_orders_dropped := eg_orders_dropped s + 1\<rparr>)"

definition back_off :: "('c, 'o) engine \<Rightarrow> ('c, 'o) engine" where
  "back_off s =
     (if eg_pc s = M_Top
      then s\<lparr>eg_idle_spin := (if eg_did_work s then 0 else snd (idle_backoff (eg_idle_spin s)))\<rparr> else s)"

section \<open>A worker\<close>

text \<open>The placement. Failures are logged, but a pinning that panics ends the thread; \<open>join\<close> then gives
  \<open>WorkerStats::default()\<close>, which is what the worker has at this point.\<close>

definition place_worker :: "('c, 'o) engine_ops \<Rightarrow> nat \<Rightarrow> worker \<Rightarrow> worker" where
  "place_worker ops w wk =
     (case wk_pc wk of
        W_Pin \<Rightarrow>
          (case worker_pin (en_worker_cpus ops) w of
             None \<Rightarrow> wk\<lparr>wk_pc := W_Group\<rparr>
           | Some c \<Rightarrow>
               (case pin_to_cpu (en_pin ops) c of
                  Pinned \<Rightarrow> wk\<lparr>wk_pc := W_Group, wk_log := wk_log wk @ [WorkerPinned c]\<rparr>
                | PinFailed e \<Rightarrow> wk\<lparr>wk_pc := W_Group, wk_log := wk_log wk @ [WorkerNotPinned c e]\<rparr>
                | PinPanicked \<Rightarrow> wk\<lparr>wk_pc := W_Done\<rparr>))
      | W_Group \<Rightarrow>
          (if en_group ops = [] then wk\<lparr>wk_pc := W_Top\<rparr>
           else (case fst (join_group (en_join ops) (en_group ops) True) of
                   None \<Rightarrow> wk\<lparr>wk_pc := W_Top\<rparr>
                 | Some e \<Rightarrow> wk\<lparr>wk_pc := W_Top, wk_log := wk_log wk @ [WorkerNotJoined e]\<rparr>))
      | _ \<Rightarrow> wk)"

text \<open>An item received: the latency of its dispatch, the strategy, and an order to send or not.\<close>

definition process_item :: "strategy_params \<Rightarrow> u64 \<times> u64 \<Rightarrow> work_item \<Rightarrow> worker \<Rightarrow> worker" where
  "process_item ps clk work wk =
     (let ((order_opt, dev), st, i) = strategy_step ps (snd clk) (wi_tick work) (wk_state wk) (wk_next_order_id wk);
          wk1 = wk\<lparr>wk_dispatch_lat := record_ns (saturating_sub (fst clk) (wi_enqueued_ns work)) (wk_dispatch_lat wk),
                   wk_ticks := wk_ticks wk + 1, wk_state := st, wk_next_order_id := i\<rparr>
      in case order_opt of
           None \<Rightarrow> wk1\<lparr>wk_pc := W_Top\<rparr>
         | Some order \<Rightarrow> wk1\<lparr>wk_orders := wk_orders wk + 1, wk_pc := W_Send order\<rparr>)"

definition set_worker :: "nat \<Rightarrow> worker \<Rightarrow> ('c, 'o) engine \<Rightarrow> ('c, 'o) engine" where
  "set_worker w wk s = s\<lparr>eg_workers := (eg_workers s)[w := wk]\<rparr>"

section \<open>Steps\<close>

inductive engine_step :: "('c, 'o) engine_ops \<Rightarrow> ('c, 'o) engine \<Rightarrow> ('c, 'o) engine \<Rightarrow> bool"
  for ops :: "('c, 'o) engine_ops"
where
  main_exit: "eg_pc s = M_Top \<Longrightarrow> eg_stop s \<or> en_deadline ops \<Longrightarrow> engine_step ops s (s\<lparr>eg_pc := M_Join 0\<rparr>)"
| main_enter: "eg_pc s = M_Top \<Longrightarrow> engine_step ops s (s\<lparr>eg_pc := M_Take\<rparr>)"
| main_take: "eg_pc s = M_Take \<Longrightarrow> engine_step ops s (dispatch ops clk s)"
| main_drain: "eg_pc s = M_Drain \<Longrightarrow> engine_step ops s (back_off (publish_next ops M_Top s))"
| main_join: "eg_pc s = M_Join i \<Longrightarrow> i < length (eg_workers s) \<Longrightarrow> wk_pc (eg_workers s ! i) = W_Done \<Longrightarrow>
    engine_step ops s (s\<lparr>eg_pc := M_Join (Suc i)\<rparr>)"
| main_joined: "eg_pc s = M_Join (length (eg_workers s)) \<Longrightarrow> engine_step ops s (s\<lparr>eg_pc := M_Final\<rparr>)"
| main_final: "eg_pc s = M_Final \<Longrightarrow> engine_step ops s (publish_next ops M_Finished s)"
| worker_place: "w < length (eg_workers s) \<Longrightarrow> wk = eg_workers s ! w \<Longrightarrow> wk_pc wk \<in> {W_Pin, W_Group} \<Longrightarrow>
    engine_step ops s (set_worker w (place_worker ops w wk) s)"
| worker_go: "w < length (eg_workers s) \<Longrightarrow> wk = eg_workers s ! w \<Longrightarrow> wk_pc wk = W_Top \<Longrightarrow>
    engine_step ops s (set_worker w (wk\<lparr>wk_pc := W_Recv\<rparr>) s)"
| worker_stop: "w < length (eg_workers s) \<Longrightarrow> wk = eg_workers s ! w \<Longrightarrow> wk_pc wk = W_Top \<Longrightarrow> eg_stop s \<Longrightarrow>
    engine_step ops s (set_worker w (wk\<lparr>wk_pc := W_Done\<rparr>) s)"
| worker_recv: "w < length (eg_workers s) \<Longrightarrow> wk = eg_workers s ! w \<Longrightarrow> wk_pc wk = W_Recv \<Longrightarrow>
    ch_try_recv (en_ticks_chan ops) (eg_chans s ! w) = (Some work, c) \<Longrightarrow>
    engine_step ops s (set_worker w (process_item (en_params ops) clk work wk) (s\<lparr>eg_chans := (eg_chans s)[w := c]\<rparr>))"
| worker_closed: "w < length (eg_workers s) \<Longrightarrow> wk = eg_workers s ! w \<Longrightarrow> wk_pc wk = W_Recv \<Longrightarrow>
    fst (ch_try_recv (en_ticks_chan ops) (eg_chans s ! w)) = None \<Longrightarrow> \<not> senders_open s \<Longrightarrow>
    engine_step ops s (set_worker w (wk\<lparr>wk_pc := W_Done\<rparr>) s)"
| worker_timeout: "w < length (eg_workers s) \<Longrightarrow> wk = eg_workers s ! w \<Longrightarrow> wk_pc wk = W_Recv \<Longrightarrow>
    fst (ch_try_recv (en_ticks_chan ops) (eg_chans s ! w)) = None \<Longrightarrow> senders_open s \<Longrightarrow>
    engine_step ops s (set_worker w (wk\<lparr>wk_pc := W_Top\<rparr>) s)"
| worker_send: "w < length (eg_workers s) \<Longrightarrow> wk = eg_workers s ! w \<Longrightarrow> wk_pc wk = W_Send order \<Longrightarrow>
    ch_try_send (en_orders_chan ops) order (eg_orders s) = (True, c) \<Longrightarrow>
    engine_step ops s (set_worker w (wk\<lparr>wk_pc := W_Top\<rparr>) (s\<lparr>eg_orders := c\<rparr>))"

text \<open>What happens around the engine: the signal, the ticks that arrive, the orders taken.\<close>

inductive outside_step :: "('c, 'o) engine \<Rightarrow> ('c, 'o) engine \<Rightarrow> bool" where
  signal: "outside_step s (s\<lparr>eg_stop := True\<rparr>)"
| tick_in: "fits_slot m \<Longrightarrow> outside_step s (s\<lparr>eg_ticks_in := snd (ring_push m (eg_ticks_in s))\<rparr>)"
| order_out: "outside_step s (s\<lparr>eg_orders_out := snd (ring_pop (eg_orders_out s))\<rparr>)"

definition engine_moves :: "('c, 'o) engine_ops \<Rightarrow> ('c, 'o) engine \<Rightarrow> ('c, 'o) engine \<Rightarrow> bool" where
  "engine_moves ops s s' \<longleftrightarrow> engine_step ops s s' \<or> outside_step s s'"

inductive_cases engine_stepE: "engine_step ops s s'"
inductive_cases outside_stepE: "outside_step s s'"

text \<open>The metrics of the report, from the joined workers.\<close>

definition workers_metrics :: "f64 \<Rightarrow> ('c, 'o) engine \<Rightarrow> engine_metrics" where
  "workers_metrics elapsed s =
     engine_metrics_of (eg_ticks_seen s) (eg_ticks_dropped s) (eg_orders_sent s) (eg_orders_dropped s) elapsed
       (eg_shm_transit s) (eg_end_to_end s) (map (summary \<circ> wk_dispatch_lat) (eg_workers s))"

section \<open>The contract of the channels\<close>

definition chan_ok :: "('m, 'c) chan \<Rightarrow> ('c \<Rightarrow> 'm list) \<Rightarrow> ('c \<Rightarrow> bool) \<Rightarrow> bool" where
  "chan_ok ch contents ok \<longleftrightarrow>
     bounded_fifo (ch_try_send ch) (ch_try_recv ch) contents ok (\<lambda>m. True) id CHANNEL_CAP"

lemma chan_send_cases:
  assumes "chan_ok ch contents ok" "ok c"
  obtains (sent) c' where "ch_try_send ch m c = (True, c')" "ok c'" "contents c' = contents c @ [m]"
      "length (contents c) < CHANNEL_CAP"
    | (full) "ch_try_send ch m c = (False, c)" "length (contents c) = CHANNEL_CAP"
proof -
  note b = assms(1) [unfolded chan_ok_def]
  show ?thesis
    using bounded_fifo.push_cases [OF b assms(2) TrueI] bounded_fifo.bounded [OF b assms(2)] that
    by (metis id_apply le_antisym)
qed

lemma chan_recv_cases:
  assumes "chan_ok ch contents ok" "ok c"
  obtains (taken) m c' where "ch_try_recv ch c = (Some m, c')" "ok c'" "contents c = m # contents c'"
    | (empty) "ch_try_recv ch c = (None, c)" "contents c = []"
  using bounded_fifo.pop_cases [OF assms(1) [unfolded chan_ok_def] assms(2)] by blast

lemma sum_list_map_update:
  "i < length xs \<Longrightarrow> sum_list (map f (xs[i := x])) + f (xs ! i) = sum_list (map f xs) + f x"
  for f :: "'x \<Rightarrow> 'y::comm_monoid_add"
proof (induction xs arbitrary: i)
  case (Cons a xs)
  then show ?case by (cases i) (auto simp: algebra_simps)
qed simp

section \<open>Invariants\<close>

text \<open>The channels and their contents, the contract's view of the state.\<close>

record ('c, 'o) chan_view =
  cv_ticks :: "'c \<Rightarrow> work_item list"
  cv_ticks_ok :: "'c \<Rightarrow> bool"
  cv_orders :: "'o \<Rightarrow> order_msg list"
  cv_orders_ok :: "'o \<Rightarrow> bool"

definition channels_ok :: "('c, 'o) engine_ops \<Rightarrow> ('c, 'o) chan_view \<Rightarrow> bool" where
  "channels_ok ops v \<longleftrightarrow>
     chan_ok (en_ticks_chan ops) (cv_ticks v) (cv_ticks_ok v) \<and>
     chan_ok (en_orders_chan ops) (cv_orders v) (cv_orders_ok v)"

definition waiting :: "('c, 'o) chan_view \<Rightarrow> ('c, 'o) engine \<Rightarrow> nat \<Rightarrow> work_item list" where
  "waiting v s w = cv_ticks v (eg_chans s ! w)"

definition sending :: "worker \<Rightarrow> nat" where
  "sending wk = (case wk_pc wk of W_Send m \<Rightarrow> 1 | _ \<Rightarrow> 0)"

definition inv_shape :: "nat \<Rightarrow> ('c, 'o) chan_view \<Rightarrow> ('c, 'o) engine \<Rightarrow> bool" where
  "inv_shape n v s \<longleftrightarrow>
     0 < n \<and> length (eg_chans s) = n \<and> length (eg_workers s) = n \<and>
     (\<forall>c \<in> set (eg_chans s). cv_ticks_ok v c) \<and> cv_orders_ok v (eg_orders s) \<and>
     ends_ok (eg_ticks_in s) \<and> ends_ok (eg_orders_out s)"

definition inv_ticks :: "('c, 'o) chan_view \<Rightarrow> ('c, 'o) engine \<Rightarrow> bool" where
  "inv_ticks v s \<longleftrightarrow>
     eg_ticks_seen s = eg_ticks_dropped s + eg_lost s + sum_list (map wk_ticks (eg_workers s)) +
       sum_list (map (\<lambda>c. of_nat (length (cv_ticks v c))) (eg_chans s))"

definition inv_orders :: "('c, 'o) chan_view \<Rightarrow> ('c, 'o) engine \<Rightarrow> bool" where
  "inv_orders v s \<longleftrightarrow>
     sum_list (map wk_orders (eg_workers s)) = eg_orders_sent s + eg_orders_dropped s +
       of_nat (length (cv_orders v (eg_orders s))) + sum_list (map (of_nat \<circ> sending) (eg_workers s))"

definition inv_worker :: "nat \<Rightarrow> nat \<Rightarrow> worker \<Rightarrow> bool" where
  "inv_worker n w wk \<longleftrightarrow>
     wk_next_order_id wk = worker_first_id w + wk_orders wk \<and>
     lh_count (wk_dispatch_lat wk) = wk_ticks wk \<and>
     (\<forall>x. wk_state wk x \<noteq> None \<longrightarrow> route n x = w) \<and>
     (\<forall>m. wk_pc wk = W_Send m \<longrightarrow> order_wf m \<and> route n (om_symbol m) = w)"

definition inv_workers :: "nat \<Rightarrow> ('c, 'o) chan_view \<Rightarrow> ('c, 'o) engine \<Rightarrow> bool" where
  "inv_workers n v s \<longleftrightarrow>
     (\<forall>w < n. inv_worker n w (eg_workers s ! w) \<and>
        (\<forall>it \<in> set (waiting v s w). route n (mt_symbol (wi_tick it)) = w \<and> tick_wf (wi_tick it))) \<and>
     (\<forall>m \<in> set (cv_orders v (eg_orders s)). order_wf m)"

definition inv_join :: "nat \<Rightarrow> ('c, 'o) chan_view \<Rightarrow> ('c, 'o) engine \<Rightarrow> bool" where
  "inv_join n v s \<longleftrightarrow>
     (case eg_pc s of
        M_Join i \<Rightarrow> i \<le> n \<and> (\<forall>j < i. wk_pc (eg_workers s ! j) = W_Done)
      | M_Final \<Rightarrow> (\<forall>j < n. wk_pc (eg_workers s ! j) = W_Done)
      | M_Finished \<Rightarrow> (\<forall>j < n. wk_pc (eg_workers s ! j) = W_Done) \<and> cv_orders v (eg_orders s) = []
      | _ \<Rightarrow> True)"

definition engine_inv :: "nat \<Rightarrow> ('c, 'o) chan_view \<Rightarrow> ('c, 'o) engine \<Rightarrow> bool" where
  "engine_inv n v s \<longleftrightarrow>
     inv_shape n v s \<and> inv_ticks v s \<and> inv_orders v s \<and> inv_workers n v s \<and> inv_join n v s"

lemmas engine_inv_defs = engine_inv_def inv_shape_def inv_ticks_def inv_orders_def inv_workers_def inv_join_def

text \<open>Moves of the main thread's position alone.\<close>

lemma engine_inv_pc:
  assumes "engine_inv n v s" "inv_join n v (s\<lparr>eg_pc := p\<rparr>)"
  shows "engine_inv n v (s\<lparr>eg_pc := p\<rparr>)"
  using assms by (simp add: engine_inv_defs waiting_def)

lemma route_less [simp]: "0 < n \<Longrightarrow> route n x < n"
  by (simp add: route_def)

lemma dispatch_inv:
  assumes ops: "channels_ok ops v" and inv: "engine_inv n v s" and pc: "eg_pc s = M_Take"
  shows "engine_inv n v (dispatch ops clk s)"
proof -
  have sh: "0 < n" "length (eg_chans s) = n" "length (eg_workers s) = n" "\<forall>c \<in> set (eg_chans s). cv_ticks_ok v c"
    "ends_ok (eg_ticks_in s)"
    using inv by (auto simp: engine_inv_def inv_shape_def)
  from sh(5) show ?thesis
  proof (cases rule: ring_fifo.pop_cases)
    case empty
    then show ?thesis using inv sh pc by (simp add: dispatch_def engine_inv_defs waiting_def)
  next
    case (taken buf r)
    let ?tick = "tick_of_bytes buf"
    let ?w = "route n (mt_symbol ?tick)" and ?it = "\<lparr>wi_tick = ?tick, wi_enqueued_ns = snd clk\<rparr>"
    have wf: "tick_wf ?tick" by (rule popped_tick_wf [OF sh(5) taken(3)])
    have w: "?w < n" using sh(1) by simp
    then have cok: "cv_ticks_ok v (eg_chans s ! ?w)" using sh(2,4) by simp
    show ?thesis
    proof (cases "wk_pc (eg_workers s ! ?w) = W_Done")
      case True
      then show ?thesis using inv sh taken pc
        by (simp add: dispatch_def Let_def engine_inv_defs waiting_def)
    next
      case False
      from ops [unfolded channels_ok_def, THEN conjunct1] cok show ?thesis
      proof (cases rule: chan_send_cases [where m = ?it])
        case full
        then show ?thesis using inv sh taken pc False
          by (simp add: dispatch_def Let_def engine_inv_defs waiting_def)
      next
        case (sent c)
        have sum: "sum_list (map (\<lambda>c. of_nat (length (cv_ticks v c)) :: u64) ((eg_chans s)[?w := c])) =
            sum_list (map (\<lambda>c. of_nat (length (cv_ticks v c))) (eg_chans s)) + 1"
          using sum_list_map_update [of ?w "eg_chans s" "\<lambda>c. of_nat (length (cv_ticks v c)) :: u64" c] sent(3) w sh(2)
          by (simp add: algebra_simps)
        have chans: "\<forall>d \<in> set ((eg_chans s)[?w := c]). cv_ticks_ok v d"
          using sh(4) sent(2) set_update_subset_insert [of "eg_chans s" ?w c] by blast
        have wait: "\<forall>u < n. \<forall>it \<in> set (cv_ticks v ((eg_chans s)[?w := c] ! u)).
            route n (mt_symbol (wi_tick it)) = u \<and> tick_wf (wi_tick it)"
          using inv sent(3) wf w sh(2) by (auto simp: engine_inv_defs waiting_def nth_list_update)
        show ?thesis using inv sh taken pc False sent(1) chans wait sum w
          by (simp add: dispatch_def Let_def engine_inv_defs waiting_def algebra_simps)
      qed
    qed
  qed
qed

lemma publish_next_inv:
  assumes ops: "channels_ok ops v" and inv: "engine_inv n v s" and pc: "eg_pc s = M_Drain \<and> next = M_Top \<or> eg_pc s = M_Final \<and> next = M_Finished"
  shows "engine_inv n v (publish_next ops next s)"
proof -
  have sh: "cv_orders_ok v (eg_orders s)" "ends_ok (eg_orders_out s)"
    using inv by (auto simp: engine_inv_def inv_shape_def)
  from ops [unfolded channels_ok_def, THEN conjunct2] sh(1) show ?thesis
  proof (cases rule: chan_recv_cases)
    case empty
    then show ?thesis using inv pc by (auto simp: publish_next_def engine_inv_defs waiting_def)
  next
    case (taken m c)
    have wf: "order_wf m" using inv taken(3) by (simp add: engine_inv_defs)
    from sh(2) wf show ?thesis
      by (cases rule: try_publish_order_cases)
        (use inv pc taken in \<open>auto simp: publish_next_def engine_inv_defs waiting_def algebra_simps\<close>)
  qed
qed

lemma back_off_inv: "engine_inv n v s \<Longrightarrow> engine_inv n v (back_off s)"
  by (simp add: back_off_def engine_inv_defs waiting_def)

text \<open>Replacing one worker, where the sums change by what it changes.\<close>

lemma set_worker_inv:
  assumes inv: "engine_inv n v s" and w: "w < n" and wk: "inv_worker n w wk"
    and ticks: "wk_ticks wk = wk_ticks (eg_workers s ! w)"
    and orders: "wk_orders wk = wk_orders (eg_workers s ! w)"
    and snd_eq: "sending wk = sending (eg_workers s ! w)"
    and join: "wk_pc (eg_workers s ! w) \<noteq> W_Done"
  shows "engine_inv n v (set_worker w wk s)"
proof -
  have len: "w < length (eg_workers s)" using inv w by (simp add: engine_inv_defs)
  have sums: "sum_list (map wk_ticks ((eg_workers s)[w := wk])) = sum_list (map wk_ticks (eg_workers s))"
    "sum_list (map wk_orders ((eg_workers s)[w := wk])) = sum_list (map wk_orders (eg_workers s))"
    "sum_list (map (of_nat \<circ> sending) ((eg_workers s)[w := wk])) = (sum_list (map (of_nat \<circ> sending) (eg_workers s)) :: u64)"
    using sum_list_map_update [OF len, of wk_ticks wk] sum_list_map_update [OF len, of wk_orders wk]
      sum_list_map_update [OF len, of "of_nat \<circ> sending :: worker \<Rightarrow> u64" wk] ticks orders snd_eq
    by (simp_all del: map_update)
  have "inv_join n v (set_worker w wk s)"
    using inv join w len by (auto simp: engine_inv_defs set_worker_def nth_list_update split: main_pc.splits)
  moreover have "inv_workers n v (set_worker w wk s)"
    using inv wk len by (auto simp: engine_inv_defs set_worker_def waiting_def nth_list_update)
  ultimately show ?thesis using inv sums by (simp add: engine_inv_defs set_worker_def del: map_update)
qed

lemma process_item_props:
  assumes "inv_worker n w wk" "route n (mt_symbol (wi_tick it)) = w" "tick_wf (wi_tick it)"
    and "wk1 = process_item ps clk it wk"
  shows "inv_worker n w wk1" and "wk_ticks wk1 = wk_ticks wk + 1"
    and "wk_orders wk1 = wk_orders wk + of_nat (sending wk1)" and "wk_pc wk1 \<noteq> W_Done" "wk_pc wk1 \<noteq> W_Recv"
proof -
  let ?t = "wi_tick it" and ?st = "wk_state wk"
  obtain ord e where e: "entry_step ps (snd clk) ?t (entry_of ?st (mt_symbol ?t)) = (ord, e)" by force
  obtain dev where step: "strategy_step ps (snd clk) ?t ?st (wk_next_order_id wk) =
      ((map_option (\<lambda>m. m\<lparr>om_order_id := wk_next_order_id wk + 1\<rparr>) ord, dev), ?st(mt_symbol ?t \<mapsto> e),
       (if ord = None then wk_next_order_id wk else wk_next_order_id wk + 1))"
    using strategy_step_entry [OF e] by blast
  have wf: "order_wf (m\<lparr>om_order_id := wk_next_order_id wk + 1\<rparr>) \<and> om_symbol m = mt_symbol ?t" if "ord = Some m" for m
    using strategy_step_wf [OF _ assms(3), of ps "snd clk" ?st] step that entry_step_order [of ps "snd clk" ?t _ m e] e
    by auto
  have upd: "(?st(mt_symbol ?t \<mapsto> e)) x \<noteq> None \<longrightarrow> route n x = w" for x
    using assms(1,2) by (simp add: inv_worker_def)
  show "inv_worker n w wk1"
    using assms(1,2) wf upd unfolding assms(4) process_item_def step
    by (cases ord) (simp_all add: inv_worker_def record_ns_def Let_def add.assoc del: fun_upd_apply)
  show "wk_ticks wk1 = wk_ticks wk + 1" "wk_orders wk1 = wk_orders wk + of_nat (sending wk1)"
    "wk_pc wk1 \<noteq> W_Done" "wk_pc wk1 \<noteq> W_Recv"
    unfolding assms(4) process_item_def step by (cases ord; simp add: sending_def)+
qed

lemma place_worker_props:
  "wk_state (place_worker ops w wk) = wk_state wk" "wk_next_order_id (place_worker ops w wk) = wk_next_order_id wk"
  "wk_ticks (place_worker ops w wk) = wk_ticks wk" "wk_orders (place_worker ops w wk) = wk_orders wk"
  "wk_dispatch_lat (place_worker ops w wk) = wk_dispatch_lat wk"
  by (auto simp: place_worker_def split: worker_pc.splits option.splits pin_result.splits)

lemma place_worker_pc:
  assumes "wk_pc wk \<in> {W_Pin, W_Group}"
  shows "wk_pc (place_worker ops w wk) \<in> {W_Group, W_Top, W_Done}"
    and "wk_pc wk = W_Group \<Longrightarrow> wk_pc (place_worker ops w wk) = W_Top"
    and "sending (place_worker ops w wk) = 0" "sending wk = 0"
proof -
  show pc: "wk_pc (place_worker ops w wk) \<in> {W_Group, W_Top, W_Done}"
    "wk_pc wk = W_Group \<Longrightarrow> wk_pc (place_worker ops w wk) = W_Top"
    using assms by (auto simp: place_worker_def split: option.splits pin_result.splits)
  show "sending (place_worker ops w wk) = 0" "sending wk = 0" using pc(1) assms by (auto simp: sending_def)
qed

text \<open>The pinning of worker \<open>w\<close> may fail, but does not panic.\<close>

definition pins_quietly :: "('c, 'o) engine_ops \<Rightarrow> nat \<Rightarrow> bool" where
  "pins_quietly ops w \<longleftrightarrow> (\<forall>c. worker_pin (en_worker_cpus ops) w = Some c \<longrightarrow> pin_to_cpu (en_pin ops) c \<noteq> PinPanicked)"

lemma worker_recv_inv:
  assumes ops: "channels_ok ops v" and inv: "engine_inv n v s" and w: "w < n"
    and wk: "wk = eg_workers s ! w" "wk_pc wk = W_Recv"
    and recv: "ch_try_recv (en_ticks_chan ops) (eg_chans s ! w) = (Some it, c)"
  shows "engine_inv n v (set_worker w (process_item ps clk it wk) (s\<lparr>eg_chans := (eg_chans s)[w := c]\<rparr>))"
proof -
  let ?wk = "process_item ps clk it wk"
  have sh: "length (eg_chans s) = n" "length (eg_workers s) = n" "\<forall>c \<in> set (eg_chans s). cv_ticks_ok v c"
    using inv by (auto simp: engine_inv_defs)
  have "cv_ticks_ok v (eg_chans s ! w)" using sh(1,3) w by simp
  with ops [unfolded channels_ok_def, THEN conjunct1]
  have c: "cv_ticks_ok v c" "cv_ticks v (eg_chans s ! w) = it # cv_ticks v c"
    by (cases rule: chan_recv_cases; simp add: recv)+
  have it: "route n (mt_symbol (wi_tick it)) = w" "tick_wf (wi_tick it)" and iw: "inv_worker n w wk"
    using inv w c(2) by (auto simp: engine_inv_defs waiting_def wk(1))
  note pr = process_item_props [OF iw it refl, of ps clk]
  have lw: "w < length (eg_workers s)" and lc: "w < length (eg_chans s)" using sh w by simp_all
  have s0: "sending wk = 0" by (simp add: sending_def wk(2))
  have sums: "sum_list (map wk_ticks ((eg_workers s)[w := ?wk])) = sum_list (map wk_ticks (eg_workers s)) + 1"
    "sum_list (map (\<lambda>c. of_nat (length (cv_ticks v c)) :: u64) ((eg_chans s)[w := c])) =
      sum_list (map (\<lambda>c. of_nat (length (cv_ticks v c))) (eg_chans s)) - 1"
    "sum_list (map wk_orders ((eg_workers s)[w := ?wk])) = sum_list (map wk_orders (eg_workers s)) + of_nat (sending ?wk)"
    "sum_list (map (of_nat \<circ> sending) ((eg_workers s)[w := ?wk])) =
      sum_list (map (of_nat \<circ> sending) (eg_workers s)) + (of_nat (sending ?wk) :: u64)"
    using sum_list_map_update [OF lw, of wk_ticks ?wk] sum_list_map_update [OF lw, of wk_orders ?wk]
      sum_list_map_update [OF lw, of "of_nat \<circ> sending :: worker \<Rightarrow> u64" ?wk]
      sum_list_map_update [OF lc, of "\<lambda>c. of_nat (length (cv_ticks v c)) :: u64" c] pr(2,3) c(2) s0 wk(1)
    by (simp_all add: algebra_simps del: map_update)
  let ?s = "set_worker w ?wk (s\<lparr>eg_chans := (eg_chans s)[w := c]\<rparr>)"
  have "inv_shape n v ?s"
    using inv c(1) sh set_update_subset_insert [of "eg_chans s" w c]
    by (auto simp: engine_inv_defs set_worker_def)
  moreover have "inv_ticks v ?s" "inv_orders v ?s"
    using inv sums by (simp_all add: engine_inv_defs set_worker_def algebra_simps del: map_update)
  moreover have "inv_workers n v ?s"
    using inv pr(1) c(2) lw lc by (auto simp: engine_inv_defs set_worker_def waiting_def nth_list_update)
  moreover have "inv_join n v ?s"
    using inv wk w lw by (auto simp: engine_inv_defs set_worker_def nth_list_update split: main_pc.splits)
  ultimately show ?thesis by (simp add: engine_inv_def)
qed

lemma worker_send_inv:
  assumes ops: "channels_ok ops v" and inv: "engine_inv n v s" and w: "w < n"
    and wk: "wk = eg_workers s ! w" "wk_pc wk = W_Send m"
    and snd_eq: "ch_try_send (en_orders_chan ops) m (eg_orders s) = (True, c)"
  shows "engine_inv n v (set_worker w (wk\<lparr>wk_pc := W_Top\<rparr>) (s\<lparr>eg_orders := c\<rparr>))"
proof -
  let ?wk = "wk\<lparr>wk_pc := W_Top\<rparr>"
  have ok: "cv_orders_ok v (eg_orders s)" and lw: "w < length (eg_workers s)"
    using inv w by (auto simp: engine_inv_defs)
  from ops [unfolded channels_ok_def, THEN conjunct2] ok
  have c: "cv_orders_ok v c" "cv_orders v c = cv_orders v (eg_orders s) @ [m]"
    by (cases rule: chan_send_cases [where m = m]; simp add: snd_eq)+
  have iw: "inv_worker n w wk" using inv w by (simp add: engine_inv_defs wk(1))
  have "sending wk = 1" by (simp add: sending_def wk(2))
  then have sums: "sum_list (map wk_ticks ((eg_workers s)[w := ?wk])) = sum_list (map wk_ticks (eg_workers s))"
    "sum_list (map wk_orders ((eg_workers s)[w := ?wk])) = sum_list (map wk_orders (eg_workers s))"
    "sum_list (map (of_nat \<circ> sending) ((eg_workers s)[w := ?wk])) + 1 =
      (sum_list (map (of_nat \<circ> sending) (eg_workers s)) :: u64)"
    using sum_list_map_update [OF lw, of wk_ticks ?wk] sum_list_map_update [OF lw, of wk_orders ?wk]
      sum_list_map_update [OF lw, of "of_nat \<circ> sending :: worker \<Rightarrow> u64" ?wk] wk(1)
    by (simp_all add: sending_def del: map_update)
  let ?s = "set_worker w ?wk (s\<lparr>eg_orders := c\<rparr>)"
  have "inv_shape n v ?s" "inv_ticks v ?s"
    using inv c sums by (simp_all add: engine_inv_defs set_worker_def del: map_update)
  moreover have "inv_orders v ?s"
    using inv c sums(2,3) by (simp add: engine_inv_defs set_worker_def sums(3) [symmetric] algebra_simps del: map_update)
  moreover have "inv_workers n v ?s"
    using inv iw c wk lw by (auto simp: engine_inv_defs set_worker_def waiting_def nth_list_update inv_worker_def)
  moreover have "inv_join n v ?s"
    using inv wk w lw by (auto simp: engine_inv_defs set_worker_def nth_list_update split: main_pc.splits)
  ultimately show ?thesis by (simp add: engine_inv_def)
qed

lemma engine_step_inv:
  assumes ops: "channels_ok ops v" and inv: "engine_inv n v s" and step: "engine_step ops s s'"
  shows "engine_inv n v s'"
proof -
  have len: "length (eg_workers s) = n" using inv by (simp add: engine_inv_defs)
  have iw: "inv_worker n w (eg_workers s ! w)" if "w < n" for w using inv that by (simp add: engine_inv_defs)
  have pc_change: "engine_inv n v (set_worker w ((eg_workers s ! w)\<lparr>wk_pc := p\<rparr>) s)"
    if "w < n" "\<forall>m. p \<noteq> W_Send m" "wk_pc (eg_workers s ! w) \<in> {W_Top, W_Recv}" for w p
    by (rule set_worker_inv [OF inv that(1)])
      (use iw [OF that(1)] that(2,3) in \<open>auto simp: inv_worker_def sending_def split: worker_pc.splits\<close>)
  from step show ?thesis
  proof (cases rule: engine_step.cases)
    case main_exit
    show ?thesis unfolding main_exit(1)
      by (rule engine_inv_pc [OF inv]) (use main_exit in \<open>simp add: inv_join_def\<close>)
  next
    case main_enter
    show ?thesis unfolding main_enter(1)
      by (rule engine_inv_pc [OF inv]) (use main_enter in \<open>simp add: inv_join_def\<close>)
  next
    case (main_take clk)
    then show ?thesis using dispatch_inv [OF ops inv] by simp
  next
    case main_drain
    then show ?thesis using back_off_inv publish_next_inv [OF ops inv] by blast
  next
    case (main_join i)
    then show ?thesis using inv len unfolding main_join(1)
      by (intro engine_inv_pc [OF inv]) (auto simp: engine_inv_defs less_Suc_eq)
  next
    case main_joined
    then show ?thesis using inv len unfolding main_joined(1)
      by (intro engine_inv_pc [OF inv]) (auto simp: engine_inv_defs)
  next
    case main_final
    then show ?thesis using publish_next_inv [OF ops inv] by blast
  next
    case (worker_place w wk)
    have "inv_worker n w (place_worker ops w wk)"
      using iw [of w] place_worker_pc(1) [OF worker_place(4), of ops w] worker_place(2,3) len
      by (auto simp: inv_worker_def place_worker_props)
    then show ?thesis unfolding worker_place(1)
      using worker_place(2,3,4) len place_worker_pc(3,4) [OF worker_place(4)]
      by (intro set_worker_inv [OF inv]) (auto simp: place_worker_props)
  next
    case (worker_recv w wk it c clk)
    then show ?thesis using worker_recv_inv [OF ops inv _ worker_recv(3,4,5)] len by simp
  next
    case (worker_send w wk m c)
    then show ?thesis using worker_send_inv [OF ops inv _ worker_send(3,4,5)] len by simp
  qed (use pc_change len in auto)
qed

lemma outside_step_inv:
  assumes inv: "engine_inv n v s" and step: "outside_step s s'"
  shows "engine_inv n v s'"
  using step
proof cases
  case signal
  then show ?thesis using inv by (auto simp: engine_inv_defs waiting_def split: main_pc.splits)
next
  case (tick_in m)
  have "ends_ok (snd (ring_push m (eg_ticks_in s)))"
    by (rule ring_fifo.push_cases [of "eg_ticks_in s" m]) (use inv tick_in in \<open>auto simp: engine_inv_defs\<close>)
  then show ?thesis using inv unfolding tick_in(1)
    by (auto simp: engine_inv_defs waiting_def split: main_pc.splits)
next
  case order_out
  have "ends_ok (snd (ring_pop (eg_orders_out s)))"
    by (rule ring_fifo.pop_cases [of "eg_orders_out s"]) (use inv in \<open>auto simp: engine_inv_defs\<close>)
  then show ?thesis using inv unfolding order_out
    by (auto simp: engine_inv_defs waiting_def split: main_pc.splits)
qed

lemma engine_moves_inv: "channels_ok ops v \<Longrightarrow> engine_moves ops s s' \<Longrightarrow> engine_inv n v s \<Longrightarrow> engine_inv n v s'"
  using engine_step_inv outside_step_inv by (auto simp: engine_moves_def)

lemma engine_runs_inv: "(engine_moves ops)\<^sup>*\<^sup>* s s' \<Longrightarrow> channels_ok ops v \<Longrightarrow> engine_inv n v s \<Longrightarrow> engine_inv n v s'"
  by (induction rule: rtranclp_induct) (blast intro: engine_moves_inv)+

text \<open>The start: empty channels and well-formed rings.\<close>

definition starts :: "nat \<Rightarrow> ('c, 'o) chan_view \<Rightarrow> 'c \<Rightarrow> 'o \<Rightarrow> ring_ends \<Rightarrow> ring_ends \<Rightarrow> bool" where
  "starts n v c0 o0 ticks orders \<longleftrightarrow>
     0 < n \<and> cv_ticks_ok v c0 \<and> cv_ticks v c0 = [] \<and> cv_orders_ok v o0 \<and> cv_orders v o0 = [] \<and>
     ends_ok ticks \<and> ends_ok orders"

lemma sum_list_zeros: "\<forall>x \<in> set xs. f x = 0 \<Longrightarrow> sum_list (map f xs) = (0 :: u64)"
  by (induction xs) auto

lemma engine_init_inv:
  assumes "starts n v c0 o0 ticks orders"
  shows "engine_inv n v (engine_init n c0 o0 ticks orders)"
proof -
  have "inv_worker n w (worker_init w)" for w
    by (simp add: inv_worker_def worker_init_def histogram_new_def)
  then show ?thesis using assms
    by (auto simp: engine_inv_defs engine_init_def starts_def waiting_def sending_def worker_init_def
        sum_list_zeros sum_list_replicate comp_def)
qed

section \<open>Properties\<close>

text \<open>Channels that keep their items in a list, for the examples.\<close>

definition list_chan :: "('m, 'm list) chan" where
  "list_chan = \<lparr>
     ch_try_send = (\<lambda>m c. if length c < CHANNEL_CAP then (True, c @ [m]) else (False, c)),
     ch_try_recv = (\<lambda>c. case c of [] \<Rightarrow> (None, []) | m # c1 \<Rightarrow> (Some m, c1))\<rparr>"

lemma list_chan_ok: "chan_ok list_chan (\<lambda>c. c) (\<lambda>c. length c \<le> CHANNEL_CAP)"
  unfolding chan_ok_def by unfold_locales (auto simp: list_chan_def)

definition list_view :: "(work_item list, order_msg list) chan_view" where
  "list_view = \<lparr>cv_ticks = (\<lambda>c. c), cv_ticks_ok = (\<lambda>c. length c \<le> CHANNEL_CAP),
     cv_orders = (\<lambda>c. c), cv_orders_ok = (\<lambda>c. length c \<le> CHANNEL_CAP)\<rparr>"

definition list_ops :: "strategy_params \<Rightarrow> bool \<Rightarrow> (work_item list, order_msg list) engine_ops" where
  "list_ops ps deadline =
     \<lparr>en_params = ps, en_worker_cpus = [], en_pin = any_cpu, en_group = [],
      en_join = \<lparr>jc_exists = (\<lambda>p. True), jc_write = (\<lambda>p s. None), jc_tid = 7\<rparr>, en_ticks_chan = list_chan, en_orders_chan = list_chan, en_deadline = deadline\<rparr>"

lemma list_ops_ok: "channels_ok (list_ops ps deadline) list_view"
  by (simp add: channels_ok_def list_ops_def list_view_def list_chan_ok)

lemma list_starts: "0 < n \<Longrightarrow> starts n list_view [] [] fresh_ends fresh_ends"
  by (simp add: starts_def list_view_def fresh_ends_ok)

text \<open>C6. Nothing is lost unaccounted for with workers: in every state any interleaving of the
  threads reaches, each tick taken from the ring is dropped at a full channel, waits for a worker,
  or has been processed (or is the one whose worker was found gone, which ends the loop); each order
  a worker made is sent, dropped at the full ring, queued, or in the worker's hands; the channels
  hold at most 8192 items; and when the report is written all workers have returned and every
  order they made is counted as sent or dropped.\<close>

theorem engine_accounts:
  assumes "channels_ok ops v" and "starts n v c0 o0 ticks orders"
    and "(engine_moves ops)\<^sup>*\<^sup>* (engine_init n c0 o0 ticks orders) s"
  shows "eg_ticks_seen s = eg_ticks_dropped s + eg_lost s + sum_list (map wk_ticks (eg_workers s)) +
      sum_list (map (\<lambda>c. of_nat (length (cv_ticks v c))) (eg_chans s)) \<and>
    sum_list (map wk_orders (eg_workers s)) = eg_orders_sent s + eg_orders_dropped s +
      of_nat (length (cv_orders v (eg_orders s))) + sum_list (map (of_nat \<circ> sending) (eg_workers s)) \<and>
    (\<forall>c \<in> set (eg_chans s). length (cv_ticks v c) \<le> CHANNEL_CAP) \<and>
    length (cv_orders v (eg_orders s)) \<le> CHANNEL_CAP \<and>
    (eg_pc s = M_Finished \<longrightarrow>
       (\<forall>wk \<in> set (eg_workers s). wk_pc wk = W_Done) \<and>
       sum_list (map wk_orders (eg_workers s)) = eg_orders_sent s + eg_orders_dropped s)"
proof -
  have inv: "engine_inv n v s" by (rule engine_runs_inv [OF assms(3,1) engine_init_inv [OF assms(2)]])
  have "\<forall>c \<in> set (eg_chans s). length (cv_ticks v c) \<le> CHANNEL_CAP"
    using inv assms(1) bounded_fifo.bounded by (fastforce simp: engine_inv_defs channels_ok_def chan_ok_def)
  moreover have "length (cv_orders v (eg_orders s)) \<le> CHANNEL_CAP"
    using inv assms(1) bounded_fifo.bounded by (fastforce simp: engine_inv_defs channels_ok_def chan_ok_def)
  moreover have "(\<forall>wk \<in> set (eg_workers s). wk_pc wk = W_Done) \<and>
      sum_list (map wk_orders (eg_workers s)) = eg_orders_sent s + eg_orders_dropped s" if "eg_pc s = M_Finished"
  proof -
    have ret: "\<forall>wk \<in> set (eg_workers s). wk_pc wk = W_Done" and e: "cv_orders v (eg_orders s) = []"
      using inv that by (auto simp: engine_inv_defs in_set_conv_nth)
    have "\<forall>wk \<in> set (eg_workers s). (of_nat \<circ> sending) wk = (0 :: u64)" using ret by (simp add: sending_def)
    then have "sum_list (map (of_nat \<circ> sending) (eg_workers s)) = (0 :: u64)" by (rule sum_list_zeros)
    then show ?thesis using inv ret e by (simp add: engine_inv_defs)
  qed
  ultimately show ?thesis using inv unfolding engine_inv_def inv_ticks_def inv_orders_def by blast
qed

theorem engine_accounts_witness:
  "\<exists>s. (engine_moves (list_ops demo_params True))\<^sup>*\<^sup>* (engine_init 2 [] [] fresh_ends fresh_ends) s \<and>
     eg_pc s = M_Take \<and>
     eg_ticks_seen s = eg_ticks_dropped s + eg_lost s + sum_list (map wk_ticks (eg_workers s)) +
       sum_list (map (\<lambda>c. of_nat (length c)) (eg_chans s))"
proof -
  let ?s = "engine_init 2 [] [] fresh_ends fresh_ends :: (work_item list, order_msg list) engine"
  let ?s1 = "?s\<lparr>eg_pc := M_Take\<rparr>"
  have "engine_step (list_ops demo_params True) ?s ?s1"
    by (rule main_enter) (simp_all add: engine_init_def)
  then have r: "(engine_moves (list_ops demo_params True))\<^sup>*\<^sup>* ?s ?s1"
    by (intro r_into_rtranclp) (simp add: engine_moves_def)
  show ?thesis
    using engine_accounts [OF list_ops_ok list_starts r] r
    by (intro exI [of _ ?s1]) (auto simp: list_view_def)
qed

text \<open>The workers never share a symbol: in every reachable state a symbol has state at one
  worker at most, the worker its hash routes it to, the items waiting for a worker are of its own
  symbols only, and its order numbers have run from its own start without a gap.\<close>

theorem workers_apart:
  assumes "channels_ok ops v" and "starts n v c0 o0 ticks orders"
    and "(engine_moves ops)\<^sup>*\<^sup>* (engine_init n c0 o0 ticks orders) s" and "w < n"
  shows "(\<forall>x. wk_state (eg_workers s ! w) x \<noteq> None \<longrightarrow>
      route n x = w \<and> (\<forall>w' < n. w' \<noteq> w \<longrightarrow> wk_state (eg_workers s ! w') x = None)) \<and>
    (\<forall>it \<in> set (cv_ticks v (eg_chans s ! w)). route n (mt_symbol (wi_tick it)) = w) \<and>
    wk_next_order_id (eg_workers s ! w) = worker_first_id w + wk_orders (eg_workers s ! w)"
proof -
  have inv: "engine_inv n v s" by (rule engine_runs_inv [OF assms(3,1) engine_init_inv [OF assms(2)]])
  then have iw: "inv_worker n u (eg_workers s ! u)" if "u < n" for u
    using that by (simp add: engine_inv_def inv_workers_def)
  have "wk_state (eg_workers s ! u) x = None" if "wk_state (eg_workers s ! w) x \<noteq> None" "u < n" "u \<noteq> w" for u x
    using iw [OF assms(4)] iw [OF that(2)] that by (auto simp: inv_worker_def)
  moreover have "\<forall>it \<in> set (cv_ticks v (eg_chans s ! w)). route n (mt_symbol (wi_tick it)) = w"
    using inv assms(4) by (simp add: engine_inv_def inv_workers_def waiting_def)
  ultimately show ?thesis using iw [OF assms(4)] by (auto simp: inv_worker_def)
qed

theorem workers_apart_witness:
  "wk_next_order_id (eg_workers (engine_init 2 [] [] fresh_ends fresh_ends :: (work_item list, order_msg list) engine) ! 1) = 0x100000000"
proof -
  have "1 < (2 :: nat)" "0 < (2 :: nat)" by simp_all
  from workers_apart [OF list_ops_ok [of demo_params True] list_starts [OF this(2)] rtranclp.rtrancl_refl this(1)]
  show ?thesis by (simp add: engine_init_def worker_init_def worker_first_id_def)
qed

lemma worker_id_div:
  assumes "w < 2 ^ 32" "Suc k < 2 ^ 32"
  shows "unat (worker_first_id w + 1 + of_nat k) div 2 ^ 32 = w"
proof -
  have b: "w * 2 ^ 32 + Suc k < 2 ^ 64"
  proof -
    have "w * 2 ^ 32 + Suc k < (w + 1) * 2 ^ 32" using assms(2) by simp
    also have "\<dots> \<le> 2 ^ 32 * 2 ^ 32" using assms(1) by (intro mult_le_mono1) simp
    finally show ?thesis by simp
  qed
  have eq: "worker_first_id w + 1 + of_nat k = of_nat (w * 2 ^ 32 + Suc k)"
    by (simp add: worker_first_id_def push_bit_eq_mult)
  have "unat (worker_first_id w + 1 + of_nat k) = w * 2 ^ 32 + Suc k"
    unfolding eq by (rule unat_of_nat64_small [OF b])
  then show ?thesis using assms(2) by simp
qed

text \<open>C29. Order numbers of different workers never meet, whatever their ticks, as long as each makes
  fewer than \<open>2\<^sup>3\<^sup>2\<close> orders and there are at most \<open>2\<^sup>3\<^sup>2\<close> workers; the comment in the code claims
  disjoint ranges without the bound.\<close>

theorem worker_ids_disjoint:
  assumes "w < 2 ^ 32" "w' < 2 ^ 32" "w \<noteq> w'"
    and "strategy_run ps es (\<lambda>s. None) (worker_first_id w) = (os, st, i)" "length os < 2 ^ 32"
    and "strategy_run ps es' (\<lambda>s. None) (worker_first_id w') = (os', st', i')" "length os' < 2 ^ 32"
  shows "set (map om_order_id os) \<inter> set (map om_order_id os') = {}"
proof -
  have ids: "\<exists>k < length os. x = worker_first_id w + 1 + of_nat k"
    if "strategy_run ps es (\<lambda>s. None) (worker_first_id w) = (os, st, i)" "x \<in> set (map om_order_id os)" for es w os st i x
  proof -
    have "map om_order_id os = map (\<lambda>k. worker_first_id w + 1 + of_nat k) [0..<length os]"
      using strategy_run_ids [of ps es "\<lambda>s. None" "worker_first_id w"] that(1) by simp
    with that(2) have "x \<in> set (map (\<lambda>k. worker_first_id w + 1 + of_nat k) [0..<length os])" by (simp only:)
    then show ?thesis by auto
  qed
  have "unat x div 2 ^ 32 = w" if "x \<in> set (map om_order_id os)" for x
    using ids [OF assms(4) that] worker_id_div [OF assms(1)] assms(5) by fastforce
  moreover have "unat x div 2 ^ 32 = w'" if "x \<in> set (map om_order_id os')" for x
    using ids [OF assms(6) that] worker_id_div [OF assms(2)] assms(7) by fastforce
  ultimately show ?thesis using assms(3) by blast
qed


theorem worker_ids_disjoint_witness:
  "set (map om_order_id (fst (strategy_run demo_params demo_events (\<lambda>s. None) (worker_first_id 0)))) \<inter>
   set (map om_order_id (fst (strategy_run demo_params demo_events (\<lambda>s. None) (worker_first_id 1)))) = {}"
proof -
  have few: "\<exists>os st j. strategy_run demo_params demo_events (\<lambda>s. None) i = (os, st, j) \<and> length os < 2 ^ 32" for i
    using strategy_run_ids [of demo_params demo_events "\<lambda>s. None" i]
    by (cases "strategy_run demo_params demo_events (\<lambda>s. None) i") (simp add: demo_events_def)
  obtain os st j os' st' j' where r:
    "strategy_run demo_params demo_events (\<lambda>s. None) (worker_first_id 0) = (os, st, j)" "length os < 2 ^ 32"
    "strategy_run demo_params demo_events (\<lambda>s. None) (worker_first_id 1) = (os', st', j')" "length os' < 2 ^ 32"
    using few by metis
  have "(0 :: nat) < 2 ^ 32" "(1 :: nat) < 2 ^ 32" "(0 :: nat) \<noteq> 1" by simp_all
  from worker_ids_disjoint [OF this r] show ?thesis using r by simp
qed

text \<open>A worker that cannot even be pinned without a panic.\<close>

definition stillborn :: "worker \<Rightarrow> bool" where
  "stillborn wk \<longleftrightarrow> wk_pc wk \<in> {W_Pin, W_Done} \<and> wk_ticks wk = 0 \<and> wk_orders wk = 0 \<and> (\<forall>x. wk_state wk x = None)"

lemma stillborn_place:
  assumes "\<not> pins_quietly ops w" "stillborn wk" "wk_pc wk \<in> {W_Pin, W_Group}"
  shows "stillborn (place_worker ops w wk)" "wk_pc (place_worker ops w wk) = W_Done"
proof -
  have "wk_pc wk = W_Pin" using assms(2,3) by (auto simp: stillborn_def)
  then show "wk_pc (place_worker ops w wk) = W_Done"
    using assms(1) by (auto simp: place_worker_def pins_quietly_def split: option.splits)
  then show "stillborn (place_worker ops w wk)" using assms(2) by (simp add: stillborn_def place_worker_props)
qed

lemma main_step_workers [simp]:
  "eg_workers (dispatch ops clk s) = eg_workers s" "eg_workers (publish_next ops p s) = eg_workers s"
  "eg_workers (back_off s) = eg_workers s"
  by (auto simp: dispatch_def publish_next_def back_off_def Let_def split: prod.splits option.splits)

lemma stillborn_moves:
  assumes "engine_moves ops s s'" "\<not> pins_quietly ops w" "w < length (eg_workers s)" "stillborn (eg_workers s ! w)"
  shows "stillborn (eg_workers s' ! w) \<and> length (eg_workers s') = length (eg_workers s)"
proof -
  have set: "stillborn (eg_workers (set_worker u wk t) ! w)"
    if "u = w \<Longrightarrow> stillborn wk" "eg_workers t = eg_workers s" for u wk t
    using that assms(3,4) by (cases "u = w") (simp_all add: set_worker_def)
  have busy: "u \<noteq> w" if "wk_pc (eg_workers s ! u) \<noteq> W_Pin" "wk_pc (eg_workers s ! u) \<noteq> W_Done" for u
    using that assms(4) by (auto simp: stillborn_def)
  from assms(1) consider "engine_step ops s s'" | "outside_step s s'" by (auto simp: engine_moves_def)
  then show ?thesis
  proof cases
    case 1
    then show ?thesis
    proof (cases rule: engine_step.cases)
      case (worker_place u wk)
      then show ?thesis using set [of u "place_worker ops u wk" s] stillborn_place(1) [OF assms(2,4)]
        by (auto simp: set_worker_def)
    next
      case (worker_recv u wk work c clk)
      then show ?thesis using busy [of u] assms(4) by (simp add: set_worker_def)
    next
      case (worker_send u wk m c)
      then show ?thesis using busy [of u] assms(4) by (simp add: set_worker_def)
    qed (use busy assms(4) in \<open>auto simp: set_worker_def nth_list_update\<close>)
  next
    case 2
    then show ?thesis using assms(4) by cases auto
  qed
qed

lemma stillborn_runs:
  assumes "(engine_moves ops)\<^sup>*\<^sup>* s s'" "\<not> pins_quietly ops w" "w < length (eg_workers s)" "stillborn (eg_workers s ! w)"
  shows "stillborn (eg_workers s' ! w) \<and> length (eg_workers s') = length (eg_workers s)"
  using assms by (induction rule: rtranclp_induct) (use stillborn_moves in fastforce)+

text \<open>C20. A CPU number of 1024 or more in \<open>--worker-cpus\<close>, which does not fit a CPU set, kills the worker it is given to,
  although a failed pinning is meant to be logged only: in every reachable state that worker is still
  before its pinning, the step that ends its thread by a panic, or gone, and it has taken no tick and made no order.
  Once it is gone, the next tick of a symbol of its own that the main thread takes ends the main loop, without the stop
  flag and without a deadline, and this tick is lost; the ones that came before wait in its channel.\<close>

theorem worker_pin_panic:
  assumes "cpu_set_ok (en_pin ops)" and "worker_pin (en_worker_cpus ops) w = Some cpu" and "CPU_SETSIZE \<le> cpu" and "w < n"
    and "(engine_moves ops)\<^sup>*\<^sup>* (engine_init n c0 o0 ticks orders) s"
  shows "wk_pc (eg_workers s ! w) \<in> {W_Pin, W_Done} \<and> wk_ticks (eg_workers s ! w) = 0 \<and> wk_orders (eg_workers s ! w) = 0 \<and>
    (wk_pc (eg_workers s ! w) = W_Pin \<longrightarrow> wk_pc (place_worker ops w (eg_workers s ! w)) = W_Done) \<and>
    (\<forall>clk buf bufs. wk_pc (eg_workers s ! w) = W_Done \<and> ends_ok (eg_ticks_in s) \<and> ends_queue (eg_ticks_in s) = buf # bufs \<and>
       route (length (eg_chans s)) (mt_symbol (tick_of_bytes buf)) = w \<longrightarrow>
     eg_pc (dispatch ops clk s) = M_Join 0 \<and> eg_lost (dispatch ops clk s) = eg_lost s + 1 \<and>
     eg_stop (dispatch ops clk s) = eg_stop s)"
proof -
  have dead: "\<not> pins_quietly ops w" using assms(1-3) pin_panics by (auto simp: pins_quietly_def)
  have "stillborn (eg_workers (engine_init n c0 o0 ticks orders) ! w)" "w < length (eg_workers (engine_init n c0 o0 ticks orders))"
    using assms(4) by (simp_all add: stillborn_def engine_init_def worker_init_def)
  then have st: "stillborn (eg_workers s ! w)" using stillborn_runs [OF assms(5) dead] by blast
  moreover have "eg_pc (dispatch ops clk s) = M_Join 0 \<and> eg_lost (dispatch ops clk s) = eg_lost s + 1 \<and>
      eg_stop (dispatch ops clk s) = eg_stop s"
    if "wk_pc (eg_workers s ! w) = W_Done" "ends_ok (eg_ticks_in s)" "ends_queue (eg_ticks_in s) = buf # bufs"
      "route (length (eg_chans s)) (mt_symbol (tick_of_bytes buf)) = w" for clk buf bufs
    using ring_fifo.pop_some [OF that(2,3)] that(1,4) by (auto simp: dispatch_def Let_def)
  ultimately show ?thesis using st stillborn_place(2) [OF dead st] by (auto simp: stillborn_def)
qed

theorem worker_pin_panic_witness:
  "\<exists>s s'. (engine_moves ((list_ops demo_params False)\<lparr>en_worker_cpus := [5000]\<rparr>))\<^sup>*\<^sup>*
       (engine_init 1 [] [] fresh_ends fresh_ends) s \<and> eg_pc s = M_Take \<and>
     s' = dispatch ((list_ops demo_params False)\<lparr>en_worker_cpus := [5000]\<rparr>) (0, 0) s \<and>
     eg_pc s' = M_Join 0 \<and> \<not> eg_stop s'"
proof -
  let ?ops = "(list_ops demo_params False)\<lparr>en_worker_cpus := [5000]\<rparr>"
  let ?s = "engine_init 1 [] [] fresh_ends fresh_ends :: (work_item list, order_msg list) engine"
  have cpu: "cpu_set_ok (en_pin ?ops)" "worker_pin (en_worker_cpus ?ops) 0 = Some 5000" "CPU_SETSIZE \<le> 5000"
    by (simp_all add: any_cpu_ok list_ops_def worker_pin_def CPU_SETSIZE_def)
  then have pin: "\<not> pins_quietly ?ops 0" by (simp add: pins_quietly_def pin_panics)
  let ?m = "replicate 64 0 :: u8 list"
  have fits: "fits_slot ?m" by (simp add: fits_slot_def SLOT_PAYLOAD_def)
  obtain r where r: "ring_push ?m fresh_ends = (True, r)" "ends_ok r" "ends_queue r = [pad_payload ?m]"
    using ring_push_room [OF fresh_ends_ok(1) fits] by (auto simp: fresh_ends_ok(2))
  let ?wk = "place_worker ?ops 0 (worker_init 0)"
  have done_wk: "wk_pc ?wk = W_Done"
    by (rule stillborn_place(2) [OF pin]) (simp_all add: stillborn_def worker_init_def)
  have m1: "engine_moves ?ops ?s (set_worker 0 ?wk ?s)"
    using worker_place [of 0 ?s "worker_init 0" ?ops] by (simp add: engine_moves_def engine_init_def worker_init_def)
  let ?s1 = "set_worker 0 ?wk ?s"
  have m2: "engine_moves ?ops ?s1 (?s1\<lparr>eg_ticks_in := r\<rparr>)"
    using outside_step.tick_in [OF fits, of ?s1] r(1) by (simp add: engine_moves_def engine_init_def set_worker_def)
  let ?s2 = "?s1\<lparr>eg_ticks_in := r\<rparr>"
  have m3: "engine_moves ?ops ?s2 (?s2\<lparr>eg_pc := M_Take\<rparr>)"
    using main_enter [of ?s2 ?ops] by (simp add: engine_moves_def engine_init_def set_worker_def)
  let ?s3 = "?s2\<lparr>eg_pc := M_Take\<rparr>"
  have run: "(engine_moves ?ops)\<^sup>*\<^sup>* ?s ?s3"
    using m1 m2 m3 by (meson converse_rtranclp_into_rtranclp rtranclp.rtrancl_refl)
  have st: "eg_pc ?s3 = M_Take" "\<not> eg_stop ?s3" "wk_pc (eg_workers ?s3 ! 0) = W_Done" "eg_ticks_in ?s3 = r"
    "length (eg_chans ?s3) = 1"
    using done_wk by (simp_all add: engine_init_def set_worker_def)
  have "eg_pc (dispatch ?ops (0, 0) ?s3) = M_Join 0 \<and> eg_stop (dispatch ?ops (0, 0) ?s3) = eg_stop ?s3"
    using worker_pin_panic [OF cpu _ run] st r(2,3) by (simp add: route_def)
  then show ?thesis using run st by blast
qed

end
