(* ===== verification/Engine_Shutdown.thy ===== *)
theory Engine_Shutdown
  imports Engine_Workers
begin

text \<open>
  The shutdown of the engine with workers: \<open>main\<close> joins the workers before it drains their
  orders. The first part shows that it ends whenever the orders still to come fit the channel,
  by a measure that every step of the shutdown decreases; the second that it can hang for ever
  when they do not.
\<close>

section \<open>Progress\<close>

text \<open>The orders that may still reach the channel, and the ones in it.\<close>

definition outstanding :: "nat \<Rightarrow> ('c, 'o) chan_view \<Rightarrow> ('c, 'o) engine \<Rightarrow> nat" where
  "outstanding n v s =
     length (cv_orders v (eg_orders s)) + (\<Sum>w < n. length (waiting v s w) + sending (eg_workers s ! w))"

definition worker_weight :: "worker_pc \<Rightarrow> nat" where
  "worker_weight p = (case p of W_Done \<Rightarrow> 0 | W_Recv \<Rightarrow> 1 | W_Top \<Rightarrow> 2 | W_Group \<Rightarrow> 3 | W_Pin \<Rightarrow> 4 | W_Send m \<Rightarrow> 4)"

definition main_weight :: "nat \<Rightarrow> main_pc \<Rightarrow> nat" where
  "main_weight n p = (case p of M_Join i \<Rightarrow> n - i + 2 | M_Final \<Rightarrow> 1 | _ \<Rightarrow> 0)"

definition shutdown_measure :: "nat \<Rightarrow> ('c, 'o) chan_view \<Rightarrow> ('c, 'o) engine \<Rightarrow> nat" where
  "shutdown_measure n v s =
     main_weight n (eg_pc s) + length (cv_orders v (eg_orders s)) +
     (\<Sum>w < n. 5 * length (waiting v s w) + worker_weight (wk_pc (eg_workers s ! w)))"

definition shutting_down :: "nat \<Rightarrow> ('c, 'o) chan_view \<Rightarrow> ('c, 'o) engine \<Rightarrow> bool" where
  "shutting_down n v s \<longleftrightarrow>
     engine_inv n v s \<and> ((\<exists>i. eg_pc s = M_Join i) \<or> eg_pc s = M_Final \<or> eg_pc s = M_Finished) \<and>
     outstanding n v s \<le> CHANNEL_CAP"

lemma sum_update:
  assumes "w < (n :: nat)" "\<And>u. u < n \<Longrightarrow> u \<noteq> w \<Longrightarrow> f u = g u"
  shows "(\<Sum>u < n. f u) + g w = (\<Sum>u < n. g u) + (f w :: nat)"
proof -
  have "(\<Sum>u < n. f u) = f w + (\<Sum>u \<in> {..<n} - {w}. f u)" "(\<Sum>u < n. g u) = g w + (\<Sum>u \<in> {..<n} - {w}. g u)"
    using assms(1) by (simp_all add: sum.remove)
  moreover have "(\<Sum>u \<in> {..<n} - {w}. f u) = (\<Sum>u \<in> {..<n} - {w}. g u)" by (rule sum.cong) (use assms(2) in auto)
  ultimately show ?thesis by simp
qed

text \<open>The effect of a step of a worker on the two sums.\<close>

lemma worker_sums:
  assumes inv: "engine_inv n v s" and w: "w < n"
    and chans: "\<And>u. u < n \<Longrightarrow> u \<noteq> w \<Longrightarrow> eg_chans s' ! u = eg_chans s ! u"
    and workers: "eg_workers s' = (eg_workers s)[w := wk]"
  shows "(\<Sum>u < n. length (waiting v s' u) + sending (eg_workers s' ! u)) +
      (length (waiting v s w) + sending (eg_workers s ! w)) =
    (\<Sum>u < n. length (waiting v s u) + sending (eg_workers s ! u)) + (length (waiting v s' w) + sending wk)"
    and "(\<Sum>u < n. 5 * length (waiting v s' u) + worker_weight (wk_pc (eg_workers s' ! u))) +
      (5 * length (waiting v s w) + worker_weight (wk_pc (eg_workers s ! w))) =
    (\<Sum>u < n. 5 * length (waiting v s u) + worker_weight (wk_pc (eg_workers s ! u))) +
      (5 * length (waiting v s' w) + worker_weight (wk_pc wk))"
proof -
  have len: "w < length (eg_workers s)" using inv w by (simp add: engine_inv_defs)
  have wk: "eg_workers s' ! w = wk" "\<And>u. u \<noteq> w \<Longrightarrow> eg_workers s' ! u = eg_workers s ! u"
    using len by (simp_all add: workers)
  show "(\<Sum>u < n. length (waiting v s' u) + sending (eg_workers s' ! u)) +
      (length (waiting v s w) + sending (eg_workers s ! w)) =
    (\<Sum>u < n. length (waiting v s u) + sending (eg_workers s ! u)) + (length (waiting v s' w) + sending wk)"
    using sum_update [OF w, of "\<lambda>u. length (waiting v s' u) + sending (eg_workers s' ! u)"
        "\<lambda>u. length (waiting v s u) + sending (eg_workers s ! u)"] wk chans by (simp add: waiting_def)
  show "(\<Sum>u < n. 5 * length (waiting v s' u) + worker_weight (wk_pc (eg_workers s' ! u))) +
      (5 * length (waiting v s w) + worker_weight (wk_pc (eg_workers s ! w))) =
    (\<Sum>u < n. 5 * length (waiting v s u) + worker_weight (wk_pc (eg_workers s ! u))) +
      (5 * length (waiting v s' w) + worker_weight (wk_pc wk))"
    using sum_update [OF w, of "\<lambda>u. 5 * length (waiting v s' u) + worker_weight (wk_pc (eg_workers s' ! u))"
        "\<lambda>u. 5 * length (waiting v s u) + worker_weight (wk_pc (eg_workers s ! u))"] wk chans
    by (simp add: waiting_def)
qed

lemma process_item_weight:
  "worker_weight (wk_pc (process_item ps clk it wk)) \<le> 4" "sending (process_item ps clk it wk) \<le> 1"
  by (auto simp: process_item_def worker_weight_def sending_def split: option.splits prod.splits worker_pc.splits)

text \<open>The final drain: an order less, or the end.\<close>

lemma publish_final:
  assumes ops: "channels_ok ops v" and inv: "engine_inv n v s" and pc: "eg_pc s = M_Final"
  defines "s' \<equiv> publish_next ops M_Finished s"
  shows "eg_chans s' = eg_chans s" "eg_workers s' = eg_workers s"
    and "(eg_pc s' = M_Finished \<and> cv_orders v (eg_orders s') = cv_orders v (eg_orders s)) \<or>
      (eg_pc s' = M_Final \<and> Suc (length (cv_orders v (eg_orders s'))) = length (cv_orders v (eg_orders s)))"
proof -
  have ok: "cv_orders_ok v (eg_orders s)" using inv by (simp add: engine_inv_defs)
  show "eg_chans s' = eg_chans s" "eg_workers s' = eg_workers s"
    by (auto simp: s'_def publish_next_def Let_def split: prod.splits option.splits)
  from ops [unfolded channels_ok_def, THEN conjunct2] ok
  show "(eg_pc s' = M_Finished \<and> cv_orders v (eg_orders s') = cv_orders v (eg_orders s)) \<or>
      (eg_pc s' = M_Final \<and> Suc (length (cv_orders v (eg_orders s'))) = length (cv_orders v (eg_orders s)))"
    by (cases rule: chan_recv_cases) (auto simp: s'_def publish_next_def pc Let_def split: prod.splits)
qed

lemma shutdown_step:
  assumes ops: "channels_ok ops v" and sd: "shutting_down n v s" and step: "engine_step ops s s'"
  shows "shutting_down n v s' \<and> shutdown_measure n v s' < shutdown_measure n v s"
proof -
  have inv: "engine_inv n v s" and out: "outstanding n v s \<le> CHANNEL_CAP"
    and pc: "(\<exists>i. eg_pc s = M_Join i) \<or> eg_pc s = M_Final \<or> eg_pc s = M_Finished"
    using sd by (auto simp: shutting_down_def)
  have inv': "engine_inv n v s'" by (rule engine_step_inv [OF ops inv step])
  have len: "length (eg_workers s) = n" "length (eg_chans s) = n" using inv by (simp_all add: engine_inv_defs)
  have closed: "\<not> senders_open s" using pc by (auto simp: senders_open_def)
  have pcw: "shutting_down n v s' \<and> shutdown_measure n v s' < shutdown_measure n v s"
    if w: "w < n" and s': "s' = set_worker w wk s"
      and le: "worker_weight (wk_pc wk) < worker_weight (wk_pc (eg_workers s ! w))" and sn: "sending wk = 0" for w wk
  proof -
    have e: "eg_workers s' = (eg_workers s)[w := wk]" "eg_chans s' = eg_chans s" "eg_orders s' = eg_orders s" "eg_pc s' = eg_pc s"
      by (simp_all add: s' set_worker_def)
    note sums = worker_sums [OF inv w, of s' wk, OF _ e(1)]
    have "outstanding n v s' \<le> outstanding n v s" using sums(1) sn e by (simp add: outstanding_def waiting_def)
    moreover have "shutdown_measure n v s' < shutdown_measure n v s"
      using sums(2) le e by (simp add: shutdown_measure_def waiting_def)
    ultimately show ?thesis using inv' out pc e by (simp add: shutting_down_def)
  qed
  from step show ?thesis
  proof (cases rule: engine_step.cases)
    case (main_join i)
    then show ?thesis using inv' out len
      by (auto simp: shutting_down_def outstanding_def shutdown_measure_def main_weight_def waiting_def)
  next
    case main_joined
    then show ?thesis using inv' out
      by (auto simp: shutting_down_def outstanding_def shutdown_measure_def main_weight_def waiting_def)
  next
    case main_final
    then show ?thesis using inv' out publish_final [OF ops inv main_final(2)]
      by (auto simp: shutting_down_def outstanding_def shutdown_measure_def main_weight_def waiting_def)
  next
    case (worker_place w wk)
    then show ?thesis using len place_worker_pc(1-3) [OF worker_place(4), of ops w]
      by (intro pcw [of w "place_worker ops w wk"]) (auto simp: worker_weight_def)
  next
    case (worker_stop w wk)
    then show ?thesis using len by (intro pcw [of w "wk\<lparr>wk_pc := W_Done\<rparr>"]) (auto simp: worker_weight_def sending_def)
  next
    case (worker_go w wk)
    then show ?thesis using len by (intro pcw [of w "wk\<lparr>wk_pc := W_Recv\<rparr>"]) (auto simp: worker_weight_def sending_def)
  next
    case (worker_closed w wk)
    then show ?thesis using len by (intro pcw [of w "wk\<lparr>wk_pc := W_Done\<rparr>"]) (auto simp: worker_weight_def sending_def)
  next
    case (worker_recv w wk it c clk)
    let ?wk = "process_item (en_params ops) clk it wk"
    have w: "w < n" using worker_recv len by simp
    have "cv_ticks_ok v (eg_chans s ! w)" using inv w len by (simp add: engine_inv_defs)
    with ops [unfolded channels_ok_def, THEN conjunct1]
    have c: "cv_ticks v (eg_chans s ! w) = it # cv_ticks v c"
      by (cases rule: chan_recv_cases; simp add: worker_recv(5))
    have e: "eg_workers s' = (eg_workers s)[w := ?wk]" "eg_chans s' = (eg_chans s)[w := c]"
      "eg_orders s' = eg_orders s" "eg_pc s' = eg_pc s"
      by (simp_all add: worker_recv(1) set_worker_def)
    note sums = worker_sums [OF inv w, of s' ?wk, OF _ e(1)]
    have wt: "length (waiting v s w) = Suc (length (waiting v s' w))" using c w len by (simp add: waiting_def e)
    have one: "sending (eg_workers s ! w) = 0" "worker_weight (wk_pc (eg_workers s ! w)) = 1"
      using worker_recv(3,4) by (simp_all add: sending_def worker_weight_def)
    have "outstanding n v s' \<le> outstanding n v s"
      using sums(1) wt one process_item_weight(2) [of "en_params ops" clk it wk] e by (simp add: outstanding_def)
    moreover have "shutdown_measure n v s' < shutdown_measure n v s"
      using sums(2) wt one process_item_weight(1) [of "en_params ops" clk it wk] e by (simp add: shutdown_measure_def)
    ultimately show ?thesis using inv' out pc e by (simp add: shutting_down_def)
  next
    case (worker_send w wk m c)
    let ?wk = "wk\<lparr>wk_pc := W_Top\<rparr>"
    have w: "w < n" using worker_send len by simp
    have "cv_orders_ok v (eg_orders s)" using inv by (simp add: engine_inv_defs)
    with ops [unfolded channels_ok_def, THEN conjunct2]
    have c: "cv_orders v c = cv_orders v (eg_orders s) @ [m]"
      by (cases rule: chan_send_cases [where m = m]; simp add: worker_send(5))
    have e: "eg_workers s' = (eg_workers s)[w := ?wk]" "eg_chans s' = eg_chans s" "eg_orders s' = c" "eg_pc s' = eg_pc s"
      by (simp_all add: worker_send(1) set_worker_def)
    note sums = worker_sums [OF inv w, of s' ?wk, OF _ e(1)]
    have one: "sending (eg_workers s ! w) = 1" "worker_weight (wk_pc (eg_workers s ! w)) = 4" "sending ?wk = 0"
      "worker_weight (wk_pc ?wk) = 2"
      using worker_send(3,4) by (simp_all add: sending_def worker_weight_def)
    have "outstanding n v s' \<le> outstanding n v s"
      using sums(1) one c e by (simp add: outstanding_def waiting_def)
    moreover have "shutdown_measure n v s' < shutdown_measure n v s"
      using sums(2) one c e by (simp add: shutdown_measure_def waiting_def)
    ultimately show ?thesis using inv' out pc e by (simp add: shutting_down_def)
  qed (use pc closed in auto)
qed

lemma shutdown_outside:
  assumes "shutting_down n v s" "outside_step s s'"
  shows "shutting_down n v s' \<and> shutdown_measure n v s' = shutdown_measure n v s"
  using assms(2) outside_step_inv [OF _ assms(2), of n v] assms(1)
  by cases (auto simp: shutting_down_def outstanding_def shutdown_measure_def waiting_def)

text \<open>As long as the engine is not finished, some thread can take a step.\<close>

lemma shutdown_enabled:
  assumes ops: "channels_ok ops v" and sd: "shutting_down n v s" and pc: "eg_pc s \<noteq> M_Finished"
  shows "\<exists>s'. engine_step ops s s'"
proof -
  have inv: "engine_inv n v s" and out: "outstanding n v s \<le> CHANNEL_CAP"
    and pc': "(\<exists>i. eg_pc s = M_Join i) \<or> eg_pc s = M_Final"
    using sd pc by (auto simp: shutting_down_def)
  have len: "length (eg_workers s) = n" "length (eg_chans s) = n" using inv by (simp_all add: engine_inv_defs)
  show ?thesis
  proof (cases "eg_pc s = M_Final")
    case True
    then show ?thesis using main_final by blast
  next
    case False
    then obtain i where i: "eg_pc s = M_Join i" using pc' by blast
    then have "i \<le> n" using inv by (simp add: engine_inv_defs)
    show ?thesis
    proof (cases "i = n")
      case True
      then show ?thesis using main_joined i len by blast
    next
      case False
      then have w: "i < n" using \<open>i \<le> n\<close> by simp
      let ?wk = "eg_workers s ! i"
      have wl: "i < length (eg_workers s)" using w len by simp
      show ?thesis
      proof (cases "wk_pc ?wk")
        case W_Pin
        then show ?thesis using worker_place [OF wl refl] by blast
      next
        case W_Group
        then show ?thesis using worker_place [OF wl refl] by blast
      next
        case W_Top
        then show ?thesis using worker_go [OF wl refl] worker_stop [OF wl refl] by blast
      next
        case W_Recv
        obtain r c where r: "ch_try_recv (en_ticks_chan ops) (eg_chans s ! i) = (r, c)" by force
        have cl: "\<not> senders_open s" using i by (simp add: senders_open_def)
        show ?thesis
        proof (cases r)
          case None
          then have "fst (ch_try_recv (en_ticks_chan ops) (eg_chans s ! i)) = None" using r by simp
          then show ?thesis using worker_closed [OF wl refl W_Recv _ cl] by blast
        next
          case (Some it)
          then show ?thesis using worker_recv [OF wl refl W_Recv] r by blast
        qed
      next
        case (W_Send m)
        have "sending ?wk \<le> (\<Sum>w < n. length (waiting v s w) + sending (eg_workers s ! w))"
          using member_le_sum [of i "{..<n}" "\<lambda>w. length (waiting v s w) + sending (eg_workers s ! w)"] w by simp
        then have "length (cv_orders v (eg_orders s)) < CHANNEL_CAP"
          using out W_Send by (simp add: outstanding_def sending_def)
        moreover have "cv_orders_ok v (eg_orders s)" using inv by (simp add: engine_inv_defs)
        ultimately obtain c where "ch_try_send (en_orders_chan ops) m (eg_orders s) = (True, c)"
          using chan_send_cases [OF ops [unfolded channels_ok_def, THEN conjunct2], of "eg_orders s" m]
          by (metis less_irrefl)
        then show ?thesis using worker_send [OF wl refl W_Send] by blast
      next
        case W_Done
        then show ?thesis using main_join [OF i wl] by blast
      qed
    qed
  qed
qed

lemma shutdown_runs:
  assumes "(engine_moves ops)\<^sup>*\<^sup>* s s'" "channels_ok ops v" "shutting_down n v s"
  shows "shutting_down n v s'"
  using assms by (induction rule: rtranclp_induct) (auto simp: engine_moves_def dest: shutdown_step shutdown_outside)

section \<open>The hang\<close>

text \<open>A worker that waits to send, a full channel, and a main thread that waits for this worker.\<close>

definition hung :: "('c, 'o) chan_view \<Rightarrow> ('c, 'o) engine \<Rightarrow> bool" where
  "hung v s \<longleftrightarrow>
     (\<exists>i m. eg_pc s = M_Join i \<and> i < length (eg_workers s) \<and> wk_pc (eg_workers s ! i) = W_Send m) \<and>
     length (cv_orders v (eg_orders s)) = CHANNEL_CAP"

lemma hung_step:
  assumes ops: "channels_ok ops v" and inv: "engine_inv n v s" and hung: "hung v s" and step: "engine_moves ops s s'"
  shows "hung v s'"
proof -
  obtain i m where pc: "eg_pc s = M_Join i" and i: "i < length (eg_workers s)" and m: "wk_pc (eg_workers s ! i) = W_Send m"
    and full: "length (cv_orders v (eg_orders s)) = CHANNEL_CAP"
    using hung by (auto simp: hung_def)
  have ok: "cv_orders_ok v (eg_orders s)" using inv by (simp add: engine_inv_defs)
  have no_send: "ch_try_send (en_orders_chan ops) m' (eg_orders s) \<noteq> (True, c)" for m' c
    using chan_send_cases [OF ops [unfolded channels_ok_def, THEN conjunct2] ok, of m'] full by (metis less_irrefl prod.inject)
  have other: "hung v (set_worker w wk s)" if "\<forall>m. wk_pc (eg_workers s ! w) \<noteq> W_Send m" for w wk
  proof -
    have "w \<noteq> i" using m that by auto
    then show ?thesis using pc i m full by (auto simp: hung_def set_worker_def)
  qed
  from step consider "engine_step ops s s'" | "outside_step s s'" by (auto simp: engine_moves_def)
  then show ?thesis
  proof cases
    case 1
    then show ?thesis
    proof (cases rule: engine_step.cases)
      case (worker_recv w wk it c clk)
      then have "w \<noteq> i" using m by auto
      then show ?thesis using pc i m full unfolding worker_recv(1) by (auto simp: hung_def set_worker_def)
    next
      case (worker_send w wk m' c)
      then show ?thesis using no_send by blast
    qed (use pc m i other in auto)
  next
    case 2
    then show ?thesis using pc i m full by cases (auto simp: hung_def)
  qed
qed

lemma hung_forever:
  assumes "(engine_moves ops)\<^sup>*\<^sup>* s s'" "channels_ok ops v" "engine_inv n v s" "hung v s"
  shows "hung v s' \<and> engine_inv n v s'"
  using assms by (induction rule: rtranclp_induct) (blast intro: hung_step engine_moves_inv)+

subsection \<open>It is reached\<close>

text \<open>
  One worker, no threshold and no cooldown, so that every tick but the first of a symbol gives an
  order. The states on the way, by the position of the main thread and of the worker, the number
  of ticks waiting and the number of orders queued.
\<close>

definition eager_params :: strategy_params where
  "eager_params = \<lparr>sp_alpha = f64_lit 1 2, sp_threshold_bps = f64_lit 0 1, sp_cooldown_ns = 0, sp_qty = 1\<rparr>"

definition eager_tick :: market_tick where
  "eager_tick = demo_tick 100000000 100010000"

definition on_the_way ::
  "('c, 'o) chan_view \<Rightarrow> main_pc \<Rightarrow> (worker_pc \<Rightarrow> bool) \<Rightarrow> nat \<Rightarrow> nat \<Rightarrow> bool \<Rightarrow> ('c, 'o) engine \<Rightarrow> bool" where
  "on_the_way v p wp ticks orders known s \<longleftrightarrow>
     engine_inv 1 v s \<and> \<not> eg_stop s \<and> eg_pc s = p \<and> wp (wk_pc (eg_workers s ! 0)) \<and>
     ends_queue (eg_ticks_in s) = [] \<and>
     length (waiting v s 0) = ticks \<and> (\<forall>it \<in> set (waiting v s 0). mt_symbol (wi_tick it) = mt_symbol eager_tick) \<and>
     length (cv_orders v (eg_orders s)) = orders \<and>
     (ss_initialised (entry_of (wk_state (eg_workers s ! 0)) (mt_symbol eager_tick)) \<longleftrightarrow> known)"

definition is_send :: "worker_pc \<Rightarrow> bool" where
  "is_send p \<longleftrightarrow> (\<exists>m. p = W_Send m)"

definition at_top :: "worker_pc \<Rightarrow> bool" where
  "at_top p \<longleftrightarrow> p = W_Top"

text \<open>Mantissas are not negative, so an absolute value is never below zero, and the comparison with a
  threshold of zero never holds, for NaN either.\<close>

definition mantissa_ok :: "f64 \<Rightarrow> bool" where
  "mantissa_ok a \<longleftrightarrow> (case a of F_Fin s m e \<Rightarrow> 0 \<le> m | _ \<Rightarrow> True)"

lemma mantissa_round: "0 \<le> p \<Longrightarrow> 0 < q \<Longrightarrow> mantissa_ok (f64_round s p q)"
proof -
  assume "0 \<le> p" "0 < q"
  then have "0 \<le> rne_div (p * 2 ^ nat (- e)) (q * 2 ^ nat e)" for e
    by (simp add: rne_div_def Let_def pos_imp_zdiv_nonneg_iff)
  then show ?thesis by (simp add: f64_round_def f64_make_def Let_def mantissa_ok_def)
qed

lemma mantissa_add: "mantissa_ok (f64_add a b)"
  by (cases "(a, b)" rule: f64_add.cases) (simp_all add: mantissa_ok_def [of "F_Fin _ _ _"]
      mantissa_ok_def [of F_NaN] mantissa_ok_def [of "F_Inf _"] f64_scaled_def mantissa_round Let_def)

lemma mantissa_div: "mantissa_ok a \<Longrightarrow> mantissa_ok b \<Longrightarrow> mantissa_ok (f64_div a b)"
  by (cases "(a, b)" rule: f64_div.cases) (auto simp: mantissa_ok_def [of "F_Fin _ _ _"]
      mantissa_ok_def [of F_NaN] mantissa_ok_def [of "F_Inf _"] intro!: mantissa_round mult_pos_pos)

lemma mantissa_mul: "mantissa_ok a \<Longrightarrow> mantissa_ok b \<Longrightarrow> mantissa_ok (f64_mul a b)"
  by (cases "(a, b)" rule: f64_mul.cases) (auto simp: mantissa_ok_def [of "F_Fin _ _ _"]
      mantissa_ok_def [of F_NaN] mantissa_ok_def [of "F_Inf _"] f64_scaled_def intro!: mantissa_round)

lemma mantissa_lit: "0 < q \<Longrightarrow> mantissa_ok (f64_lit p q)"
  by (simp add: f64_lit_def mantissa_round)

lemma abs_not_below_zero:
  assumes "mantissa_ok d"
  shows "\<not> f64_lt (f64_abs d) (f64_lit 0 1)"
proof -
  have z: "f64_lit 0 1 = F_Fin False 0 (- 1074)" by code_simp
  show ?thesis unfolding z using assms
    by (cases d) (auto simp: mantissa_ok_def Let_def sgn_of_def not_less)
qed

lemma eager_order:
  assumes "ss_initialised e"
  shows "\<exists>m e'. entry_step eager_params now t e = (Some m, e') \<and> ss_initialised e'"
proof -
  have "mantissa_ok (dev_bps mid (ema_update a mid x))" for mid a x
    unfolding dev_bps_def ema_update_def f64_sub_def
    by (intro mantissa_mul mantissa_div mantissa_add mantissa_lit) simp
  then show ?thesis using assms abs_not_below_zero
    by (simp add: entry_step_def eager_params_def Let_def)
qed

lemma eager_first: "ss_initialised (snd (entry_step ps now t e)) \<longleftrightarrow> True"
  by (simp add: entry_step_def Let_def)

text \<open>What the worker makes of an item of the symbol.\<close>

lemma eager_process:
  assumes "mt_symbol (wi_tick it) = mt_symbol eager_tick"
  defines "known wk \<equiv> ss_initialised (entry_of (wk_state wk) (mt_symbol eager_tick))"
  shows "known (process_item eager_params clk it wk)"
    and "known wk \<Longrightarrow> is_send (wk_pc (process_item eager_params clk it wk))"
    and "\<not> known wk \<Longrightarrow> at_top (wk_pc (process_item eager_params clk it wk))"
proof -
  let ?t = "wi_tick it"
  obtain ord e where e: "entry_step eager_params (snd clk) ?t (entry_of (wk_state wk) (mt_symbol ?t)) = (ord, e)" by force
  obtain dev where step: "strategy_step eager_params (snd clk) ?t (wk_state wk) (wk_next_order_id wk) =
      ((map_option (\<lambda>m. m\<lparr>om_order_id := wk_next_order_id wk + 1\<rparr>) ord, dev), (wk_state wk)(mt_symbol ?t \<mapsto> e),
       (if ord = None then wk_next_order_id wk else wk_next_order_id wk + 1))"
    using strategy_step_entry [OF e] by blast
  have "ss_initialised e" using eager_first [of eager_params "snd clk" ?t "entry_of (wk_state wk) (mt_symbol ?t)"] e by simp
  then show "known (process_item eager_params clk it wk)"
    unfolding known_def process_item_def step by (cases ord) (simp_all add: assms(1) del: fun_upd_apply)
  show "is_send (wk_pc (process_item eager_params clk it wk))" if "known wk"
    using eager_order [of "entry_of (wk_state wk) (mt_symbol ?t)" "snd clk" ?t] e that
    unfolding known_def process_item_def step by (auto simp: assms(1) is_send_def)
  show "at_top (wk_pc (process_item eager_params clk it wk))" if "\<not> known wk"
  proof -
    have "ord = None" using e that by (auto simp: known_def assms(1) entry_step_def Let_def split: if_splits)
    then show ?thesis unfolding process_item_def step by (simp add: at_top_def)
  qed
qed

lemma way_tick:
  assumes ops: "channels_ok ops v" and way: "on_the_way v M_Top wp L 0 known s" and room: "L < CHANNEL_CAP"
    and wp: "\<not> wp W_Done"
  shows "\<exists>s'. (engine_moves ops)\<^sup>*\<^sup>* s s' \<and> on_the_way v M_Top wp (Suc L) 0 known s'"
proof -
  let ?m = "tick_bytes [0, 0, 0, 0] eager_tick"
  have inv: "engine_inv 1 v s" using way by (simp add: on_the_way_def)
  have sh: "length (eg_chans s) = 1" "length (eg_workers s) = 1" "ends_ok (eg_ticks_in s)"
    "cv_ticks_ok v (eg_chans s ! 0)" "cv_orders_ok v (eg_orders s)"
    using inv by (auto simp: engine_inv_defs)
  have wf: "tick_wf eager_tick" by (simp add: tick_wf_def eager_tick_def demo_tick_def SYMBOL_LEN_def)
  have fits: "fits_slot ?m"
    using length_tick_bytes [OF wf, of "[0, 0, 0, 0]"] by (simp add: fits_slot_def SLOT_PAYLOAD_def layout_simps)
  have dec: "tick_of_bytes (pad_payload ?m) = eager_tick"
    unfolding pad_payload_def by (rule tick_of_tick_bytes [OF wf])
  obtain r where push: "ring_push ?m (eg_ticks_in s) = (True, r)" "ends_ok r" "ends_queue r = [pad_payload ?m]"
    using ring_push_room [OF sh(3) fits] way by (auto simp: on_the_way_def)
  obtain r1 where pop: "ring_pop r = (Some (pad_payload ?m), r1)" "ends_queue r1 = []"
    using ring_fifo.pop_some [OF push(2,3)] by blast
  let ?s1 = "s\<lparr>eg_ticks_in := r\<rparr>" and ?it = "\<lparr>wi_tick = eager_tick, wi_enqueued_ns = 0\<rparr>"
  let ?s2 = "?s1\<lparr>eg_pc := M_Take\<rparr>"
  define s3 where "s3 = dispatch ops (0, 0) ?s2"
  define s4 where "s4 = back_off (publish_next ops M_Top s3)"
  have len: "length (cv_ticks v (eg_chans s ! 0)) = L" using way by (simp add: on_the_way_def waiting_def)
  obtain c where c: "ch_try_send (en_ticks_chan ops) ?it (eg_chans s ! 0) = (True, c)"
    "cv_ticks v c = cv_ticks v (eg_chans s ! 0) @ [?it]"
    by (rule chan_send_cases [OF ops [unfolded channels_ok_def, THEN conjunct1] sh(4), of ?it])
      (use room len in auto)
  have alive: "wk_pc (eg_workers s ! 0) \<noteq> W_Done" using way wp by (auto simp: on_the_way_def)
  have d: "eg_pc s3 = M_Drain" "eg_chans s3 = (eg_chans s)[0 := c]" "eg_workers s3 = eg_workers s"
    "eg_orders s3 = eg_orders s" "eg_ticks_in s3 = r1" "eg_stop s3 = eg_stop s"
    using pop c(1) alive sh(1) by (simp_all add: s3_def dispatch_def dec Let_def route_def)
  have e: "eg_pc s4 = M_Top" "eg_chans s4 = eg_chans s3" "eg_workers s4 = eg_workers s3"
    "eg_ticks_in s4 = eg_ticks_in s3" "eg_stop s4 = eg_stop s3" "cv_orders v (eg_orders s4) = []"
  proof -
    have "cv_orders v (eg_orders s3) = []" "cv_orders_ok v (eg_orders s3)"
      using way sh(5) by (simp_all add: on_the_way_def d)
    then have "ch_try_recv (en_orders_chan ops) (eg_orders s3) = (None, eg_orders s3)"
      using chan_recv_cases [OF ops [unfolded channels_ok_def, THEN conjunct2], of "eg_orders s3"] by (metis list.discI)
    then show "eg_pc s4 = M_Top" "eg_chans s4 = eg_chans s3" "eg_workers s4 = eg_workers s3"
      "eg_ticks_in s4 = eg_ticks_in s3" "eg_stop s4 = eg_stop s3" "cv_orders v (eg_orders s4) = []"
      using \<open>cv_orders v (eg_orders s3) = []\<close> by (simp_all add: s4_def publish_next_def back_off_def)
  qed
  have m1: "engine_moves ops s ?s1"
    using outside_step.tick_in [OF fits, of s] push(1) by (simp add: engine_moves_def)
  have m2: "engine_moves ops ?s1 ?s2"
    using main_enter [of ?s1 ops] way by (simp add: engine_moves_def on_the_way_def)
  have m3: "engine_moves ops ?s2 s3"
    using main_take [of ?s2 ops "(0, 0)"] by (simp add: engine_moves_def s3_def)
  have m4: "engine_moves ops s3 s4"
    using main_drain [of s3 ops] d(1) by (simp add: engine_moves_def s4_def)
  have run: "(engine_moves ops)\<^sup>*\<^sup>* s s4"
    using m1 m2 m3 m4 by (meson converse_rtranclp_into_rtranclp rtranclp.rtrancl_refl)
  have "engine_inv 1 v s4" by (rule engine_runs_inv [OF run ops inv])
  then have "on_the_way v M_Top wp (Suc L) 0 known s4"
    using way d e c(2) pop(2) sh(1) by (auto simp: on_the_way_def waiting_def)
  then show ?thesis using run by blast
qed

lemma way_recv:
  assumes ops: "channels_ok ops v" "en_params ops = eager_params" and way: "on_the_way v p at_top (Suc L) K known s"
  shows "\<exists>s'. (engine_moves ops)\<^sup>*\<^sup>* s s' \<and> on_the_way v p (if known then is_send else at_top) L K True s'"
proof -
  have inv: "engine_inv 1 v s" using way by (simp add: on_the_way_def)
  have sh: "length (eg_chans s) = 1" "length (eg_workers s) = 1" "cv_ticks_ok v (eg_chans s ! 0)"
    using inv by (auto simp: engine_inv_defs)
  let ?wk = "eg_workers s ! 0"
  let ?wk1 = "?wk\<lparr>wk_pc := W_Recv\<rparr>"
  let ?s1 = "set_worker 0 ?wk1 s"
  have "cv_ticks v (eg_chans s ! 0) \<noteq> []" using way by (auto simp: on_the_way_def waiting_def)
  then obtain it c where c: "ch_try_recv (en_ticks_chan ops) (eg_chans s ! 0) = (Some it, c)"
    "cv_ticks v (eg_chans s ! 0) = it # cv_ticks v c"
    using chan_recv_cases [OF ops(1) [unfolded channels_ok_def, THEN conjunct1] sh(3)] by metis
  have it: "mt_symbol (wi_tick it) = mt_symbol eager_tick"
    using way c(2) by (simp add: on_the_way_def waiting_def)
  let ?wk2 = "process_item eager_params (0, 0) it ?wk1"
  let ?s2 = "set_worker 0 ?wk2 (?s1\<lparr>eg_chans := (eg_chans s)[0 := c]\<rparr>)"
  have m1: "engine_moves ops s ?s1"
    using worker_go [of 0 s ?wk ops] way sh(2) by (simp add: engine_moves_def on_the_way_def at_top_def)
  have w1: "eg_workers ?s1 ! 0 = ?wk1" "eg_chans ?s1 = eg_chans s" using sh(2) by (simp_all add: set_worker_def)
  have m2: "engine_moves ops ?s1 ?s2"
    using worker_recv [of 0 ?s1 ?wk1 ops it c "(0, 0)"] sh(2) w1 c(1) ops(2)
    by (simp add: engine_moves_def set_worker_def)
  have run: "(engine_moves ops)\<^sup>*\<^sup>* s ?s2"
    using m1 m2 by (meson converse_rtranclp_into_rtranclp rtranclp.rtrancl_refl)
  have inv2: "engine_inv 1 v ?s2" by (rule engine_runs_inv [OF run ops(1) inv])
  have wk2: "eg_workers ?s2 ! 0 = ?wk2" using sh(2) by (simp add: set_worker_def)
  have pc2: "if known then is_send (wk_pc ?wk2) else at_top (wk_pc ?wk2)"
    using eager_process(2,3) [OF it, of ?wk1 "(0, 0)"] way by (auto simp: on_the_way_def)
  have "on_the_way v p (if known then is_send else at_top) L K True ?s2"
    using inv2 way c(2) sh pc2 eager_process(1) [OF it, of "(0, 0)" ?wk1] unfolding on_the_way_def wk2
    by (auto simp: waiting_def set_worker_def)
  then show ?thesis using run by blast
qed

lemma way_send:
  assumes ops: "channels_ok ops v" and way: "on_the_way v p is_send L K known s" and room: "K < CHANNEL_CAP"
  shows "\<exists>s'. (engine_moves ops)\<^sup>*\<^sup>* s s' \<and> on_the_way v p at_top L (Suc K) known s'"
proof -
  have inv: "engine_inv 1 v s" using way by (simp add: on_the_way_def)
  have sh: "length (eg_workers s) = 1" "cv_orders_ok v (eg_orders s)" using inv by (auto simp: engine_inv_defs)
  let ?wk = "eg_workers s ! 0"
  obtain m where m: "wk_pc ?wk = W_Send m" using way by (auto simp: on_the_way_def is_send_def)
  have len: "length (cv_orders v (eg_orders s)) = K" using way by (simp add: on_the_way_def)
  obtain c where c: "ch_try_send (en_orders_chan ops) m (eg_orders s) = (True, c)"
    "cv_orders v c = cv_orders v (eg_orders s) @ [m]"
    by (rule chan_send_cases [OF ops [unfolded channels_ok_def, THEN conjunct2] sh(2), of m]) (use room len in auto)
  let ?s1 = "set_worker 0 (?wk\<lparr>wk_pc := W_Top\<rparr>) (s\<lparr>eg_orders := c\<rparr>)"
  have m1: "engine_moves ops s ?s1"
    using worker_send [of 0 s ?wk m ops c] m c(1) sh(1) by (simp add: engine_moves_def)
  have "engine_inv 1 v ?s1" by (rule engine_moves_inv [OF ops m1 inv])
  then have "on_the_way v p at_top L (Suc K) known ?s1"
    using way c(2) sh(1) by (auto simp: on_the_way_def waiting_def set_worker_def at_top_def)
  then show ?thesis using m1 by blast
qed

lemma way_exit:
  assumes ops: "channels_ok ops v" "en_deadline ops" and way: "on_the_way v M_Top wp L K known s"
  shows "\<exists>s'. (engine_moves ops)\<^sup>*\<^sup>* s s' \<and> on_the_way v (M_Join 0) wp L K known s'"
proof -
  let ?s = "s\<lparr>eg_pc := M_Join 0\<rparr>"
  have m: "engine_moves ops s ?s" using main_exit [of s ops] way ops(2) by (simp add: engine_moves_def on_the_way_def)
  have "engine_inv 1 v ?s" by (rule engine_moves_inv [OF ops(1) m]) (use way in \<open>simp add: on_the_way_def\<close>)
  then have "on_the_way v (M_Join 0) wp L K known ?s" using way by (simp add: on_the_way_def waiting_def)
  then show ?thesis using m by blast
qed

lemma way_ticks:
  assumes ops: "channels_ok ops v" and wp: "\<not> wp W_Done"
  shows "on_the_way v M_Top wp L 0 known s \<Longrightarrow> L + k \<le> CHANNEL_CAP \<Longrightarrow>
    \<exists>s'. (engine_moves ops)\<^sup>*\<^sup>* s s' \<and> on_the_way v M_Top wp (L + k) 0 known s'"
proof (induction k)
  case 0
  then show ?case by auto
next
  case (Suc k)
  then obtain s1 where s1: "(engine_moves ops)\<^sup>*\<^sup>* s s1" "on_the_way v M_Top wp (L + k) 0 known s1" by auto
  then obtain s2 where "(engine_moves ops)\<^sup>*\<^sup>* s1 s2" "on_the_way v M_Top wp (Suc (L + k)) 0 known s2"
    using way_tick [where wp = wp and L = "L + k", OF ops s1(2)] wp Suc.prems(2) by auto
  then show ?case using s1(1) by (auto intro: rtranclp_trans)
qed

text \<open>A worker alone, with \<open>k + 1\<close> ticks waiting, fills the channel up to \<open>K + k\<close>.\<close>

lemma way_orders:
  assumes ops: "channels_ok ops v" "en_params ops = eager_params"
  shows "on_the_way v p is_send k K True s \<Longrightarrow> K + k \<le> CHANNEL_CAP \<Longrightarrow>
    \<exists>s'. (engine_moves ops)\<^sup>*\<^sup>* s s' \<and> on_the_way v p is_send 0 (K + k) True s'"
proof (induction k arbitrary: K s)
  case 0
  then show ?case by auto
next
  case (Suc k)
  then obtain s1 where s1: "(engine_moves ops)\<^sup>*\<^sup>* s s1" "on_the_way v p at_top (Suc k) (Suc K) True s1"
    using way_send [OF ops(1) Suc.prems(1)] by auto
  then obtain s2 where s2: "(engine_moves ops)\<^sup>*\<^sup>* s1 s2" "on_the_way v p is_send k (Suc K) True s2"
    using way_recv [OF ops s1(2)] by auto
  then obtain s3 where "(engine_moves ops)\<^sup>*\<^sup>* s2 s3" "on_the_way v p is_send 0 (Suc K + k) True s3"
    using Suc.IH [of "Suc K" s2] Suc.prems(2) by auto
  then show ?case using s1(1) s2(1) by (auto intro: rtranclp_trans)
qed

text \<open>The worker places itself first.\<close>

lemma way_place:
  assumes ops: "channels_ok ops v" and way: "on_the_way v p wp L K known s"
    and pc: "wk_pc (eg_workers s ! 0) \<in> {W_Pin, W_Group}"
    and wp': "wp' (wk_pc (place_worker ops 0 (eg_workers s ! 0)))"
  shows "\<exists>s'. (engine_moves ops)\<^sup>*\<^sup>* s s' \<and> on_the_way v p wp' L K known s' \<and>
    eg_workers s' ! 0 = place_worker ops 0 (eg_workers s ! 0)"
proof -
  have inv: "engine_inv 1 v s" using way by (simp add: on_the_way_def)
  then have len: "length (eg_workers s) = 1" by (simp add: engine_inv_defs)
  let ?s1 = "set_worker 0 (place_worker ops 0 (eg_workers s ! 0)) s"
  have m: "engine_moves ops s ?s1" using worker_place [of 0 s _ ops] pc len by (simp add: engine_moves_def)
  have "engine_inv 1 v ?s1" by (rule engine_moves_inv [OF ops m inv])
  then have "on_the_way v p wp' L K known ?s1"
    using way wp' len by (auto simp: on_the_way_def waiting_def set_worker_def place_worker_props)
  then show ?thesis using m len by (intro exI [of _ ?s1]) (auto simp: set_worker_def)
qed

lemma way_placed:
  assumes ops: "channels_ok ops v" and quiet: "pins_quietly ops 0"
    and way: "on_the_way v p (\<lambda>p. p = W_Pin) L K known s"
  shows "\<exists>s'. (engine_moves ops)\<^sup>*\<^sup>* s s' \<and> on_the_way v p at_top L K known s'"
proof -
  have pin: "wk_pc (eg_workers s ! 0) = W_Pin" using way by (simp add: on_the_way_def)
  then have "wk_pc (place_worker ops 0 (eg_workers s ! 0)) = W_Group"
    using quiet by (auto simp: place_worker_def pins_quietly_def split: option.splits pin_result.splits)
  then obtain s1 where s1: "(engine_moves ops)\<^sup>*\<^sup>* s s1" "on_the_way v p (\<lambda>p. p = W_Group) L K known s1"
    using way_place [OF ops way, of "\<lambda>p. p = W_Group"] pin by auto
  then have grp: "wk_pc (eg_workers s1 ! 0) = W_Group" by (simp add: on_the_way_def)
  then have "at_top (wk_pc (place_worker ops 0 (eg_workers s1 ! 0)))"
    using place_worker_pc(2) by (simp add: at_top_def)
  then obtain s2 where "(engine_moves ops)\<^sup>*\<^sup>* s1 s2" "on_the_way v p at_top L K known s2"
    using way_place [OF ops s1(2), of at_top] grp by auto
  then show ?thesis using s1(1) by (meson rtranclp_trans)
qed

lemma hang_reached:
  assumes ops: "channels_ok ops v" "en_params ops = eager_params" "en_deadline ops" "pins_quietly ops 0"
    and start: "starts 1 v c0 o0 ticks orders" "ends_queue ticks = []"
  shows "\<exists>s. (engine_moves ops)\<^sup>*\<^sup>* (engine_init 1 c0 o0 ticks orders) s \<and> engine_inv 1 v s \<and> hung v s"
proof -
  let ?s = "engine_init 1 c0 o0 ticks orders"
  have alive: "\<not> at_top W_Done" "\<not> is_send W_Done" by (simp_all add: at_top_def is_send_def)
  have cap: "2 \<le> CHANNEL_CAP" by (simp add: CHANNEL_CAP_def)
  have "on_the_way v M_Top (\<lambda>p. p = W_Pin) 0 0 False ?s"
    using engine_init_inv [OF start(1)] start
    by (simp add: on_the_way_def starts_def engine_init_def worker_init_def waiting_def at_top_def entry_of_def
        symbol_state_default_def)
  then obtain s0 where s0: "(engine_moves ops)\<^sup>*\<^sup>* ?s s0" "on_the_way v M_Top at_top 0 0 False s0"
    using way_placed [OF ops(1,4)] by blast
  then obtain s1 where s1: "(engine_moves ops)\<^sup>*\<^sup>* s0 s1" "on_the_way v M_Top at_top 1 0 False s1"
    using way_tick [where wp = at_top and L = 0, OF ops(1)] alive(1) cap by fastforce
  then obtain s2 where s2: "(engine_moves ops)\<^sup>*\<^sup>* s1 s2" "on_the_way v M_Top at_top 0 0 True s2"
    using way_recv [OF ops(1,2), of M_Top 0 0 False s1] by auto
  then obtain s3 where s3: "(engine_moves ops)\<^sup>*\<^sup>* s2 s3" "on_the_way v M_Top at_top 1 0 True s3"
    using way_tick [where wp = at_top and L = 0, OF ops(1)] alive(1) cap by fastforce
  then obtain s4 where s4: "(engine_moves ops)\<^sup>*\<^sup>* s3 s4" "on_the_way v M_Top is_send 0 0 True s4"
    using way_recv [OF ops(1,2), of M_Top 0 0 True s3] by auto
  then obtain s5 where s5: "(engine_moves ops)\<^sup>*\<^sup>* s4 s5" "on_the_way v M_Top is_send CHANNEL_CAP 0 True s5"
    using way_ticks [where wp = is_send and L = 0 and k = CHANNEL_CAP, OF ops(1) alive(2) s4(2)] by auto
  then obtain s6 where s6: "(engine_moves ops)\<^sup>*\<^sup>* s5 s6" "on_the_way v (M_Join 0) is_send CHANNEL_CAP 0 True s6"
    using way_exit [OF ops(1,3)] by blast
  then obtain s7 where s7: "(engine_moves ops)\<^sup>*\<^sup>* s6 s7" "on_the_way v (M_Join 0) is_send 0 CHANNEL_CAP True s7"
    using way_orders [OF ops(1,2) s6(2)] by auto
  have inv: "engine_inv 1 v s7" using s7(2) by (simp add: on_the_way_def)
  then have "length (eg_workers s7) = 1" by (simp add: engine_inv_defs)
  then have "hung v s7" using s7(2) by (auto simp: on_the_way_def hung_def is_send_def)
  moreover have "(engine_moves ops)\<^sup>*\<^sup>* ?s s7"
    using s0(1) s1(1) s2(1) s3(1) s4(1) s5(1) s6(1) s7(1) by (meson rtranclp_trans)
  ultimately show ?thesis using inv by blast
qed

section \<open>Properties\<close>

lemma decreases_finite:
  fixes m :: "nat \<Rightarrow> nat"
  assumes le: "\<And>i. m (Suc i) \<le> m i" and less: "\<And>i. i \<in> S \<Longrightarrow> m (Suc i) < m i"
  shows "finite S"
proof (rule ccontr)
  assume "infinite S"
  have card: "card (S \<inter> {..<k}) + m k \<le> m 0" for k
  proof (induction k)
    case (Suc k)
    have "S \<inter> {..<Suc k} = (if k \<in> S then insert k (S \<inter> {..<k}) else S \<inter> {..<k})" by (auto simp: less_Suc_eq)
    then show ?case using Suc le [of k] less [of k] by (auto split: if_splits)
  qed simp
  obtain B where B: "finite B" "card B = Suc (m 0)" "B \<subseteq> S"
    using infinite_arbitrarily_large [OF \<open>infinite S\<close>] by blast
  have "B \<subseteq> S \<inter> {..<Suc (Max B)}" using B by (auto simp: less_Suc_eq_le)
  then have "card B \<le> card (S \<inter> {..<Suc (Max B)})" by (intro card_mono) auto
  then show False using card [of "Suc (Max B)"] B(2) by simp
qed

text \<open>C9. The shutdown ends: from any reachable state in which the main thread has left its loop and
  the orders queued, in the workers' hands and still to come from waiting ticks fit the orders
  channel, only finitely many steps of the engine's threads are left in any run, whatever the
  signal, the feedhandler and the clocks do; and the engine cannot come to rest before the report:
  a state in which no thread can move is the finished one.\<close>

theorem shutdown_completes:
  assumes "channels_ok ops v" and "starts n v c0 o0 ticks orders"
    and "(engine_moves ops)\<^sup>*\<^sup>* (engine_init n c0 o0 ticks orders) s"
    and "eg_pc s = M_Join i" and "outstanding n v s \<le> CHANNEL_CAP"
  shows "(\<forall>run. run 0 = s \<and> (\<forall>k. engine_moves ops (run k) (run (Suc k))) \<longrightarrow>
      finite {k. \<not> outside_step (run k) (run (Suc k))}) \<and>
    (\<forall>s'. (engine_moves ops)\<^sup>*\<^sup>* s s' \<and> (\<forall>s''. \<not> engine_step ops s' s'') \<longrightarrow> eg_pc s' = M_Finished)"
proof -
  have "engine_inv n v s" by (rule engine_runs_inv [OF assms(3,1) engine_init_inv [OF assms(2)]])
  then have sd: "shutting_down n v s" using assms(4,5) by (simp add: shutting_down_def)
  have "finite {k. \<not> outside_step (run k) (run (Suc k))}"
    if run: "run 0 = s" "\<And>k. engine_moves ops (run k) (run (Suc k))" for run
  proof -
    have "(engine_moves ops)\<^sup>*\<^sup>* s (run k)" for k
      by (induction k) (use run in \<open>auto intro: rtranclp.rtrancl_into_rtrancl\<close>)
    then have sdk: "shutting_down n v (run k)" for k using shutdown_runs [OF _ assms(1) sd] by blast
    have le: "shutdown_measure n v (run (Suc k)) \<le> shutdown_measure n v (run k)" for k
      using run(2) [of k] shutdown_step [OF assms(1) sdk] shutdown_outside [OF sdk]
      by (force simp: engine_moves_def less_imp_le)
    show ?thesis
      by (rule decreases_finite [of "\<lambda>k. shutdown_measure n v (run k)", OF le])
        (use run(2) shutdown_step [OF assms(1) sdk] in \<open>auto simp: engine_moves_def\<close>)
  qed
  moreover have "eg_pc s' = M_Finished" if "(engine_moves ops)\<^sup>*\<^sup>* s s'" "\<forall>s''. \<not> engine_step ops s' s''" for s'
    using shutdown_enabled [OF assms(1) shutdown_runs [OF that(1) assms(1) sd]] that(2) by blast
  ultimately show ?thesis by blast
qed

theorem shutdown_completes_witness:
  "\<exists>s. (engine_moves (list_ops demo_params True))\<^sup>*\<^sup>* (engine_init 2 [] [] fresh_ends fresh_ends) s \<and>
     eg_pc s = M_Join 0 \<and>
     (\<forall>s'. (engine_moves (list_ops demo_params True))\<^sup>*\<^sup>* s s' \<and>
        (\<forall>s''. \<not> engine_step (list_ops demo_params True) s' s'') \<longrightarrow> eg_pc s' = M_Finished)"
proof -
  let ?ops = "list_ops demo_params True"
  let ?s = "engine_init 2 [] [] fresh_ends fresh_ends :: (work_item list, order_msg list) engine"
  let ?s1 = "?s\<lparr>eg_pc := M_Join 0\<rparr>"
  have "engine_step ?ops ?s ?s1" by (rule main_exit) (simp_all add: engine_init_def list_ops_def)
  then have r: "(engine_moves ?ops)\<^sup>*\<^sup>* ?s ?s1" by (intro r_into_rtranclp) (simp add: engine_moves_def)
  have pc: "eg_pc ?s1 = M_Join 0" by simp
  have "(\<Sum>w < (2 :: nat). length (waiting list_view ?s1 w) + sending (eg_workers ?s1 ! w)) = 0"
    by (simp add: numeral_2_eq_2 lessThan_Suc engine_init_def waiting_def list_view_def sending_def worker_init_def)
  then have out: "outstanding 2 list_view ?s1 \<le> CHANNEL_CAP"
    by (simp add: outstanding_def engine_init_def list_view_def)
  show ?thesis using r pc shutdown_completes [OF list_ops_ok list_starts r pc out] by auto
qed

text \<open>C10. The shutdown can hang for ever: with one worker whose pinning does not panic, no threshold and no cooldown, a run from the
  start reaches, after the deadline, a state in which the main thread joins a worker that waits to
  send into the full orders channel, which nobody drains any more; from there the engine never
  finishes, whatever any thread, the feedhandler and the stop signal do.\<close>

theorem shutdown_hangs:
  assumes "channels_ok ops v" and "en_params ops = eager_params" and "en_deadline ops" and "pins_quietly ops 0"
    and "starts 1 v c0 o0 ticks orders" and "ends_queue ticks = []"
  shows "\<exists>s. (engine_moves ops)\<^sup>*\<^sup>* (engine_init 1 c0 o0 ticks orders) s \<and>
    (\<forall>s'. (engine_moves ops)\<^sup>*\<^sup>* s s' \<longrightarrow> hung v s' \<and> eg_pc s' \<noteq> M_Finished)"
proof -
  obtain s where s: "(engine_moves ops)\<^sup>*\<^sup>* (engine_init 1 c0 o0 ticks orders) s" "engine_inv 1 v s" "hung v s"
    using hang_reached [OF assms] by blast
  have "hung v s' \<and> eg_pc s' \<noteq> M_Finished" if "(engine_moves ops)\<^sup>*\<^sup>* s s'" for s'
    using hung_forever [OF that assms(1) s(2,3)] by (auto simp: hung_def)
  then show ?thesis using s(1) by blast
qed

theorem shutdown_hangs_witness:
  "\<exists>s. (engine_moves (list_ops eager_params True))\<^sup>*\<^sup>* (engine_init 1 [] [] fresh_ends fresh_ends) s \<and>
     length (eg_orders s) = 8192 \<and>
     (\<forall>s'. (engine_moves (list_ops eager_params True))\<^sup>*\<^sup>* s s' \<longrightarrow> eg_pc s' \<noteq> M_Finished)"
proof -
  have "0 < (1 :: nat)" by simp
  have ops: "en_params (list_ops eager_params True) = eager_params" "en_deadline (list_ops eager_params True)"
    "pins_quietly (list_ops eager_params True) 0"
    by (simp_all add: list_ops_def pins_quietly_def worker_pin_def)
  from shutdown_hangs [OF list_ops_ok ops list_starts [OF \<open>0 < 1\<close>] fresh_ends_ok(2)]
  obtain s where s: "(engine_moves (list_ops eager_params True))\<^sup>*\<^sup>* (engine_init 1 [] [] fresh_ends fresh_ends) s"
    "\<And>s'. (engine_moves (list_ops eager_params True))\<^sup>*\<^sup>* s s' \<Longrightarrow> hung list_view s' \<and> eg_pc s' \<noteq> M_Finished"
    by blast
  then have "hung list_view s" by blast
  then have "length (eg_orders s) = 8192" by (simp add: hung_def list_view_def CHANNEL_CAP_def)
  then show ?thesis using s by blast
qed

end
