(* ===== verification/Report.thy ===== *)
theory Report
  imports Cpu_Info
begin

text \<open>
  The common parts of the bench reports (\<open>shmbus/src/report.rs\<close>): \<open>HostInfo\<close>,
  \<open>RunConfig\<close> and \<open>write_report\<close>. The JSON library, the clock and the file write are
  arguments.
\<close>

record host_info =
  hi_hostname :: string
  hi_kernel :: string
  hi_cpu_vendor :: string
  hi_cpu_model :: string
  hi_microcode :: string
  hi_cpu_mhz_nominal :: f64
  hi_governor :: string
  hi_turbo :: turbo_state
  hi_online_cpus :: string
  hi_isolated_cpus :: string
  hi_numa_nodes :: "numa_node list"
  hi_caches :: "cache_level list"

definition read_hostname :: "files \<Rightarrow> string" where
  "read_hostname fs =
     (case fs ''/proc/sys/kernel/hostname'' of None \<Rightarrow> [] | Some s \<Rightarrow> trim s)"

definition host_info :: "files \<Rightarrow> dirs \<Rightarrow> host_info" where
  "host_info fs ds =
     (let info = read_cpu_info fs ds
      in \<lparr>hi_hostname = read_hostname fs, hi_kernel = ci_kernel info,
          hi_cpu_vendor = ci_vendor info, hi_cpu_model = ci_model info,
          hi_microcode = ci_microcode info, hi_cpu_mhz_nominal = ci_cpu_mhz_nominal info,
          hi_governor = ci_governor info, hi_turbo = ci_turbo info,
          hi_online_cpus = format_cpu_list (ci_online_cpus info),
          hi_isolated_cpus = format_cpu_list (ci_isolated_cpus info),
          hi_numa_nodes = ci_numa_nodes info, hi_caches = ci_caches info\<rparr>)"

record run_config =
  rc_binary :: string
  rc_pin_cpu :: "nat option"
  rc_noise_threads :: nat
  rc_noise_cpus :: string
  rc_bench_secs :: u64
  rc_workers :: "nat option"
  rc_worker_cpus :: "string option"
  rc_started_unix :: u64

text \<open>\<open>since_epoch\<close>: the seconds since 1970, or nothing if the clock is before it.\<close>

definition run_config_new :: "u64 option \<Rightarrow> string \<Rightarrow> u64 \<Rightarrow> run_config" where
  "run_config_new since_epoch binary bench_secs =
     \<lparr>rc_binary = binary, rc_pin_cpu = None, rc_noise_threads = 0, rc_noise_cpus = [],
      rc_bench_secs = bench_secs, rc_workers = None, rc_worker_cpus = None,
      rc_started_unix = (case since_epoch of None \<Rightarrow> 0 | Some s \<Rightarrow> s)\<rparr>"

datatype report_error = JsonError nat | WriteError nat

definition write_report ::
  "('r \<Rightarrow> nat + string) \<Rightarrow> (string \<Rightarrow> string \<Rightarrow> nat option) \<Rightarrow> string \<Rightarrow> 'r \<Rightarrow> report_error option" where
  "write_report to_json write path report =
     (case to_json report of
        Inl e \<Rightarrow> Some (JsonError e)
      | Inr json \<Rightarrow> map_option WriteError (write path json))"

lemma cpus_or_empty_bound: "\<forall>v \<in> set (cpus_or_empty s). v < 2 ^ 64"
  using parse_cpu_list_bound [of s] by (cases "parse_cpu_list s") (simp_all add: cpus_or_empty_def)

text \<open>The CPU sets a report names are the ones the host was probed for: parsing the text
  of \<open>online_cpus\<close> or \<open>isolated_cpus\<close> gives back exactly the CPUs read from the kernel, in
  ascending order, for every content of the kernel's files, malformed ones included.\<close>

theorem host_info_cpu_sets:
  "parse_cpu_list (hi_online_cpus (host_info fs ds)) =
     Inr (sorted_list_of_set (set (cpus_or_empty (read_trim fs ''/sys/devices/system/cpu/online'')))) \<and>
   parse_cpu_list (hi_isolated_cpus (host_info fs ds)) =
     Inr (sorted_list_of_set (set (cpus_or_empty (read_trim fs ''/sys/devices/system/cpu/isolated''))))"
  using format_loop_round_trip [OF cpus_or_empty_bound]
  by (simp add: host_info_def read_cpu_info_def Let_def)

end
