(* ===== verification/Feedhandler.thy ===== *)
theory Feedhandler
  imports Message Ring Latency Report
begin

text \<open>
  The feedhandler (\<open>feedhandler/src/main.rs\<close>): the receive completions of the io_uring and
  what becomes of their packets, the resubmission of each receive, the drain of the orders
  ring, the iteration of the main loop and the report.

  The io_uring is not part of the program: its operations are a parameter, a record of
  functions on a state that stands for the queues, the kernel and the packet buffers. What the
  code relies on is \<open>uring_ok\<close>: an entry is either in the submission queue or in flight until
  its completion is reaped, a submission moves entries from the queue to the kernel, and the
  kernel writes only to the buffers of receives it holds. The clocks are arguments.
\<close>

section \<open>The io_uring\<close>

type_synonym i32 = "32 word"

definition RECV_BATCH :: nat where "RECV_BATCH = 32"
definition BUF_SIZE :: nat where "BUF_SIZE = 128"
definition TIMEOUT_UD :: u64 where "TIMEOUT_UD = - 1"

text \<open>
  An entry is known by its user data, the index of its buffer or \<open>TIMEOUT_UD\<close>. \<open>ur_push\<close> fails
  on a full queue; \<open>ur_submit\<close> and \<open>ur_wait\<close> give the error number, if any.
\<close>

record 'q uring_ops =
  ur_push :: "'q \<Rightarrow> u64 \<Rightarrow> 'q option"
  ur_submit :: "'q \<Rightarrow> nat option \<times> 'q"
  ur_wait :: "'q \<Rightarrow> nat option \<times> 'q"
  ur_reap :: "'q \<Rightarrow> (u64 \<times> i32) list \<times> 'q"
  ur_buffer :: "'q \<Rightarrow> u64 \<Rightarrow> u8 list"

datatype fh_error =
  RingSubmit nat | RingSubmitFull nat | SubmitAndWait nat | Panicked panic

text \<open>The retry of \<open>submit_recv\<close> has no bound of its own: \<open>None\<close> is not returning.\<close>

partial_function (option) submit_recv :: "'q uring_ops \<Rightarrow> u64 \<Rightarrow> 'q \<Rightarrow> (fh_error + 'q) option" where
  "submit_recv u ud q =
     (case ur_push u q ud of
        Some q1 \<Rightarrow> (case ur_submit u q1 of (None, q2) \<Rightarrow> Some (Inr q2) | (Some e, q2) \<Rightarrow> Some (Inl (RingSubmit e)))
      | None \<Rightarrow> (case ur_submit u q of (None, q1) \<Rightarrow> submit_recv u ud q1
                | (Some e, q1) \<Rightarrow> Some (Inl (RingSubmitFull e))))"

section \<open>Packets\<close>

definition parse_tick :: "u8 list \<Rightarrow> market_tick option" where
  "parse_tick bytes =
     (if length bytes < MarketTick_SIZE then None else Some (tick_of_bytes (take MarketTick_SIZE bytes)))"

record feedhandler =
  fh_ticks :: ring_ends
  fh_orders :: ring_ends
  fh_recv_count :: u64
  fh_publish_drops :: u64
  fh_bad_packets :: u64
  fh_order_count :: u64
  fh_wire_lat :: latency_histogram

text \<open>\<open>try_publish\<close> through the producer's handle of a ring.\<close>

definition ends_publish :: "u8 list \<Rightarrow> ring_ends \<Rightarrow> (bool \<times> ring_ends) result" where
  "ends_publish m s = (case s of (r, p, c) \<Rightarrow>
     (case try_publish m r p of Inl e \<Rightarrow> Inl e | Inr (b, r1, p1) \<Rightarrow> Inr (b, r1, p1, c)))"

text \<open>
  One completion, up to the resubmission. \<open>pad\<close> are the four padding bytes of the struct, which
  the slice taken of it includes.
\<close>

definition handle_completion ::
  "u8 list \<Rightarrow> u64 \<Rightarrow> u8 list \<Rightarrow> i32 \<Rightarrow> feedhandler \<Rightarrow> feedhandler result" where
  "handle_completion pad now buf res fh =
     (if sint res < 0 then Inr fh
      else if unat res < MarketTick_SIZE then Inr (fh\<lparr>fh_bad_packets := fh_bad_packets fh + 1\<rparr>)
      else if length buf < unat res then Inl IndexOutOfBounds
      else case parse_tick (take (unat res) buf) of
          None \<Rightarrow> Inr (fh\<lparr>fh_bad_packets := fh_bad_packets fh + 1\<rparr>)
        | Some t0 \<Rightarrow>
            let t = t0\<lparr>mt_recv_ts_ns := now\<rparr>;
                lat_ns = saturating_sub (mt_recv_ts_ns t) (mt_exch_ts_ns t);
                fh1 = fh\<lparr>fh_wire_lat := record_ns lat_ns (fh_wire_lat fh)\<rparr>
            in (case ends_publish (tick_bytes pad t) (fh_ticks fh1) of
                  Inl e \<Rightarrow> Inl e
                | Inr (ok, s) \<Rightarrow>
                    let fh2 = fh1\<lparr>fh_ticks := s\<rparr>
                    in Inr (if \<not> ok then fh2\<lparr>fh_publish_drops := fh_publish_drops fh2 + 1\<rparr>
                            else fh2\<lparr>fh_recv_count := fh_recv_count fh2 + 1\<rparr>)))"

text \<open>The completions of one iteration in order, each followed by its resubmission. \<open>env\<close> is the
  clock and the padding at each.\<close>

fun handle_done ::
  "'q uring_ops \<Rightarrow> (nat \<Rightarrow> u64 \<times> u8 list) \<Rightarrow> nat \<Rightarrow> (u64 \<times> i32) list \<Rightarrow> 'q \<Rightarrow> feedhandler
   \<Rightarrow> (fh_error + 'q \<times> feedhandler) option" where
  "handle_done u env i [] q fh = Some (Inr (q, fh))"
| "handle_done u env i ((idx, res) # ds) q fh =
     (if RECV_BATCH \<le> unat idx then Some (Inl (Panicked IndexOutOfBounds))
      else case handle_completion (snd (env i)) (fst (env i)) (ur_buffer u q idx) res fh of
          Inl e \<Rightarrow> Some (Inl (Panicked e))
        | Inr fh1 \<Rightarrow>
            (case submit_recv u idx q of
               None \<Rightarrow> None
             | Some (Inl e) \<Rightarrow> Some (Inl e)
             | Some (Inr q1) \<Rightarrow> handle_done u env (Suc i) ds q1 fh1))"

section \<open>Orders\<close>

text \<open>The drain of the orders ring, with a bound on its turns; it returns the orders it logs.\<close>

fun drain_orders :: "nat \<Rightarrow> feedhandler \<Rightarrow> (order_msg list \<times> feedhandler) option" where
  "drain_orders 0 fh = None"
| "drain_orders (Suc n) fh =
     (case ring_pop (fh_orders fh) of
        (None, s) \<Rightarrow> Some ([], fh\<lparr>fh_orders := s\<rparr>)
      | (Some buf, s) \<Rightarrow>
          map_option (\<lambda>(os, fh1). (order_of_bytes buf # os, fh1))
            (drain_orders n (fh\<lparr>fh_orders := s, fh_order_count := fh_order_count fh + 1\<rparr>)))"

section \<open>The main loop\<close>

definition EINTR :: nat where "EINTR = 4"

text \<open>A full queue drops the timeout entry.\<close>

definition push_timeout :: "'q uring_ops \<Rightarrow> 'q \<Rightarrow> 'q" where
  "push_timeout u q = (case ur_push u q TIMEOUT_UD of None \<Rightarrow> q | Some q1 \<Rightarrow> q1)"

text \<open>The body of the loop from the timeout entry to the drain of the orders.\<close>

definition fh_iteration ::
  "'q uring_ops \<Rightarrow> (nat \<Rightarrow> u64 \<times> u8 list) \<Rightarrow> 'q \<Rightarrow> feedhandler
   \<Rightarrow> (fh_error + 'q \<times> feedhandler \<times> order_msg list) option" where
  "fh_iteration u env q fh =
     (case ur_wait u (push_timeout u q) of
          (Some e, q1) \<Rightarrow> Some (if e = EINTR then Inr (q1, fh, []) else Inl (SubmitAndWait e))
        | (None, q1) \<Rightarrow>
            let (cqes, q2) = ur_reap u q1;
                completed = filter (\<lambda>c. fst c \<noteq> TIMEOUT_UD) cqes
            in (case handle_done u env 0 completed q2 fh of
                  None \<Rightarrow> None
                | Some (Inl e) \<Rightarrow> Some (Inl e)
                | Some (Inr (q3, fh1)) \<Rightarrow>
                    map_option (\<lambda>(os, fh2). Inr (q3, fh2, os)) (drain_orders (Suc RING_CAPACITY) fh1)))"

text \<open>The receives posted before the loop, for the buffers from \<open>i\<close> on.\<close>

fun post_receives :: "'q uring_ops \<Rightarrow> nat \<Rightarrow> nat \<Rightarrow> 'q \<Rightarrow> (fh_error + 'q) option" where
  "post_receives u i 0 q = Some (Inr q)"
| "post_receives u i (Suc n) q =
     (case submit_recv u (of_nat i) q of
        None \<Rightarrow> None
      | Some (Inl e) \<Rightarrow> Some (Inl e)
      | Some (Inr q1) \<Rightarrow> post_receives u (Suc i) n q1)"

text \<open>
  What an iteration sees at its top, the stop flag and the monotonic clock, and what the engine
  has done on the two rings since the last one: ticks taken and orders sent. The calls of the two
  processes are whole here; \<open>Ring_Concurrent\<close> takes them apart.
\<close>

record fh_round =
  fr_stop :: bool
  fr_now :: nat
  fr_taken :: nat
  fr_sent :: "u8 list list"
  fr_env :: "nat \<Rightarrow> u64 \<times> u8 list"

definition engine_acts :: "fh_round \<Rightarrow> feedhandler \<Rightarrow> feedhandler" where
  "engine_acts r fh =
     fh\<lparr>fh_ticks := snd (snd (fifo_run ring_push ring_pop (replicate (fr_taken r) Pop) (fh_ticks fh))),
        fh_orders := snd (snd (fifo_run ring_push ring_pop (map Push (fr_sent r)) (fh_orders fh)))\<rparr>"

text \<open>The loop over a list of iterations; \<open>True\<close> says that it has ended, by the flag or the deadline.\<close>

fun fh_loop ::
  "'q uring_ops \<Rightarrow> nat option \<Rightarrow> fh_round list \<Rightarrow> 'q \<Rightarrow> feedhandler
   \<Rightarrow> (fh_error + 'q \<times> feedhandler \<times> order_msg list \<times> bool) option" where
  "fh_loop u deadline [] q fh = Some (Inr (q, fh, [], False))"
| "fh_loop u deadline (r # rs) q fh =
     (if fr_stop r \<or> (case deadline of None \<Rightarrow> False | Some d \<Rightarrow> d \<le> fr_now r)
      then Some (Inr (q, fh, [], True))
      else case fh_iteration u (fr_env r) q (engine_acts r fh) of
          None \<Rightarrow> None
        | Some (Inl e) \<Rightarrow> Some (Inl e)
        | Some (Inr (q1, fh1, os)) \<Rightarrow>
            (case fh_loop u deadline rs q1 fh1 of
               None \<Rightarrow> None
             | Some (Inl e) \<Rightarrow> Some (Inl e)
             | Some (Inr (q2, fh2, os2, fin)) \<Rightarrow> Some (Inr (q2, fh2, os @ os2, fin))))"

section \<open>The report\<close>

record feedhandler_metrics =
  fm_ticks_published :: u64
  fm_publish_drops :: u64
  fm_bad_packets :: u64
  fm_orders_received :: u64
  fm_elapsed_secs :: f64
  fm_throughput_ticks_per_sec :: f64
  fm_wire_latency :: latency_summary

definition feedhandler_metrics_of :: "f64 \<Rightarrow> feedhandler \<Rightarrow> feedhandler_metrics" where
  "feedhandler_metrics_of elapsed fh =
     \<lparr>fm_ticks_published = fh_recv_count fh, fm_publish_drops = fh_publish_drops fh,
      fm_bad_packets = fh_bad_packets fh, fm_orders_received = fh_order_count fh,
      fm_elapsed_secs = elapsed,
      fm_throughput_ticks_per_sec =
        (if f64_lt (f64_lit 0 1) elapsed then f64_div (f64_of_u64 (fh_recv_count fh)) elapsed else f64_lit 0 1),
      fm_wire_latency = summary (fh_wire_lat fh)\<rparr>"

definition feedhandler_init :: "ring_ends \<Rightarrow> ring_ends \<Rightarrow> feedhandler" where
  "feedhandler_init ticks orders =
     \<lparr>fh_ticks = ticks, fh_orders = orders, fh_recv_count = 0, fh_publish_drops = 0,
      fh_bad_packets = 0, fh_order_count = 0, fh_wire_lat = histogram_new\<rparr>"

section \<open>What the code relies on of the io_uring\<close>

text \<open>
  \<open>sq\<close> are the entries in the submission queue of size \<open>depth\<close>, \<open>fl\<close> the ones the kernel holds
  or whose completion is not reaped. An entry pushed and not yet reaped is \<open>posted\<close>.
\<close>

definition posted :: "('q \<Rightarrow> u64 list) \<Rightarrow> ('q \<Rightarrow> u64 multiset) \<Rightarrow> 'q \<Rightarrow> u64 multiset" where
  "posted sq fl q = fl q + mset (sq q)"

definition kernel_step ::
  "'q uring_ops \<Rightarrow> ('q \<Rightarrow> u64 list) \<Rightarrow> ('q \<Rightarrow> u64 multiset) \<Rightarrow> 'q \<Rightarrow> 'q \<Rightarrow> bool" where
  "kernel_step u sq fl q q' \<longleftrightarrow>
     posted sq fl q' = posted sq fl q \<and>
     (\<forall>ud. ud \<notin># posted sq fl q \<longrightarrow> ur_buffer u q' ud = ur_buffer u q ud)"

definition uring_ok ::
  "'q uring_ops \<Rightarrow> nat \<Rightarrow> ('q \<Rightarrow> u64 list) \<Rightarrow> ('q \<Rightarrow> u64 multiset) \<Rightarrow> bool" where
  "uring_ok u depth sq fl \<longleftrightarrow>
     (\<forall>q. length (sq q) \<le> depth \<and> (\<forall>ud. length (ur_buffer u q ud) = BUF_SIZE)) \<and>
     (\<forall>q ud. ur_push u q ud = None \<longrightarrow> length (sq q) = depth) \<and>
     (\<forall>q ud q'. ur_push u q ud = Some q' \<longrightarrow>
        posted sq fl q' = add_mset ud (posted sq fl q) \<and> ur_buffer u q' = ur_buffer u q) \<and>
     (\<forall>q e q'. ur_submit u q = (e, q') \<longrightarrow>
        kernel_step u sq fl q q' \<and> (e = None \<and> sq q \<noteq> [] \<longrightarrow> length (sq q') < length (sq q))) \<and>
     (\<forall>q e q'. ur_wait u q = (e, q') \<longrightarrow> kernel_step u sq fl q q') \<and>
     (\<forall>q cs q'. ur_reap u q = (cs, q') \<longrightarrow>
        posted sq fl q = mset (map fst cs) + posted sq fl q' \<and> ur_buffer u q' = ur_buffer u q \<and>
        (\<forall>c \<in> set cs. sint (snd c) \<le> int BUF_SIZE))"

lemma uring_okD:
  assumes "uring_ok u depth sq fl"
  shows uring_len: "length (sq q) \<le> depth" "length (ur_buffer u q ud) = BUF_SIZE"
    and uring_push_None: "ur_push u q ud = None \<Longrightarrow> length (sq q) = depth"
    and uring_push_Some: "ur_push u q ud = Some q' \<Longrightarrow>
      posted sq fl q' = add_mset ud (posted sq fl q) \<and> ur_buffer u q' = ur_buffer u q"
    and uring_submit: "ur_submit u q = (e, q') \<Longrightarrow> kernel_step u sq fl q q'"
      "ur_submit u q = (None, q') \<Longrightarrow> sq q \<noteq> [] \<Longrightarrow> length (sq q') < length (sq q)"
    and uring_wait: "ur_wait u q = (e, q') \<Longrightarrow> kernel_step u sq fl q q'"
    and uring_reap: "ur_reap u q = (cs, q') \<Longrightarrow>
      posted sq fl q = mset (map fst cs) + posted sq fl q' \<and> ur_buffer u q' = ur_buffer u q \<and>
      (\<forall>c \<in> set cs. sint (snd c) \<le> int BUF_SIZE)"
  using assms unfolding uring_ok_def by blast+

text \<open>What a successful resubmission does.\<close>

definition posts_one ::
  "'q uring_ops \<Rightarrow> ('q \<Rightarrow> u64 list) \<Rightarrow> ('q \<Rightarrow> u64 multiset) \<Rightarrow> u64 \<Rightarrow> 'q \<Rightarrow> 'q \<Rightarrow> bool" where
  "posts_one u sq fl ud q q' \<longleftrightarrow>
     posted sq fl q' = add_mset ud (posted sq fl q) \<and>
     (\<forall>x. x \<notin># add_mset ud (posted sq fl q) \<longrightarrow> ur_buffer u q' x = ur_buffer u q x)"

lemma submit_recv_push:
  assumes "uring_ok u depth sq fl" "ur_push u q ud = Some q1"
  shows "\<exists>r. submit_recv u ud q = Some r \<and>
    (case r of Inl e \<Rightarrow> \<exists>n. e = RingSubmit n | Inr q' \<Rightarrow> posts_one u sq fl ud q q')"
proof -
  obtain e q2 where s: "ur_submit u q1 = (e, q2)" by force
  note p = uring_push_Some [OF assms] and k = uring_submit(1) [OF assms(1) s]
  show ?thesis using p k
    by (cases e) (auto simp: submit_recv.simps assms(2) s posts_one_def kernel_step_def)
qed

lemma submit_recv_spec:
  assumes ok: "uring_ok u depth sq fl" and "0 < depth"
  shows "\<exists>r. submit_recv u ud q = Some r \<and>
    (case r of Inl e \<Rightarrow> (\<exists>n. e = RingSubmit n \<or> e = RingSubmitFull n) | Inr q' \<Rightarrow> posts_one u sq fl ud q q')"
proof (cases "ur_push u q ud")
  case (Some q1)
  then show ?thesis using submit_recv_push [OF ok Some] by (fastforce split: sum.splits)
next
  case None
  obtain e q1 where s: "ur_submit u q = (e, q1)" by force
  show ?thesis
  proof (cases e)
    case (Some n)
    then show ?thesis using None s by (simp add: submit_recv.simps)
  next
    case e: None
    have full: "length (sq q) = depth" by (rule uring_push_None [OF ok None])
    then have "length (sq q1) < depth" using uring_submit(2) [OF ok, of q q1] s e assms(2) by auto
    then obtain q2 where q2: "ur_push u q1 ud = Some q2"
      using uring_push_None [OF ok, of q1 ud] by (cases "ur_push u q1 ud") auto
    have step: "submit_recv u ud q = submit_recv u ud q1" by (subst submit_recv.simps) (simp add: None s e)
    have "kernel_step u sq fl q q1" using uring_submit(1) [OF ok s] .
    then have "posts_one u sq fl ud q1 q' \<Longrightarrow> posts_one u sq fl ud q q'" for q'
      by (auto simp: posts_one_def kernel_step_def)
    then show ?thesis using submit_recv_push [OF ok q2] unfolding step by (fastforce split: sum.splits)
  qed
qed

section \<open>Packets into the ring\<close>

lemma ends_publish_push: "fits_slot m \<Longrightarrow> ends_publish m s = Inr (ring_push m s)"
  by (auto simp: ends_publish_def ring_push_def fits_slot_def try_publish_def Let_def split: prod.splits)

text \<open>The packets of a batch without the io_uring: what a buffer holds and the result.\<close>

fun feed ::
  "(nat \<Rightarrow> u64 \<times> u8 list) \<Rightarrow> nat \<Rightarrow> (u8 list \<times> i32) list \<Rightarrow> feedhandler \<Rightarrow> feedhandler result" where
  "feed env i [] fh = Inr fh"
| "feed env i ((buf, res) # ps) fh =
     (case handle_completion (snd (env i)) (fst (env i)) buf res fh of
        Inl e \<Rightarrow> Inl e
      | Inr fh1 \<Rightarrow> feed env (Suc i) ps fh1)"

text \<open>The ticks of the packets that hold one, with their time of receipt.\<close>

fun stamped :: "(nat \<Rightarrow> u64 \<times> u8 list) \<Rightarrow> nat \<Rightarrow> (u8 list \<times> i32) list \<Rightarrow> market_tick list" where
  "stamped env i [] = []"
| "stamped env i ((buf, res) # ps) =
     (if int MarketTick_SIZE \<le> sint res then [(tick_of_bytes buf)\<lparr>mt_recv_ts_ns := fst (env i)\<rparr>] else [])
     @ stamped env (Suc i) ps"

definition wire_latency :: "market_tick \<Rightarrow> u64" where
  "wire_latency t = saturating_sub (mt_recv_ts_ns t) (mt_exch_ts_ns t)"

definition short_packet :: "u8 list \<times> i32 \<Rightarrow> bool" where
  "short_packet p \<longleftrightarrow> 0 \<le> sint (snd p) \<and> sint (snd p) < int MarketTick_SIZE"

definition packet_ok :: "u8 list \<times> i32 \<Rightarrow> bool" where
  "packet_ok p \<longleftrightarrow> length (fst p) = BUF_SIZE \<and> sint (snd p) \<le> int BUF_SIZE"

definition fh_ok :: "feedhandler \<Rightarrow> bool" where
  "fh_ok fh \<longleftrightarrow> ends_ok (fh_ticks fh) \<and> ends_ok (fh_orders fh) \<and>
     lh_count (fh_wire_lat fh) = fh_recv_count fh + fh_publish_drops fh"

definition queued_ticks :: "feedhandler \<Rightarrow> market_tick list" where
  "queued_ticks fh = map tick_of_bytes (ends_queue (fh_ticks fh))"

lemma sint_nonneg_unat: "0 \<le> sint w \<Longrightarrow> int (unat w) = sint w" for w :: i32
proof -
  assume "0 \<le> sint w"
  moreover have "sint w < 2 ^ 32" using sint_less [of w] by simp
  ultimately have "uint w = sint w" by (simp add: uint_sint take_bit_int_eq_self)
  then show ?thesis by simp
qed

lemma queued_ticks_bound: "ends_ok (fh_ticks fh) \<Longrightarrow> length (queued_ticks fh) \<le> RING_CAPACITY"
  using ring_fifo.bounded [of "fh_ticks fh"] by (simp add: queued_ticks_def)

text \<open>
  The effect of packets that carry \<open>ts\<close> among \<open>bad\<close> short ones: as many ticks as there is room
  for go into the ring, in order, and the rest are counted as drops.
\<close>

definition room :: "feedhandler \<Rightarrow> nat" where
  "room fh = RING_CAPACITY - length (queued_ticks fh)"

definition fed :: "feedhandler \<Rightarrow> market_tick list \<Rightarrow> nat \<Rightarrow> feedhandler \<Rightarrow> bool" where
  "fed fh ts bad fh' \<longleftrightarrow>
     ends_ok (fh_ticks fh') \<and> fh_orders fh' = fh_orders fh \<and> fh_order_count fh' = fh_order_count fh \<and>
     queued_ticks fh' = queued_ticks fh @ take (room fh) ts \<and>
     fh_recv_count fh' = fh_recv_count fh + of_nat (min (room fh) (length ts)) \<and>
     fh_publish_drops fh' = fh_publish_drops fh + of_nat (length ts - room fh) \<and>
     fh_bad_packets fh' = fh_bad_packets fh + of_nat bad \<and>
     fh_wire_lat fh' = fold record_ns (map wire_latency ts) (fh_wire_lat fh)"

lemma fed_trans:
  assumes "fed fh ts a fh1" "fed fh1 ts1 b fh2"
  shows "fed fh (ts @ ts1) (a + b) fh2"
proof -
  have r: "room fh1 = room fh - length ts" using assms(1) by (auto simp: fed_def room_def)
  have "min (room fh) (length ts) + min (room fh1) (length ts1) = min (room fh) (length ts + length ts1)"
    "length ts - room fh + (length ts1 - room fh1) = length ts + length ts1 - room fh"
    unfolding r by auto
  then have "(of_nat (min (room fh) (length ts)) + of_nat (min (room fh1) (length ts1)) :: u64) =
      of_nat (min (room fh) (length ts + length ts1))"
    "(of_nat (length ts - room fh) + of_nat (length ts1 - room fh1) :: u64) =
      of_nat (length ts + length ts1 - room fh)"
    by (metis of_nat_add)+
  then show ?thesis using assms r by (auto simp: fed_def add.assoc)
qed

lemma handle_completion_fed:
  assumes "packet_ok (buf, res)" "length pad = 4" "ends_ok (fh_ticks fh)"
  shows "\<exists>fh'. handle_completion pad now buf res fh = Inr fh' \<and>
    fed fh (if int MarketTick_SIZE \<le> sint res then [(tick_of_bytes buf)\<lparr>mt_recv_ts_ns := now\<rparr>] else [])
      (if short_packet (buf, res) then 1 else 0) fh'"
proof -
  consider (neg) "sint res < 0" | (short) "0 \<le> sint res" "unat res < MarketTick_SIZE"
    | (good) "0 \<le> sint res" "MarketTick_SIZE \<le> unat res" by linarith
  then show ?thesis
  proof cases
    case neg
    then show ?thesis using assms(3)
      by (simp add: handle_completion_def short_packet_def fed_def layout_simps)
  next
    case short
    then have "sint res < int MarketTick_SIZE" using sint_nonneg_unat [of res] by linarith
    then show ?thesis using assms(3) short
      by (simp add: handle_completion_def short_packet_def fed_def queued_ticks_def)
  next
    case good
    note u = sint_nonneg_unat [OF good(1)]
    let ?raw = "tick_of_bytes buf" and ?t = "(tick_of_bytes buf)\<lparr>mt_recv_ts_ns := now\<rparr>"
    let ?m = "tick_bytes pad ?t"
    have "int (unat res) \<le> int BUF_SIZE" using assms(1) unfolding u by (simp add: packet_ok_def)
    then have len: "unat res \<le> length buf" using assms(1) by (simp only: packet_ok_def of_nat_le_iff) simp
    have parse: "parse_tick (take (unat res) buf) = Some ?raw"
    proof -
      have "tick_of_bytes (take MarketTick_SIZE buf) = ?raw"
        by (simp add: tick_of_bytes_def bytes_at_def u64_at_def u32_at_def layout_simps drop_take)
      then show ?thesis using good(2) len by (simp add: parse_tick_def min_absorb1)
    qed
    have wf: "tick_wf ?t" using tick_wf_of_bytes [of buf] good(2) len by (simp add: tick_wf_def)
    have fits: "fits_slot ?m" using length_tick_bytes [OF wf assms(2)]
      by (simp add: fits_slot_def SLOT_PAYLOAD_def layout_simps)
    have dec: "tick_of_bytes (pad_payload ?m) = ?t"
      unfolding pad_payload_def by (rule tick_of_tick_bytes [OF wf])
    have "int MarketTick_SIZE \<le> sint res" using good(2) unfolding u [symmetric] by (simp only: of_nat_le_iff)
    then have big: "int MarketTick_SIZE \<le> sint res" "\<not> sint res < 0" "\<not> short_packet (buf, res)"
      using good(1) by (auto simp: short_packet_def)
    let ?fh1 = "fh\<lparr>fh_wire_lat := record_ns (wire_latency ?t) (fh_wire_lat fh)\<rparr>"
    have hc: "handle_completion pad now buf res fh = Inr (let (b, s) = ring_push ?m (fh_ticks fh) in
        if \<not> b then ?fh1\<lparr>fh_ticks := s, fh_publish_drops := fh_publish_drops fh + 1\<rparr>
        else ?fh1\<lparr>fh_ticks := s, fh_recv_count := fh_recv_count fh + 1\<rparr>)"
      using big good(2) len parse ends_publish_push [OF fits]
      by (simp add: handle_completion_def Let_def wire_latency_def split: prod.splits)
    from assms(3) fits show ?thesis
    proof (cases rule: ring_fifo.push_cases)
      case (accepted s)
      then have "1 \<le> room fh" by (simp add: room_def queued_ticks_def)
      then show ?thesis using hc accepted big dec by (simp add: fed_def queued_ticks_def)
    next
      case full
      then have "room fh = 0" by (simp add: room_def queued_ticks_def)
      then show ?thesis using hc full big assms(3) by (simp add: fed_def queued_ticks_def)
    qed
  qed
qed

lemma feed_fed:
  assumes "\<forall>p \<in> set ps. packet_ok p" "\<forall>k. length (snd (env k)) = 4" "ends_ok (fh_ticks fh)"
  shows "\<exists>fh'. feed env i ps fh = Inr fh' \<and> fed fh (stamped env i ps) (length (filter short_packet ps)) fh'"
  using assms
proof (induction ps arbitrary: i fh)
  case Nil
  then show ?case by (simp add: fed_def)
next
  case (Cons p ps)
  obtain buf res where p: "p = (buf, res)" by force
  obtain fh1 where h: "handle_completion (snd (env i)) (fst (env i)) buf res fh = Inr fh1"
    and f: "fed fh (stamped env i [p]) (length (filter short_packet [p])) fh1"
    using handle_completion_fed [of buf res "snd (env i)" fh "fst (env i)"] Cons.prems by (auto simp: p intro!: that split: if_splits)
  have "ends_ok (fh_ticks fh1)" using f by (simp add: fed_def)
  then obtain fh2 where r: "feed env (Suc i) ps fh1 = Inr fh2"
    and f2: "fed fh1 (stamped env (Suc i) ps) (length (filter short_packet ps)) fh2"
    using Cons.IH Cons.prems(1,2) by (metis list.set_intros(2))
  have "feed env i (p # ps) fh = Inr fh2" using h r by (simp add: p)
  moreover have "stamped env i (p # ps) = stamped env i [p] @ stamped env (Suc i) ps" by (simp add: p)
  moreover have "length (filter short_packet (p # ps)) =
      length (filter short_packet [p]) + length (filter short_packet ps)" by simp
  ultimately show ?case using fed_trans [OF f f2] by metis
qed

section \<open>A batch of completions\<close>

definition is_panic :: "fh_error \<Rightarrow> bool" where
  "is_panic e \<longleftrightarrow> (\<exists>p. e = Panicked p)"

text \<open>The packets of completions, as the buffers hold them when they are reaped.\<close>

definition packets :: "'q uring_ops \<Rightarrow> 'q \<Rightarrow> (u64 \<times> i32) list \<Rightarrow> (u8 list \<times> i32) list" where
  "packets u q cs = map (\<lambda>c. (ur_buffer u q (fst c), snd c)) cs"

definition reaped_ok :: "('q \<Rightarrow> u64 list) \<Rightarrow> ('q \<Rightarrow> u64 multiset) \<Rightarrow> 'q \<Rightarrow> (u64 \<times> i32) list \<Rightarrow> bool" where
  "reaped_ok sq fl q cs \<longleftrightarrow> distinct (map fst cs) \<and>
     (\<forall>c \<in> set cs. unat (fst c) < RECV_BATCH \<and> fst c \<notin># posted sq fl q \<and> sint (snd c) \<le> int BUF_SIZE)"

lemma handle_done_feed:
  assumes ok: "uring_ok u depth sq fl" "0 < depth" and pads: "\<forall>k. length (snd (env k)) = 4"
  shows "reaped_ok sq fl q cs \<Longrightarrow> ends_ok (fh_ticks fh) \<Longrightarrow>
    \<exists>r. handle_done u env i cs q fh = Some r \<and>
      (case r of Inl e \<Rightarrow> \<not> is_panic e
       | Inr (q', fh') \<Rightarrow> posted sq fl q' = posted sq fl q + mset (map fst cs) \<and>
           feed env i (packets u q cs) fh = Inr fh')"
proof (induction cs arbitrary: i q fh)
  case Nil
  then show ?case by (simp add: packets_def)
next
  case (Cons c cs)
  obtain idx res where c: "c = (idx, res)" by force
  have idx: "unat idx < RECV_BATCH" using Cons.prems(1) by (simp add: c reaped_ok_def)
  have "packet_ok (ur_buffer u q idx, res)"
    using Cons.prems(1) uring_len(2) [OF ok(1)] by (simp add: c reaped_ok_def packet_ok_def)
  then obtain fh1 bad ts where h: "handle_completion (snd (env i)) (fst (env i)) (ur_buffer u q idx) res fh = Inr fh1"
    and f: "fed fh ts bad fh1"
    using handle_completion_fed [OF _ spec [OF pads] Cons.prems(2)] by blast
  obtain r where r: "submit_recv u idx q = Some r"
    "case r of Inl e \<Rightarrow> (\<exists>n. e = RingSubmit n \<or> e = RingSubmitFull n) | Inr q' \<Rightarrow> posts_one u sq fl idx q q'"
    using submit_recv_spec [OF ok] by blast
  show ?case
  proof (cases r)
    case (Inl e)
    then show ?thesis using c h r idx by (auto simp: is_panic_def)
  next
    case (Inr q1)
    then have p1: "posts_one u sq fl idx q q1" using r(2) by simp
    have ok1: "reaped_ok sq fl q1 cs" using Cons.prems(1) p1 by (auto simp: c reaped_ok_def posts_one_def)
    have "ur_buffer u q1 (fst d) = ur_buffer u q (fst d)" if "d \<in> set cs" for d
      using Cons.prems(1) p1 that by (force simp: c reaped_ok_def posts_one_def)
    then have pk: "packets u q1 cs = packets u q cs" by (simp add: packets_def)
    have "ends_ok (fh_ticks fh1)" using f by (simp add: fed_def)
    then obtain r1 where r1: "handle_done u env (Suc i) cs q1 fh1 = Some r1"
      "case r1 of Inl e \<Rightarrow> \<not> is_panic e
       | Inr (q', fh') \<Rightarrow> posted sq fl q' = posted sq fl q1 + mset (map fst cs) \<and>
           feed env (Suc i) (packets u q1 cs) fh1 = Inr fh'"
      using Cons.IH [OF ok1] by blast
    have "handle_done u env i (c # cs) q fh = Some r1" using c h r(1) Inr idx r1(1) by simp
    moreover have "feed env i (packets u q (c # cs)) fh = feed env (Suc i) (packets u q1 cs) fh1"
      using h unfolding pk by (simp add: c packets_def)
    ultimately show ?thesis using r1(2) p1
      by (auto simp: c posts_one_def split: sum.splits)
  qed
qed

section \<open>Draining the orders\<close>

lemma drain_orders_all:
  assumes "ends_ok (fh_orders fh)" "length (ends_queue (fh_orders fh)) < n"
  shows "\<exists>s. drain_orders n fh = Some (map order_of_bytes (ends_queue (fh_orders fh)),
      fh\<lparr>fh_orders := s,
        fh_order_count := fh_order_count fh + of_nat (length (ends_queue (fh_orders fh)))\<rparr>) \<and>
    ends_ok s \<and> ends_queue s = []"
  using assms
proof (induction n arbitrary: fh)
  case 0
  then show ?case by simp
next
  case (Suc n)
  from Suc.prems(1) show ?case
  proof (cases rule: ring_fifo.pop_cases)
    case (taken x s1)
    let ?fh = "fh\<lparr>fh_orders := s1, fh_order_count := fh_order_count fh + 1\<rparr>"
    obtain s where "drain_orders n ?fh = Some (map order_of_bytes (ends_queue (fh_orders ?fh)),
        ?fh\<lparr>fh_orders := s,
          fh_order_count := fh_order_count ?fh + of_nat (length (ends_queue (fh_orders ?fh)))\<rparr>) \<and>
      ends_ok s \<and> ends_queue s = []"
      using Suc.IH [of ?fh] taken Suc.prems(2) by auto
    then show ?thesis using taken by (intro exI [of _ s]) (simp add: add.assoc)
  next
    case empty
    then show ?thesis using Suc.prems(1) by (intro exI [of _ "fh_orders fh"]) simp
  qed
qed

section \<open>The iteration and the loop\<close>

text \<open>Every receive is posted once, and nothing else but timeouts is.\<close>

definition armed :: "('q \<Rightarrow> u64 list) \<Rightarrow> ('q \<Rightarrow> u64 multiset) \<Rightarrow> 'q \<Rightarrow> bool" where
  "armed sq fl q \<longleftrightarrow>
     (\<forall>ud. ud \<noteq> TIMEOUT_UD \<longrightarrow> count (posted sq fl q) ud = (if unat ud < RECV_BATCH then 1 else 0))"

lemma timeout_no_buffer: "\<not> unat TIMEOUT_UD < RECV_BATCH"
  by (simp add: TIMEOUT_UD_def RECV_BATCH_def unat_max_word)

lemma count_completed:
  "count (mset (map fst (filter (\<lambda>c. fst c \<noteq> t) cs))) x = (if x = t then 0 else count (mset (map fst cs)) x)"
  by (induction cs) auto

lemma distinct_of_count: "(\<And>x. count (mset xs) x \<le> 1) \<Longrightarrow> distinct xs"
proof (induction xs)
  case (Cons a xs)
  have "count (mset xs) x \<le> 1" for x
    using le_trans [OF _ Cons.prems [of x]] by simp
  moreover have "count (mset xs) a = 0" using Cons.prems [of a] by simp
  then have "a \<notin> set xs" by (simp add: count_mset_0_iff)
  ultimately show ?case using Cons.IH by simp
qed simp

lemma reaped_completed:
  assumes ok: "uring_ok u depth sq fl" and reap: "ur_reap u q = (cs, q')" and armed: "armed sq fl q"
  defines "cs1 \<equiv> filter (\<lambda>c. fst c \<noteq> TIMEOUT_UD) cs"
  shows "reaped_ok sq fl q' cs1"
    and "posted sq fl q'' = posted sq fl q' + mset (map fst cs1) \<Longrightarrow> armed sq fl q''"
proof -
  note r = uring_reap [OF ok reap]
  have cnt: "count (posted sq fl q) x = count (mset (map fst cs)) x + count (posted sq fl q') x" for x
    using r by simp
  have one: "count (mset (map fst cs1)) x + count (posted sq fl q') x = (if unat x < RECV_BATCH then 1 else 0)"
    if "x \<noteq> TIMEOUT_UD" for x
    using cnt [of x] armed that unfolding cs1_def count_completed by (simp add: armed_def)
  have mem: "fst c \<noteq> TIMEOUT_UD \<and> 0 < count (mset (map fst cs1)) (fst c)" if "c \<in> set cs1" for c
    using that by (auto simp: cs1_def count_greater_zero_iff simp del: mset_map mset_filter)
  have "distinct (map fst cs1)"
  proof -
    have le: "count (mset (map fst cs1)) x \<le> 1" for x
    proof (cases "x = TIMEOUT_UD")
      case True
      then show ?thesis unfolding cs1_def count_completed by simp
    next
      case False
      then have "count (mset (map fst cs1)) x \<le> (if unat x < RECV_BATCH then 1 else 0)"
        using one [OF False] by linarith
      then show ?thesis by (rule order_trans) simp
    qed
    then show ?thesis by (rule distinct_of_count)
  qed
  moreover have "unat (fst c) < RECV_BATCH \<and> fst c \<notin># posted sq fl q'" if "c \<in> set cs1" for c
  proof -
    have "count (mset (map fst cs1)) (fst c) + count (posted sq fl q') (fst c) =
        (if unat (fst c) < RECV_BATCH then 1 else 0)" "0 < count (mset (map fst cs1)) (fst c)"
      using one mem [OF that] by blast+
    moreover have "a + b = (if P then 1 else 0) \<Longrightarrow> 0 < a \<Longrightarrow> P \<and> b = 0" for a b :: nat and P
      by (cases P) simp_all
    ultimately have "unat (fst c) < RECV_BATCH \<and> count (posted sq fl q') (fst c) = 0" by blast
    then show ?thesis by (simp add: not_in_iff)
  qed
  moreover have "sint (snd c) \<le> int BUF_SIZE" if "c \<in> set cs1" for c
    using r that by (auto simp: cs1_def)
  ultimately show "reaped_ok sq fl q' cs1" by (simp add: reaped_ok_def)
  show "armed sq fl q''" if "posted sq fl q'' = posted sq fl q' + mset (map fst cs1)"
    using one that by (simp add: armed_def add.commute)
qed

lemma count_fold_record: "lh_count (fold record_ns xs h) = lh_count h + of_nat (length xs)"
  by (induction xs arbitrary: h) (simp_all add: record_ns_def Let_def)

lemma min_plus_rest: "a + of_nat (min r n) + (b + of_nat (n - r)) = a + b + (of_nat n :: u64)"
proof -
  have "min r n + (n - r) = n" by simp
  then have "of_nat (min r n) + of_nat (n - r) = (of_nat n :: u64)" by (metis of_nat_add)
  then show ?thesis by (simp add: algebra_simps)
qed

text \<open>The effect of an iteration on the feedhandler: interrupted, or a batch fed and all orders drained.\<close>

definition interrupted :: "'q uring_ops \<Rightarrow> 'q \<Rightarrow> bool" where
  "interrupted u q \<longleftrightarrow> fst (ur_wait u (push_timeout u q)) \<noteq> None"

definition iterated :: "bool \<Rightarrow> (nat \<Rightarrow> u64 \<times> u8 list) \<Rightarrow> feedhandler \<Rightarrow> feedhandler \<Rightarrow> order_msg list \<Rightarrow> bool" where
  "iterated intr env fh fh' os \<longleftrightarrow>
     (if intr then fh' = fh \<and> os = [] else
      \<exists>ps fh1. fed fh (stamped env 0 ps) (length (filter short_packet ps)) fh1 \<and>
        (\<exists>s. fh' = fh1\<lparr>fh_orders := s, fh_order_count := fh_order_count fh + of_nat (length os)\<rparr> \<and>
          ends_ok s \<and> ends_queue s = []) \<and>
        os = map order_of_bytes (ends_queue (fh_orders fh)))"

lemma iterated_ok: "iterated intr env fh fh' os \<Longrightarrow> fh_ok fh \<Longrightarrow> fh_ok fh'"
  by (auto simp: iterated_def fh_ok_def fed_def count_fold_record min_plus_rest split: if_splits)

lemma fh_iteration_spec:
  assumes ok: "uring_ok u depth sq fl" "0 < depth" and pads: "\<forall>k. length (snd (env k)) = 4"
    and armed: "armed sq fl q" and fh: "fh_ok fh"
  shows "\<exists>r. fh_iteration u env q fh = Some r \<and>
    (case r of Inl e \<Rightarrow> \<not> is_panic e | Inr (q', fh', os) \<Rightarrow> armed sq fl q' \<and> iterated (interrupted u q) env fh fh' os)"
proof -
  define q0 where "q0 = push_timeout u q"
  have a0: "armed sq fl q0"
    using armed uring_push_Some [OF ok(1), of q TIMEOUT_UD] timeout_no_buffer
    by (cases "ur_push u q TIMEOUT_UD") (auto simp: q0_def push_timeout_def armed_def)
  obtain e q1 where w: "ur_wait u q0 = (e, q1)" by force
  then have a1: "armed sq fl q1"
    using a0 uring_wait [OF ok(1) w] by (simp add: armed_def kernel_step_def)
  show ?thesis
  proof (cases e)
    case (Some n)
    then show ?thesis using w a1
      by (simp add: fh_iteration_def q0_def [symmetric] is_panic_def iterated_def interrupted_def)
  next
    case None
    obtain cs q2 where reap: "ur_reap u q1 = (cs, q2)" by force
    let ?cs = "filter (\<lambda>c. fst c \<noteq> TIMEOUT_UD) cs"
    note rc = reaped_completed [OF ok(1) reap a1]
    obtain r where r: "handle_done u env 0 ?cs q2 fh = Some r"
      "case r of Inl e \<Rightarrow> \<not> is_panic e
       | Inr (q', fh') \<Rightarrow> posted sq fl q' = posted sq fl q2 + mset (map fst ?cs) \<and>
           feed env 0 (packets u q2 ?cs) fh = Inr fh'"
      using handle_done_feed [OF ok pads rc(1)] fh by (auto simp: fh_ok_def)
    show ?thesis
    proof (cases r)
      case (Inl e1)
      then show ?thesis using r w None reap by (simp add: fh_iteration_def q0_def [symmetric])
    next
      case (Inr p)
      obtain q3 fh1 where p: "p = (q3, fh1)" by force
      let ?ps = "packets u q2 ?cs"
      have feed: "feed env 0 ?ps fh = Inr fh1" and a3: "armed sq fl q3"
        using r(2) rc(2) by (simp_all add: Inr p)
      have "\<forall>x \<in> set ?ps. packet_ok x"
        using rc(1) uring_len(2) [OF ok(1)] by (auto simp: packets_def packet_ok_def reaped_ok_def)
      then have fed: "fed fh (stamped env 0 ?ps) (length (filter short_packet ?ps)) fh1"
        using feed_fed [OF _ pads, of ?ps fh 0] fh feed by (auto simp: fh_ok_def)
      then have same: "fh_orders fh1 = fh_orders fh" "fh_order_count fh1 = fh_order_count fh"
        by (simp_all add: fed_def)
      have orders: "ends_ok (fh_orders fh1)" "length (ends_queue (fh_orders fh1)) < Suc RING_CAPACITY"
        using fh ring_fifo.bounded [of "fh_orders fh"] same by (auto simp: fh_ok_def)
      obtain s where "drain_orders (Suc RING_CAPACITY) fh1 = Some (map order_of_bytes (ends_queue (fh_orders fh)),
          fh1\<lparr>fh_orders := s,
            fh_order_count := fh_order_count fh + of_nat (length (ends_queue (fh_orders fh)))\<rparr>)"
        "ends_ok s" "ends_queue s = []"
        using drain_orders_all [OF orders] same by auto
      note s = this
      let ?os = "map order_of_bytes (ends_queue (fh_orders fh))"
      let ?fh = "fh1\<lparr>fh_orders := s, fh_order_count := fh_order_count fh + of_nat (length ?os)\<rparr>"
      have "\<not> interrupted u q" using w None by (simp add: interrupted_def q0_def)
      moreover from this have "iterated (interrupted u q) env fh ?fh ?os"
        unfolding iterated_def if_not_P [OF \<open>\<not> interrupted u q\<close>]
        by (intro exI [of _ ?ps] exI [of _ fh1] conjI exI [of _ s]) (use fed s(2,3) in simp_all)
      moreover have "fh_iteration u env q fh = Some (Inr (q3, ?fh, ?os))"
        using w None reap r(1) s(1) by (simp add: fh_iteration_def q0_def [symmetric] Inr p del: drain_orders.simps)
      ultimately show ?thesis using a3 by simp
    qed
  qed
qed

lemma engine_acts_ok:
  assumes "fh_ok fh" "\<forall>m \<in> set (fr_sent r). length m \<le> SLOT_PAYLOAD"
  shows "fh_ok (engine_acts r fh)"
proof -
  have "ends_ok (snd (snd (fifo_run ring_push ring_pop (replicate (fr_taken r) Pop) (fh_ticks fh))))"
    by (cases "fifo_run ring_push ring_pop (replicate (fr_taken r) Pop) (fh_ticks fh)")
      (use assms(1) ring_fifo.run_fifo [of "fh_ticks fh" "replicate (fr_taken r) Pop"] in \<open>auto simp: fh_ok_def\<close>)
  moreover have "ends_ok (snd (snd (fifo_run ring_push ring_pop (map Push (fr_sent r)) (fh_orders fh))))"
    by (cases "fifo_run ring_push ring_pop (map Push (fr_sent r)) (fh_orders fh)")
      (use assms ring_fifo.run_fifo [of "fh_orders fh" "map Push (fr_sent r)"] in \<open>auto simp: fh_ok_def fits_slot_def\<close>)
  ultimately show ?thesis using assms(1) by (simp add: fh_ok_def engine_acts_def)
qed

definition round_ok :: "fh_round \<Rightarrow> bool" where
  "round_ok r \<longleftrightarrow> (\<forall>k. length (snd (fr_env r k)) = 4) \<and> (\<forall>m \<in> set (fr_sent r). length m \<le> SLOT_PAYLOAD)"

lemma fh_loop_spec:
  assumes ok: "uring_ok u depth sq fl" "0 < depth"
  shows "\<forall>r \<in> set rs. round_ok r \<Longrightarrow> armed sq fl q \<Longrightarrow> fh_ok fh \<Longrightarrow>
    \<exists>r. fh_loop u deadline rs q fh = Some r \<and>
      (case r of Inl e \<Rightarrow> \<not> is_panic e | Inr (q', fh', os, fin) \<Rightarrow> armed sq fl q' \<and> fh_ok fh')"
proof (induction rs arbitrary: q fh)
  case Nil
  then show ?case by simp
next
  case (Cons r rs)
  show ?case
  proof (cases "fr_stop r \<or> (case deadline of None \<Rightarrow> False | Some d \<Rightarrow> d \<le> fr_now r)")
    case True
    then show ?thesis using Cons.prems by simp
  next
    case go: False
    have rok: "\<forall>k. length (snd (fr_env r k)) = 4" "fh_ok (engine_acts r fh)"
      using Cons.prems engine_acts_ok [of fh r] by (simp_all add: round_ok_def)
    obtain r1 where r1: "fh_iteration u (fr_env r) q (engine_acts r fh) = Some r1"
      "case r1 of Inl e \<Rightarrow> \<not> is_panic e
       | Inr (q', fh', os) \<Rightarrow> armed sq fl q' \<and> iterated (interrupted u q) (fr_env r) (engine_acts r fh) fh' os"
      using fh_iteration_spec [OF ok rok(1) Cons.prems(2) rok(2)] by blast
    show ?thesis
    proof (cases r1)
      case (Inl e)
      then show ?thesis using go r1 by auto
    next
      case (Inr p)
      obtain q1 fh1 os where p: "p = (q1, fh1, os)" by (metis prod_cases3)
      have "armed sq fl q1" "fh_ok fh1" using r1(2) iterated_ok [OF _ rok(2)] by (auto simp: Inr p)
      then obtain r2 where "fh_loop u deadline rs q1 fh1 = Some r2"
        "case r2 of Inl e \<Rightarrow> \<not> is_panic e | Inr (q', fh', os, fin) \<Rightarrow> armed sq fl q' \<and> fh_ok fh'"
        using Cons.IH Cons.prems(1) by (metis list.set_intros(2))
      then show ?thesis using go r1(1) by (auto simp: Inr p split: sum.splits)
    qed
  qed
qed

lemma post_receives_spec:
  assumes ok: "uring_ok u depth sq fl" "0 < depth"
  shows "\<exists>r. post_receives u i n q = Some r \<and>
    (case r of Inl e \<Rightarrow> \<not> is_panic e
     | Inr q' \<Rightarrow> posted sq fl q' = posted sq fl q + mset (map of_nat [i..<i + n]))"
proof (induction n arbitrary: i q)
  case 0
  then show ?case by simp
next
  case (Suc n)
  obtain r where r: "submit_recv u (of_nat i) q = Some r"
    "case r of Inl e \<Rightarrow> (\<exists>n. e = RingSubmit n \<or> e = RingSubmitFull n) | Inr q' \<Rightarrow> posts_one u sq fl (of_nat i) q q'"
    using submit_recv_spec [OF ok] by blast
  show ?case
  proof (cases r)
    case (Inl e)
    then show ?thesis using r by (auto simp: is_panic_def)
  next
    case (Inr q1)
    have "[i..<i + Suc n] = i # [Suc i..<Suc i + n]" by (simp add: upt_conv_Cons)
    then show ?thesis using Suc.IH [of "Suc i" q1] r
      by (auto simp: Inr posts_one_def split: sum.splits)
  qed
qed

lemma all_posted_armed:
  assumes "posted sq fl q = mset (map of_nat [0..<RECV_BATCH])"
  shows "armed sq fl q"
proof -
  have "count (mset (map of_nat [0..<n])) (ud :: u64) = (if unat ud < n then 1 else 0)" if "n \<le> 32" for n ud
    using that
  proof (induction n)
    case (Suc n)
    have "of_nat n = ud \<longleftrightarrow> unat ud = n" using Suc.prems by (auto simp: unat_of_nat64_small)
    then show ?case using Suc by auto
  qed simp
  then show ?thesis unfolding armed_def assms by (simp add: RECV_BATCH_def)
qed

section \<open>Properties\<close>

text \<open>An io_uring for the examples: a queue of four, completions of 64 zero bytes at once.\<close>

definition demo_uring :: "(u64 list \<times> u64 list) uring_ops" where
  "demo_uring = \<lparr>
     ur_push = (\<lambda>(a, b) ud. let s = take 4 a in if length s < 4 then Some (s @ [ud], b) else None),
     ur_submit = (\<lambda>(a, b). (None, [], b @ take 4 a)),
     ur_wait = (\<lambda>(a, b). (None, [], b @ take 4 a)),
     ur_reap = (\<lambda>(a, b). (map (\<lambda>ud. (ud, 64)) b, a, [])),
     ur_buffer = (\<lambda>q ud. replicate BUF_SIZE 0)\<rparr>"

definition demo_env :: "nat \<Rightarrow> u64 \<times> u8 list" where
  "demo_env k = (of_nat (1000 + k), [0, 0, 0, 0])"

lemma demo_uring_ok: "uring_ok demo_uring 4 (\<lambda>q. take 4 (fst q)) (\<lambda>q. mset (snd q))"
  by (auto simp: uring_ok_def demo_uring_def Let_def kernel_step_def posted_def comp_def BUF_SIZE_def
      multiset.map_comp split: if_splits prod.splits)

text \<open>C23. Resubmitting a receive always returns, although its retry has no bound of its own: a
  full queue is emptied by the submission that follows, so the second attempt finds room. If it
  does not fail with the error of a submission, the entry is posted exactly once, nothing else
  posted is lost, and no buffer but one the kernel holds is touched.\<close>

theorem submit_recv_returns:
  assumes "uring_ok u depth sq fl" and "0 < depth"
  shows "\<exists>r. submit_recv u ud q = Some r \<and>
    (case r of
       Inl e \<Rightarrow> (\<exists>n. e = RingSubmit n \<or> e = RingSubmitFull n)
     | Inr q' \<Rightarrow> posted sq fl q' = add_mset ud (posted sq fl q) \<and>
         (\<forall>x. x \<notin># add_mset ud (posted sq fl q) \<longrightarrow> ur_buffer u q' x = ur_buffer u q x))"
  using submit_recv_spec [OF assms, of ud q] unfolding posts_one_def .

theorem submit_recv_returns_witness:
  "\<exists>r. submit_recv demo_uring 7 ([1, 2, 3, 4], [5]) = Some r \<and>
     (case r of Inl e \<Rightarrow> \<exists>n. e = RingSubmit n \<or> e = RingSubmitFull n
      | Inr q' \<Rightarrow> posted (\<lambda>q. take 4 (fst q)) (\<lambda>q. mset (snd q)) q' = {#1, 2, 3, 4, 5, 7#})"
  using submit_recv_returns [OF demo_uring_ok, of 7 "([1, 2, 3, 4], [5])"]
  by (auto simp: posted_def add_mset_commute split: sum.splits)

text \<open>C12. A batch of completions: every packet of at least 64 bytes becomes a tick stamped with
  the time of receipt; as many as the ring has room for are appended to it, whole and in the order
  of the completions, and counted; the others are counted as drops and the latest, not the oldest,
  are lost. Shorter packets are counted as bad, failed receives leave no trace, and the histogram
  gets the latency of every tick, dropped ones included. No buffer is overwritten before its
  packet has been read, although each receive is posted again before the next packet is handled.\<close>

theorem batch_published:
  assumes "uring_ok u depth sq fl" and "0 < depth" and "\<forall>k. length (snd (env k)) = 4"
    and "reaped_ok sq fl q cs" and "fh_ok fh"
    and "handle_done u env 0 cs q fh = Some (Inr (q', fh'))"
  shows "let ps = packets u q cs; ts = stamped env 0 ps in
    queued_ticks fh' = queued_ticks fh @ take (RING_CAPACITY - length (queued_ticks fh)) ts \<and>
    fh_recv_count fh' = fh_recv_count fh + of_nat (length (queued_ticks fh') - length (queued_ticks fh)) \<and>
    fh_publish_drops fh' =
      fh_publish_drops fh + of_nat (length ts - (RING_CAPACITY - length (queued_ticks fh))) \<and>
    fh_bad_packets fh' = fh_bad_packets fh + of_nat (length (filter short_packet ps)) \<and>
    fh_wire_lat fh' = fold record_ns (map wire_latency ts) (fh_wire_lat fh) \<and>
    fh_orders fh' = fh_orders fh"
proof -
  have t: "ends_ok (fh_ticks fh)" using assms(5) by (simp add: fh_ok_def)
  have f: "feed env 0 (packets u q cs) fh = Inr fh'"
    using handle_done_feed [OF assms(1,2,3,4) t, of 0] assms(6) by auto
  have "\<forall>x \<in> set (packets u q cs). packet_ok x"
    using assms(4) uring_len(2) [OF assms(1)] by (auto simp: packets_def packet_ok_def reaped_ok_def)
  from feed_fed [OF this assms(3) t, of 0] f
  have "fed fh (stamped env 0 (packets u q cs)) (length (filter short_packet (packets u q cs))) fh'" by auto
  then show ?thesis by (simp add: fed_def room_def Let_def min.commute)
qed

definition demo_fh :: feedhandler where
  "demo_fh = feedhandler_init fresh_ends fresh_ends"

lemma demo_fh_ok: "fh_ok demo_fh" "queued_ticks demo_fh = []" "fh_bad_packets demo_fh = 0"
  by (simp_all add: demo_fh_def feedhandler_init_def fh_ok_def queued_ticks_def fresh_ends_ok histogram_new_def)

theorem batch_published_witness:
  "\<exists>q' fh'. handle_done demo_uring demo_env 0 [(3, 64), (5, 10), (6, - 11)] ([], []) demo_fh = Some (Inr (q', fh')) \<and>
     map mt_recv_ts_ns (queued_ticks fh') = [1000] \<and> fh_bad_packets fh' = 1"
proof -
  let ?sq = "\<lambda>q :: u64 list \<times> u64 list. take 4 (fst q)" and ?fl = "\<lambda>q :: u64 list \<times> u64 list. mset (snd q)"
  let ?cs = "[(3, 64), (5, 10), (6, - 11)] :: (u64 \<times> i32) list"
  have pads: "\<forall>k. length (snd (demo_env k)) = 4" by (simp add: demo_env_def)
  have rc: "reaped_ok ?sq ?fl ([], []) ?cs"
    by (simp add: reaped_ok_def posted_def RECV_BATCH_def BUF_SIZE_def)
  have t: "ends_ok (fh_ticks demo_fh)" using demo_fh_ok(1) by (simp add: fh_ok_def)
  have sub: "submit_recv demo_uring ud (a, b) = Some (Inr ([], b @ take 4 a @ [ud]))" if "length a < 4" for ud a b
    using that by (subst submit_recv.simps) (simp add: demo_uring_def)
  obtain r where r: "handle_done demo_uring demo_env 0 ?cs ([], []) demo_fh = Some r" "\<And>e. r = Inl e \<Longrightarrow> \<not> is_panic e"
    using handle_done_feed [OF demo_uring_ok _ pads rc t, of 0] by (metis (lifting) old.sum.simps(5) zero_less_numeral)
  have "\<not> (\<exists>e. r = Inl e \<and> \<not> is_panic e)"
    using r(1) by (auto simp: sub is_panic_def split: if_splits sum.splits)
  then obtain q' fh' where "r = Inr (q', fh')" using r(2) by (cases r) auto
  then have d: "handle_done demo_uring demo_env 0 ?cs ([], []) demo_fh = Some (Inr (q', fh'))" using r(1) by simp
  show ?thesis
    using d batch_published [OF demo_uring_ok _ pads rc demo_fh_ok(1) d]
    by (auto simp: Let_def demo_fh_ok packets_def short_packet_def layout_simps demo_env_def RING_CAPACITY_def)
qed

text \<open>C13. The feedhandler from its start on: once the 32 receives are posted, the loop never
  panics and each iteration returns, whatever the kernel completes, the engine does on the rings
  and the calls report. At its end every receive is posted exactly once, so none is lost or
  doubled, also over interrupted waits; both rings are well formed; and the count of the latency
  histogram is the ticks published plus the ticks dropped.\<close>

theorem feedhandler_runs:
  assumes "uring_ok u depth sq fl" and "0 < depth" and "posted sq fl q0 = {#}"
    and "ends_ok ticks" and "ends_ok orders" and "\<forall>r \<in> set rs. round_ok r"
    and "post_receives u 0 RECV_BATCH q0 = Some (Inr q)"
  shows "\<exists>r. fh_loop u deadline rs q (feedhandler_init ticks orders) = Some r \<and>
    (case r of
       Inl e \<Rightarrow> \<not> is_panic e
     | Inr (q', fh', os, fin) \<Rightarrow>
         (\<forall>i < RECV_BATCH. count (posted sq fl q') (of_nat i) = 1) \<and>
         ends_ok (fh_ticks fh') \<and> ends_ok (fh_orders fh') \<and>
         lh_count (fh_wire_lat fh') = fh_recv_count fh' + fh_publish_drops fh')"
proof -
  have "posted sq fl q = mset (map of_nat [0..<RECV_BATCH])"
    using post_receives_spec [OF assms(1,2), of 0 RECV_BATCH q0] assms(3,7) by simp
  then have a: "armed sq fl q" by (rule all_posted_armed)
  have "fh_ok (feedhandler_init ticks orders)"
    using assms(4,5) by (simp add: fh_ok_def feedhandler_init_def histogram_new_def)
  from fh_loop_spec [OF assms(1,2,6) a this]
  obtain r where r: "fh_loop u deadline rs q (feedhandler_init ticks orders) = Some r"
    "case r of Inl e \<Rightarrow> \<not> is_panic e | Inr (q', fh', os, fin) \<Rightarrow> armed sq fl q' \<and> fh_ok fh'" by blast
  have "count (posted sq fl q') (of_nat i) = 1" if "armed sq fl q'" "i < RECV_BATCH" for q' i
  proof -
    have "unat (of_nat i :: u64) = i" using that(2) by (simp add: RECV_BATCH_def unat_of_nat64_small)
    then have "of_nat i \<noteq> TIMEOUT_UD" "unat (of_nat i :: u64) < RECV_BATCH" using timeout_no_buffer that(2) by auto
    then show ?thesis using that(1) by (simp add: armed_def)
  qed
  then show ?thesis using r by (auto simp: fh_ok_def split: sum.splits)
qed

theorem feedhandler_runs_witness:
  "\<exists>q r. post_receives demo_uring 0 RECV_BATCH ([], []) = Some (Inr q) \<and>
     fh_loop demo_uring None [\<lparr>fr_stop = False, fr_now = 0, fr_taken = 1, fr_sent = [[1]], fr_env = demo_env\<rparr>] q
       (feedhandler_init fresh_ends fresh_ends) = Some r"
proof -
  let ?r = "\<lparr>fr_stop = False, fr_now = 0, fr_taken = 1, fr_sent = [[1]], fr_env = demo_env\<rparr>"
  have sub: "submit_recv demo_uring ud (a, b) = Some (Inr ([], b @ take 4 a @ [ud]))" if "length a < 4" for ud a b
    using that by (subst submit_recv.simps) (simp add: demo_uring_def)
  have "\<exists>b'. post_receives demo_uring i n ([], b) = Some (Inr ([], b'))" for i n b
    by (induction n arbitrary: i b) (simp_all add: sub)
  then obtain q where q: "post_receives demo_uring 0 RECV_BATCH ([], []) = Some (Inr q)" by blast
  have rk: "\<forall>r \<in> set [?r]. round_ok r" by (simp add: round_ok_def demo_env_def SLOT_PAYLOAD_def)
  have p: "posted (\<lambda>q. take 4 (fst q)) (\<lambda>q. mset (snd q)) ([], []) = {#}" by (simp add: posted_def)
  show ?thesis
    using q feedhandler_runs [OF demo_uring_ok _ p fresh_ends_ok(1) fresh_ends_ok(1) rk q, of None]
    by (auto simp del: fh_loop.simps)
qed

text \<open>An iteration whose wait is not interrupted leaves no order in the ring: it takes out
  exactly the orders queued, oldest first, decodes and counts each, and the drain ends.\<close>

theorem orders_drained:
  assumes "uring_ok u depth sq fl" and "0 < depth" and "\<forall>k. length (snd (env k)) = 4"
    and "armed sq fl q" and "fh_ok fh" and "\<not> interrupted u q"
    and "fh_iteration u env q fh = Some (Inr (q', fh', os))"
  shows "os = map order_of_bytes (ends_queue (fh_orders fh)) \<and> ends_queue (fh_orders fh') = [] \<and>
    fh_order_count fh' = fh_order_count fh + of_nat (length os) \<and> armed sq fl q'"
  using fh_iteration_spec [OF assms(1-5)] assms(6,7) by (auto simp: iterated_def fed_def)

definition demo_order :: order_msg where
  "demo_order = \<lparr>om_order_id = 1, om_submit_ts_ns = 2, om_symbol = replicate 8 65, om_px = 3, om_qty = 4,
     om_side = 0, om_pad = [0, 0, 0]\<rparr>"

theorem orders_drained_witness:
  "\<exists>s q' fh' os. ring_push (order_bytes demo_order) fresh_ends = (True, s) \<and>
     fh_iteration (demo_uring\<lparr>ur_reap := \<lambda>q. ([], q)\<rparr>) demo_env ([], map of_nat [0..<RECV_BATCH])
       (demo_fh\<lparr>fh_orders := s\<rparr>) = Some (Inr (q', fh', os)) \<and> os = [demo_order]"
proof -
  let ?u = "demo_uring\<lparr>ur_reap := \<lambda>q. ([], q)\<rparr>"
  let ?sq = "\<lambda>q :: u64 list \<times> u64 list. take 4 (fst q)" and ?fl = "\<lambda>q :: u64 list \<times> u64 list. mset (snd q)"
  let ?q = "([], map of_nat [0..<RECV_BATCH]) :: u64 list \<times> u64 list"
  have ok: "uring_ok ?u 4 ?sq ?fl" using demo_uring_ok unfolding uring_ok_def
    by (simp add: kernel_step_def)
  have pads: "\<forall>k. length (snd (demo_env k)) = 4" by (simp add: demo_env_def)
  have arm: "armed ?sq ?fl ?q" by (rule all_posted_armed) (simp add: posted_def)
  have wf: "order_wf demo_order" by (simp add: order_wf_def demo_order_def SYMBOL_LEN_def)
  have fits: "fits_slot (order_bytes demo_order)"
    using length_order_bytes [OF wf] by (simp add: fits_slot_def SLOT_PAYLOAD_def layout_simps)
  obtain s where s: "ring_push (order_bytes demo_order) fresh_ends = (True, s)" "ends_ok s"
    "ends_queue s = [pad_payload (order_bytes demo_order)]"
    using ring_push_room [OF fresh_ends_ok(1) fits] by (auto simp: fresh_ends_ok(2))
  have dec: "order_of_bytes (pad_payload (order_bytes demo_order)) = demo_order"
    unfolding pad_payload_def by (rule order_of_order_bytes [OF wf])
  have fh: "fh_ok (demo_fh\<lparr>fh_orders := s\<rparr>)" using demo_fh_ok(1) s(2) by (simp add: fh_ok_def)
  have ni: "\<not> interrupted ?u ?q" by (simp add: interrupted_def demo_uring_def split: prod.splits)
  obtain s1 where "drain_orders (Suc RING_CAPACITY) (demo_fh\<lparr>fh_orders := s\<rparr>) = Some s1"
    using drain_orders_all [of "demo_fh\<lparr>fh_orders := s\<rparr>" "Suc RING_CAPACITY"] s(2,3)
    by (auto simp: RING_CAPACITY_def simp del: drain_orders.simps)
  then obtain q' fh' os where i: "fh_iteration ?u demo_env ?q (demo_fh\<lparr>fh_orders := s\<rparr>) = Some (Inr (q', fh', os))"
    by (cases s1) (auto simp: fh_iteration_def push_timeout_def demo_uring_def simp del: drain_orders.simps)
  show ?thesis
    using s(1) i orders_drained [OF ok _ pads arm fh ni i] by (auto simp: s(3) dec)
qed

end
