(* ===== verification/Pipeline.thy ===== *)
theory Pipeline
  imports Feedhandler Engine_Inline "HOL-Library.Sublist"
begin

text \<open>
  The feedhandler and the engine at work on one bus, in any interleaving: each packet, each
  order taken out by the drain, each tick taken by the engine and each order it sends is a
  step of its own, so that either process may act between any two steps of the other. The calls on the
  rings are whole; \<open>Ring_Concurrent\<close> takes them apart. The lemmas give the invariant of the
  pair: the ticks published are those that arrived less the ones dropped at a full ring, the ticks taken are a prefix
  of them, the orders sent are the strategy's over these less the ones dropped at a full ring, the orders logged are a
  prefix of the orders sent, and every drop is counted.
\<close>

section \<open>The steps\<close>

text \<open>The turn of \<open>run_inline\<close> in two: up to \<open>strategy_step\<close>, and sending the order.\<close>

definition engine_take :: "strategy_params \<Rightarrow> u64 \<times> u64 \<Rightarrow> inline_engine \<Rightarrow> order_msg option \<times> inline_engine" where
  "engine_take ps clk e =
     (case ring_pop (ie_ticks e) of
        (None, s) \<Rightarrow> (None, e\<lparr>ie_ticks := s, ie_idle_spin := snd (idle_backoff (ie_idle_spin e))\<rparr>)
      | (Some buf, s) \<Rightarrow>
          let tick = tick_of_bytes buf;
              consume_ts = fst clk;
              e1 = e\<lparr>ie_ticks := s, ie_idle_spin := 0, ie_ticks_seen := ie_ticks_seen e + 1,
                     ie_shm_transit := record_ns (saturating_sub consume_ts (mt_recv_ts_ns tick)) (ie_shm_transit e),
                     ie_end_to_end := record_ns (saturating_sub consume_ts (mt_exch_ts_ns tick)) (ie_end_to_end e)\<rparr>;
              ((order_opt, dev), st, i) = strategy_step ps (snd clk) tick (ie_state e1) (ie_next_order_id e1)
          in (order_opt, e1\<lparr>ie_state := st, ie_next_order_id := i\<rparr>))"

definition engine_send :: "order_msg \<Rightarrow> inline_engine \<Rightarrow> inline_engine" where
  "engine_send order e =
     (let (ok, s) = try_publish_order order (ie_orders e); e1 = e\<lparr>ie_orders := s\<rparr>
      in if \<not> ok then e1\<lparr>ie_orders_dropped := ie_orders_dropped e1 + 1\<rparr>
         else e1\<lparr>ie_orders_sent := ie_orders_sent e1 + 1\<rparr>)"

lemma inline_iteration_halves:
  "inline_iteration ps clk e =
    (case engine_take ps clk e of (None, e1) \<Rightarrow> e1 | (Some m, e1) \<Rightarrow> engine_send m e1)"
  by (auto simp: inline_iteration_def engine_take_def engine_send_def Let_def split: option.splits prod.splits)

text \<open>One turn of the feedhandler's drain.\<close>

definition take_order :: "feedhandler \<Rightarrow> order_msg option \<times> feedhandler" where
  "take_order fh =
     (case ring_pop (fh_orders fh) of
        (None, s) \<Rightarrow> (None, fh\<lparr>fh_orders := s\<rparr>)
      | (Some buf, s) \<Rightarrow>
          (Some (order_of_bytes buf), fh\<lparr>fh_orders := s, fh_order_count := fh_order_count fh + 1\<rparr>))"

lemma drain_orders_turns:
  "drain_orders (Suc n) fh =
    (case take_order fh of
       (None, fh1) \<Rightarrow> Some ([], fh1)
     | (Some m, fh1) \<Rightarrow> map_option (\<lambda>(os, fh2). (m # os, fh2)) (drain_orders n fh1))"
  by (auto simp: take_order_def split: option.splits prod.splits)

text \<open>
  The two processes, and what has happened so far, which is not in the program: the completions handled (the clock,
  the buffer and the result), the ticks published,
  the ticks taken with the clock of \<open>strategy_step\<close>, the orders the ring took and the orders logged.
  \<open>pl_pending\<close> is the order between the two halves of the engine's turn. Each process
  has its own view of the memory both map; a step of one is seen by the other.
\<close>

record pipeline =
  pl_fh :: feedhandler
  pl_en :: inline_engine
  pl_pending :: "order_msg option"
  pl_packets :: "(u64 \<times> u8 list \<times> i32) list"
  pl_published :: "market_tick list"
  pl_taken :: "(u64 \<times> market_tick) list"
  pl_sent :: "order_msg list"
  pl_logged :: "order_msg list"

definition pipeline_init :: "ring_ends \<Rightarrow> ring_ends \<Rightarrow> pipeline" where
  "pipeline_init ticks orders =
     \<lparr>pl_fh = feedhandler_init ticks orders, pl_en = inline_init ticks orders, pl_pending = None,
      pl_packets = [], pl_published = [], pl_taken = [], pl_sent = [], pl_logged = []\<rparr>"

definition seen_by_engine :: "feedhandler \<Rightarrow> inline_engine \<Rightarrow> inline_engine" where
  "seen_by_engine fh e = e\<lparr>ie_ticks := fh_ticks fh, ie_orders := fh_orders fh\<rparr>"

definition seen_by_feedhandler :: "inline_engine \<Rightarrow> feedhandler \<Rightarrow> feedhandler" where
  "seen_by_feedhandler e fh = fh\<lparr>fh_ticks := ie_ticks e, fh_orders := ie_orders e\<rparr>"

inductive pipeline_step :: "strategy_params \<Rightarrow> pipeline \<Rightarrow> pipeline \<Rightarrow> bool"
  for ps :: strategy_params
where
  packet: "packet_ok (buf, res) \<Longrightarrow> length pad = 4 \<Longrightarrow> handle_completion pad now buf res (pl_fh s) = Inr fh \<Longrightarrow>
    pipeline_step ps s (s\<lparr>pl_fh := fh, pl_en := seen_by_engine fh (pl_en s),
      pl_packets := pl_packets s @ [(now, buf, res)],
      pl_published := pl_published s @ drop (length (queued_ticks (pl_fh s))) (queued_ticks fh)\<rparr>)"
| log_order: "take_order (pl_fh s) = (ord, fh) \<Longrightarrow>
    pipeline_step ps s (s\<lparr>pl_fh := fh, pl_en := seen_by_engine fh (pl_en s),
      pl_logged := pl_logged s @ (case ord of None \<Rightarrow> [] | Some m \<Rightarrow> [m])\<rparr>)"
| take_tick: "pl_pending s = None \<Longrightarrow> engine_take ps clk (pl_en s) = (ord, e) \<Longrightarrow>
    pipeline_step ps s (s\<lparr>pl_en := e, pl_fh := seen_by_feedhandler e (pl_fh s), pl_pending := ord,
      pl_taken := pl_taken s @ map (Pair (snd clk)) (take 1 (queued_market_ticks (pl_en s)))\<rparr>)"
| send_order: "pl_pending s = Some m \<Longrightarrow> engine_send m (pl_en s) = e \<Longrightarrow>
    pipeline_step ps s (s\<lparr>pl_en := e, pl_fh := seen_by_feedhandler e (pl_fh s), pl_pending := None,
      pl_sent := pl_sent s @ drop (length (queued_orders (ie_orders (pl_en s)))) (queued_orders (ie_orders e))\<rparr>)"

inductive_cases pipeline_stepE: "pipeline_step ps s s'"

section \<open>The invariant\<close>

definition same_memory :: "pipeline \<Rightarrow> bool" where
  "same_memory s \<longleftrightarrow>
     fh_ticks (pl_fh s) = ie_ticks (pl_en s) \<and> fh_orders (pl_fh s) = ie_orders (pl_en s)"

definition offered :: "strategy_params \<Rightarrow> (u64 \<times> market_tick) list \<Rightarrow> order_msg list" where
  "offered ps es = fst (strategy_run ps es (\<lambda>s. None) 1)"

text \<open>The ticks in the packets that arrived, with their time of receipt.\<close>

definition arrived_ticks :: "(u64 \<times> u8 list \<times> i32) list \<Rightarrow> market_tick list" where
  "arrived_ticks ps =
     map (\<lambda>(now, buf, res). (tick_of_bytes buf)\<lparr>mt_recv_ts_ns := now\<rparr>)
       (filter (\<lambda>(now, buf, res). int MarketTick_SIZE \<le> sint res) ps)"

lemma arrived_ticks_snoc:
  "arrived_ticks (ps @ [(now, buf, res)]) =
    arrived_ticks ps @ (if int MarketTick_SIZE \<le> sint res then [(tick_of_bytes buf)\<lparr>mt_recv_ts_ns := now\<rparr>] else [])"
  by (simp add: arrived_ticks_def)

lemma length_arrived_ticks: "length (arrived_ticks ps) \<le> length ps"
  by (simp add: arrived_ticks_def)

text \<open>What a program has tried to put into a ring, with what the ring took and the program's two counters.\<close>

definition sending_ok :: "'a list \<Rightarrow> 'a list \<Rightarrow> u64 \<Rightarrow> u64 \<Rightarrow> bool" where
  "sending_ok tried sent n_sent n_dropped \<longleftrightarrow>
     subseq sent tried \<and> n_sent = of_nat (length sent) \<and> n_dropped = of_nat (length tried - length sent)"

definition pipeline_inv :: "strategy_params \<Rightarrow> pipeline \<Rightarrow> bool" where
  "pipeline_inv ps s \<longleftrightarrow>
     same_memory s \<and> ends_ok (ie_ticks (pl_en s)) \<and> ends_ok (ie_orders (pl_en s)) \<and>
     pl_published s = map snd (pl_taken s) @ queued_ticks (pl_fh s) \<and>
     (\<exists>tried. strategy_run ps (pl_taken s) (\<lambda>s. None) 1 =
         (tried @ (case pl_pending s of None \<Rightarrow> [] | Some m \<Rightarrow> [m]), ie_state (pl_en s), ie_next_order_id (pl_en s)) \<and>
       sending_ok tried (pl_sent s) (ie_orders_sent (pl_en s)) (ie_orders_dropped (pl_en s))) \<and>
     (\<forall>m. pl_pending s = Some m \<longrightarrow> order_wf m) \<and>
     sending_ok (arrived_ticks (pl_packets s)) (pl_published s)
       (fh_recv_count (pl_fh s)) (fh_publish_drops (pl_fh s)) \<and>
     fh_bad_packets (pl_fh s) = of_nat (length (filter (short_packet \<circ> snd) (pl_packets s))) \<and>
     pl_sent s = pl_logged s @ queued_orders (ie_orders (pl_en s)) \<and>
     fh_order_count (pl_fh s) = of_nat (length (pl_logged s)) \<and>
     ie_ticks_seen (pl_en s) = of_nat (length (pl_taken s))"


lemmas pipeline_inv_defs = pipeline_inv_def same_memory_def

lemma sending_ok_sent: "sending_ok tried sent a b \<Longrightarrow> sending_ok (tried @ [m]) (sent @ [m]) (a + 1) b"
  by (auto simp: sending_ok_def intro: list_emb_append_mono)

lemma sending_ok_drop:
  assumes "sending_ok tried sent a b"
  shows "sending_ok (tried @ [m]) sent a (b + 1)"
proof -
  have "length sent \<le> length tried" using assms list_emb_length by (auto simp: sending_ok_def)
  then show ?thesis using assms by (auto simp: sending_ok_def Suc_diff_le)
qed

lemma packet_step_inv:
  assumes inv: "pipeline_inv ps s" and ok: "packet_ok (buf, res)" "length pad = 4"
    and h: "handle_completion pad now buf res (pl_fh s) = Inr fh"
  shows "pipeline_inv ps (s\<lparr>pl_fh := fh, pl_en := seen_by_engine fh (pl_en s),
      pl_packets := pl_packets s @ [(now, buf, res)],
      pl_published := pl_published s @ drop (length (queued_ticks (pl_fh s))) (queued_ticks fh)\<rparr>)"
proof -
  have "ends_ok (fh_ticks (pl_fh s))" using inv by (simp add: pipeline_inv_defs)
  let ?ts = "if int MarketTick_SIZE \<le> sint res then [(tick_of_bytes buf)\<lparr>mt_recv_ts_ns := now\<rparr>] else []"
  obtain fh' where "handle_completion pad now buf res (pl_fh s) = Inr fh'"
    "fed (pl_fh s) ?ts (if short_packet (buf, res) then 1 else 0) fh'"
    using handle_completion_fed [OF ok \<open>ends_ok (fh_ticks (pl_fh s))\<close>, of now] by blast
  then have fed: "fed (pl_fh s) ?ts (if short_packet (buf, res) then 1 else 0) fh" using h by simp
  have "sending_ok (arrived_ticks (pl_packets s)) (pl_published s) (fh_recv_count (pl_fh s)) (fh_publish_drops (pl_fh s))"
    using inv unfolding pipeline_inv_def by blast
  then have "sending_ok (arrived_ticks (pl_packets s) @ ?ts) (pl_published s @ take (room (pl_fh s)) ?ts)
      (fh_recv_count fh) (fh_publish_drops fh)"
    using fed sending_ok_sent sending_ok_drop by (cases "room (pl_fh s)") (auto simp: fed_def)
  then show ?thesis using inv fed
    by (auto simp: pipeline_inv_defs fed_def seen_by_engine_def arrived_ticks_snoc)
qed

lemma log_step_inv:
  assumes inv: "pipeline_inv ps s" and h: "take_order (pl_fh s) = (ord, fh)"
  shows "pipeline_inv ps (s\<lparr>pl_fh := fh, pl_en := seen_by_engine fh (pl_en s),
      pl_logged := pl_logged s @ (case ord of None \<Rightarrow> [] | Some m \<Rightarrow> [m])\<rparr>)"
proof -
  have "ends_ok (fh_orders (pl_fh s))" using inv by (simp add: pipeline_inv_defs)
  then show ?thesis
  proof (cases rule: ring_fifo.pop_cases)
    case (taken buf r)
    then show ?thesis using inv h
      by (auto simp: take_order_def pipeline_inv_defs seen_by_engine_def queued_ticks_def queued_orders_def)
  next
    case empty
    then show ?thesis using inv h
      by (auto simp: take_order_def pipeline_inv_defs seen_by_engine_def queued_ticks_def queued_orders_def)
  qed
qed

lemma take_step_inv:
  assumes inv: "pipeline_inv ps s" and none: "pl_pending s = None"
    and h: "engine_take ps clk (pl_en s) = (ord, e)"
  shows "pipeline_inv ps (s\<lparr>pl_en := e, pl_fh := seen_by_feedhandler e (pl_fh s), pl_pending := ord,
      pl_taken := pl_taken s @ map (Pair (snd clk)) (take 1 (queued_market_ticks (pl_en s)))\<rparr>)"
proof -
  have ok: "ends_ok (ie_ticks (pl_en s))" using inv by (simp add: pipeline_inv_def)
  have mem: "queued_ticks (pl_fh s) = queued_market_ticks (pl_en s)"
    using inv by (simp add: pipeline_inv_defs queued_ticks_def queued_market_ticks_def)
  from ok show ?thesis
  proof (cases rule: ring_fifo.pop_cases)
    case empty
    then show ?thesis using inv none h mem
      by (auto simp: engine_take_def pipeline_inv_defs seen_by_feedhandler_def queued_ticks_def queued_market_ticks_def)
  next
    case (taken buf r)
    let ?t = "tick_of_bytes buf"
    obtain m dev st i where step: "strategy_step ps (snd clk) ?t (ie_state (pl_en s)) (ie_next_order_id (pl_en s)) = ((m, dev), st, i)"
      by (metis prod.exhaust)
    have e: "ord = m" "ie_ticks e = r" "ie_orders e = ie_orders (pl_en s)" "ie_state e = st" "ie_next_order_id e = i"
      "ie_ticks_seen e = ie_ticks_seen (pl_en s) + 1" "ie_orders_sent e = ie_orders_sent (pl_en s)"
      "ie_orders_dropped e = ie_orders_dropped (pl_en s)"
      using h taken step by (auto simp: engine_take_def Let_def)
    have wf: "tick_wf ?t" by (rule popped_tick_wf [OF ok taken(3)])
    have q: "queued_market_ticks (pl_en s) = ?t # map tick_of_bytes (ends_queue r)"
      using taken(3) by (simp add: queued_market_ticks_def)
    obtain tried where tried: "strategy_run ps (pl_taken s) (\<lambda>s. None) 1 = (tried, ie_state (pl_en s), ie_next_order_id (pl_en s))"
      "sending_ok tried (pl_sent s) (ie_orders_sent (pl_en s)) (ie_orders_dropped (pl_en s))"
      using inv none by (auto simp: pipeline_inv_def)
    have run: "strategy_run ps (pl_taken s @ [(snd clk, ?t)]) (\<lambda>s. None) 1 =
        (tried @ (case m of None \<Rightarrow> [] | Some m \<Rightarrow> [m]), st, i)"
      by (simp add: strategy_run_append tried(1) step split: option.splits)
    have "order_wf m'" if "m = Some m'" for m' using strategy_step_wf [OF step [unfolded that] wf] .
    then show ?thesis using inv none taken(2) run tried(2)
      by (auto simp: pipeline_inv_defs seen_by_feedhandler_def queued_ticks_def q e)
        (use inv mem q in \<open>simp add: pipeline_inv_defs queued_ticks_def\<close>)+
  qed
qed

lemma send_step_inv:
  assumes inv: "pipeline_inv ps s" and pend: "pl_pending s = Some m" and e: "engine_send m (pl_en s) = e"
  shows "pipeline_inv ps (s\<lparr>pl_en := e, pl_fh := seen_by_feedhandler e (pl_fh s), pl_pending := None,
      pl_sent := pl_sent s @ drop (length (queued_orders (ie_orders (pl_en s)))) (queued_orders (ie_orders e))\<rparr>)"
proof -
  have ok: "ends_ok (ie_orders (pl_en s))" and wf: "order_wf m" using inv pend by (simp_all add: pipeline_inv_def)
  obtain tried where tried: "strategy_run ps (pl_taken s) (\<lambda>s. None) 1 = (tried @ [m], ie_state (pl_en s), ie_next_order_id (pl_en s))"
    "sending_ok tried (pl_sent s) (ie_orders_sent (pl_en s)) (ie_orders_dropped (pl_en s))"
    using inv pend by (auto simp: pipeline_inv_def)
  from ok wf show ?thesis
  proof (cases rule: try_publish_order_cases)
    case (sent r)
    then have e1: "e = (pl_en s)\<lparr>ie_orders := r, ie_orders_sent := ie_orders_sent (pl_en s) + 1\<rparr>"
      using e by (auto simp: engine_send_def)
    show ?thesis using inv tried sent(2,3) sending_ok_sent [OF tried(2), of m]
      by (auto simp: pipeline_inv_defs seen_by_feedhandler_def queued_ticks_def e1)
  next
    case full
    then have e1: "e = (pl_en s)\<lparr>ie_orders_dropped := ie_orders_dropped (pl_en s) + 1\<rparr>"
      using e by (auto simp: engine_send_def)
    show ?thesis using inv tried sending_ok_drop [OF tried(2), of m]
      by (auto simp: pipeline_inv_defs seen_by_feedhandler_def queued_ticks_def e1)
  qed
qed

lemma pipeline_step_inv:
  assumes "pipeline_step ps s s'" and inv: "pipeline_inv ps s"
  shows "pipeline_inv ps s'"
  using assms(1)
proof cases
  case (packet buf res pad now fh)
  then show ?thesis using packet_step_inv [OF inv] by blast
next
  case (log_order ord fh)
  then show ?thesis using log_step_inv [OF inv] by blast
next
  case (take_tick clk ord e)
  then show ?thesis using take_step_inv [OF inv] by blast
next
  case (send_order m e)
  then show ?thesis using send_step_inv [OF inv] by blast
qed

lemma pipeline_runs_inv: "(pipeline_step ps)\<^sup>*\<^sup>* s s' \<Longrightarrow> pipeline_inv ps s \<Longrightarrow> pipeline_inv ps s'"
  by (induction rule: rtranclp_induct) (blast intro: pipeline_step_inv)+

lemma pipeline_init_inv:
  "ends_ok ticks \<Longrightarrow> ends_ok orders \<Longrightarrow> ends_queue ticks = [] \<Longrightarrow> ends_queue orders = [] \<Longrightarrow>
   pipeline_inv ps (pipeline_init ticks orders)"
  by (simp add: pipeline_inv_defs pipeline_init_def feedhandler_init_def inline_init_def queued_ticks_def
      queued_orders_def sending_ok_def arrived_ticks_def)


text \<open>What the invariant says of the counters, and of a run without drops.\<close>

lemma pipeline_accounts:
  assumes inv: "pipeline_inv ps s"
  shows "subseq (pl_published s) (arrived_ticks (pl_packets s)) \<and>
    pl_published s = map snd (pl_taken s) @ queued_ticks (pl_fh s) \<and>
    subseq (pl_sent s) (offered ps (pl_taken s)) \<and>
    pl_sent s = pl_logged s @ queued_orders (ie_orders (pl_en s)) \<and>
    fh_recv_count (pl_fh s) = of_nat (length (pl_published s)) \<and>
    fh_publish_drops (pl_fh s) = of_nat (length (arrived_ticks (pl_packets s)) - length (pl_published s)) \<and>
    fh_bad_packets (pl_fh s) = of_nat (length (filter (short_packet \<circ> snd) (pl_packets s))) \<and>
    ie_ticks_seen (pl_en s) = of_nat (length (pl_taken s)) \<and>
    ie_orders_sent (pl_en s) = of_nat (length (pl_sent s)) \<and>
    (pl_pending s = None \<longrightarrow>
       ie_orders_dropped (pl_en s) = of_nat (length (offered ps (pl_taken s)) - length (pl_sent s))) \<and>
    fh_order_count (pl_fh s) = of_nat (length (pl_logged s))"
proof -
  obtain tried where tried:
    "offered ps (pl_taken s) = tried @ (case pl_pending s of None \<Rightarrow> [] | Some m \<Rightarrow> [m])"
    "sending_ok tried (pl_sent s) (ie_orders_sent (pl_en s)) (ie_orders_dropped (pl_en s))"
    using inv by (auto simp: pipeline_inv_def offered_def)
  then have orders: "subseq (pl_sent s) (offered ps (pl_taken s))"
    "ie_orders_sent (pl_en s) = of_nat (length (pl_sent s))"
    "pl_pending s = None \<longrightarrow>
      ie_orders_dropped (pl_en s) = of_nat (length (offered ps (pl_taken s)) - length (pl_sent s))"
    by (auto simp: sending_ok_def intro: list_emb_prefix)
  have "sending_ok (arrived_ticks (pl_packets s)) (pl_published s) (fh_recv_count (pl_fh s)) (fh_publish_drops (pl_fh s))"
    using inv unfolding pipeline_inv_def by blast
  note ticks = this [unfolded sending_ok_def]
  show ?thesis by (intro conjI) (use inv orders ticks in \<open>unfold pipeline_inv_def, blast+\<close>)
qed

lemma nothing_dropped:
  assumes "subseq xs ys" "length ys < 2 ^ 64" "(of_nat (length ys - length xs) :: u64) = 0"
  shows "xs = ys"
proof (rule subseq_same_length [OF assms(1)])
  have "length ys - length xs < 2 ^ 64" using assms(2) by simp
  then have "length ys - length xs = 0" using assms(3) unat_of_nat64_small by fastforce
  then show "length xs = length ys" using list_emb_length [OF assms(1)] by simp
qed

lemma pipeline_no_drops:
  assumes inv: "pipeline_inv ps s"
    and "length (pl_packets s) < 2 ^ 64 \<and> pl_pending s = None \<and>
       queued_ticks (pl_fh s) = [] \<and> queued_orders (ie_orders (pl_en s)) = [] \<and>
       fh_publish_drops (pl_fh s) = 0 \<and> ie_orders_dropped (pl_en s) = 0"
  shows "map snd (pl_taken s) = arrived_ticks (pl_packets s) \<and> pl_logged s = offered ps (pl_taken s)"
proof -
  note acc = pipeline_accounts [OF inv]
  have "length (arrived_ticks (pl_packets s)) < 2 ^ 64"
    using length_arrived_ticks assms(2) by (blast intro: le_less_trans)
  then have pub: "pl_published s = arrived_ticks (pl_packets s)" using acc assms(2) by (metis nothing_dropped)
  then have taken: "map snd (pl_taken s) = arrived_ticks (pl_packets s)" using acc assms(2) by simp
  have "length (offered ps (pl_taken s)) \<le> length (pl_taken s)"
    using strategy_run_ids [of ps "pl_taken s" "\<lambda>s. None" 1] by (simp add: offered_def Let_def split: prod.splits)
  also have "\<dots> < 2 ^ 64"
    using arg_cong [OF taken, of length] \<open>length (arrived_ticks (pl_packets s)) < 2 ^ 64\<close> by simp
  finally have "pl_sent s = offered ps (pl_taken s)" using acc assms(2) by (metis nothing_dropped)
  then show ?thesis using taken acc assms(2) by simp
qed

text \<open>Neither ring can overflow before more packets have arrived than a ring holds.\<close>

definition no_drops_yet :: "pipeline \<Rightarrow> bool" where
  "no_drops_yet s \<longleftrightarrow> length (pl_packets s) \<le> RING_CAPACITY \<longrightarrow>
     fh_publish_drops (pl_fh s) = 0 \<and> ie_orders_dropped (pl_en s) = 0"

lemma queues_small:
  assumes inv: "pipeline_inv ps s"
  shows "length (queued_ticks (pl_fh s)) \<le> length (pl_packets s)"
    and "pl_pending s \<noteq> None \<Longrightarrow> length (queued_orders (ie_orders (pl_en s))) < length (pl_packets s)"
proof -
  note acc = pipeline_accounts [OF inv]
  have pub: "length (pl_published s) \<le> length (pl_packets s)"
    using acc list_emb_length [of "(=)" "pl_published s"] length_arrived_ticks [of "pl_packets s"] le_trans by blast
  moreover have split: "length (pl_published s) = length (pl_taken s) + length (queued_ticks (pl_fh s))"
    using acc by (metis length_append length_map)
  ultimately show "length (queued_ticks (pl_fh s)) \<le> length (pl_packets s)" by simp
  assume "pl_pending s \<noteq> None"
  then obtain m tried where run: "offered ps (pl_taken s) = tried @ [m]"
    and tried: "sending_ok tried (pl_sent s) (ie_orders_sent (pl_en s)) (ie_orders_dropped (pl_en s))"
    using inv by (auto simp: pipeline_inv_def offered_def)
  have "length (offered ps (pl_taken s)) \<le> length (pl_taken s)"
    using strategy_run_ids [of ps "pl_taken s" "\<lambda>s. None" 1] by (simp add: offered_def Let_def split: prod.splits)
  moreover have "length (pl_sent s) \<le> length tried" using tried list_emb_length by (auto simp: sending_ok_def)
  moreover have "length (queued_orders (ie_orders (pl_en s))) \<le> length (pl_sent s)"
    using acc by (metis length_append le_add2)
  ultimately show "length (queued_orders (ie_orders (pl_en s))) < length (pl_packets s)"
    using run pub split by simp
qed

lemma no_drops_step:
  assumes "pipeline_step ps s s'" and inv: "pipeline_inv ps s" and no: "no_drops_yet s"
  shows "no_drops_yet s'"
  using assms(1)
proof cases
  case (packet buf res pad now fh)
  have "ends_ok (fh_ticks (pl_fh s))" using inv by (simp add: pipeline_inv_defs)
  then obtain ts bad where fed: "fed (pl_fh s) ts bad fh" "length ts \<le> 1"
    using handle_completion_fed [OF packet(2,3), of "pl_fh s" now] packet(4) by (auto split: if_splits)
  then show ?thesis using no queues_small(1) [OF inv] packet(1)
    by (auto simp: no_drops_yet_def fed_def room_def seen_by_engine_def)
next
  case (log_order ord fh)
  then show ?thesis using no
    by (auto simp: no_drops_yet_def take_order_def seen_by_engine_def split: option.splits prod.splits)
next
  case (take_tick clk ord e)
  then show ?thesis using no
    by (auto simp: no_drops_yet_def engine_take_def seen_by_feedhandler_def Let_def split: option.splits prod.splits)
next
  case (send_order m e)
  have "ends_ok (ie_orders (pl_en s))" "order_wf m" using inv send_order(2) by (simp_all add: pipeline_inv_def)
  then show ?thesis
    by (cases rule: try_publish_order_cases)
      (use no queues_small(2) [OF inv] send_order in
        \<open>auto simp: no_drops_yet_def engine_send_def seen_by_feedhandler_def\<close>)
qed

lemma few_packets_no_drops:
  "(pipeline_step ps)\<^sup>*\<^sup>* s s' \<Longrightarrow> pipeline_inv ps s \<Longrightarrow> no_drops_yet s \<Longrightarrow> no_drops_yet s'"
  by (induction rule: rtranclp_induct) (blast intro: no_drops_step pipeline_runs_inv)+

lemma pipeline_init_no_drops: "no_drops_yet (pipeline_init ticks orders)"
  by (simp add: no_drops_yet_def pipeline_init_def feedhandler_init_def inline_init_def)

section \<open>Coming to rest\<close>

text \<open>The two processes can always work off what is on the way, without any drop, when no more packets arrive.\<close>

definition at_rest_now :: "pipeline \<Rightarrow> bool" where
  "at_rest_now s \<longleftrightarrow>
     pl_pending s = None \<and> queued_ticks (pl_fh s) = [] \<and> queued_orders (ie_orders (pl_en s)) = []"

definition no_new_drops :: "pipeline \<Rightarrow> pipeline \<Rightarrow> bool" where
  "no_new_drops s s' \<longleftrightarrow>
     pl_packets s' = pl_packets s \<and> fh_publish_drops (pl_fh s') = fh_publish_drops (pl_fh s) \<and>
     ie_orders_dropped (pl_en s') = ie_orders_dropped (pl_en s)"

definition works_off :: "strategy_params \<Rightarrow> pipeline \<Rightarrow> pipeline \<Rightarrow> bool" where
  "works_off ps s s' \<longleftrightarrow> (pipeline_step ps)\<^sup>*\<^sup>* s s' \<and> no_new_drops s s'"

lemma works_off_refl: "works_off ps s s"
  by (simp add: works_off_def no_new_drops_def)

lemma works_off_trans: "works_off ps s t \<Longrightarrow> works_off ps t u \<Longrightarrow> works_off ps s u"
  by (auto simp: works_off_def no_new_drops_def)

lemma works_off_step: "pipeline_step ps s t \<Longrightarrow> no_new_drops s t \<Longrightarrow> works_off ps s t"
  by (simp add: works_off_def r_into_rtranclp)

lemma works_off_inv: "works_off ps s t \<Longrightarrow> pipeline_inv ps s \<Longrightarrow> pipeline_inv ps t"
  using pipeline_runs_inv by (auto simp: works_off_def)

lemma log_all:
  "pipeline_inv ps s \<Longrightarrow> \<exists>t. works_off ps s t \<and> queued_orders (ie_orders (pl_en t)) = [] \<and>
    pl_pending t = pl_pending s \<and> queued_ticks (pl_fh t) = queued_ticks (pl_fh s)"
proof (induction "length (queued_orders (ie_orders (pl_en s)))" arbitrary: s)
  case 0
  then show ?case using works_off_refl by (intro exI [of _ s]) simp
next
  case (Suc n)
  have mem: "fh_orders (pl_fh s) = ie_orders (pl_en s)" and ok: "ends_ok (fh_orders (pl_fh s))"
    using Suc.prems by (auto simp: pipeline_inv_defs)
  from ok show ?case
  proof (cases rule: ring_fifo.pop_cases)
    case (taken b r)
    obtain m fh where pop: "take_order (pl_fh s) = (Some m, fh)" and fh: "fh_orders fh = r" "fh_ticks fh = fh_ticks (pl_fh s)"
      "fh_publish_drops fh = fh_publish_drops (pl_fh s)"
      using taken(1) by (simp add: take_order_def)
    let ?t = "s\<lparr>pl_fh := fh, pl_en := seen_by_engine fh (pl_en s),
      pl_logged := pl_logged s @ (case Some m of None \<Rightarrow> [] | Some m \<Rightarrow> [m])\<rparr>"
    have step: "works_off ps s ?t"
      by (rule works_off_step [OF pipeline_step.log_order [OF pop]]) (simp add: no_new_drops_def seen_by_engine_def fh)
    have "n = length (queued_orders (ie_orders (pl_en ?t)))"
      using Suc.hyps(2) taken(3) mem fh by (simp add: seen_by_engine_def queued_orders_def)
    from Suc.hyps(1) [OF this works_off_inv [OF step Suc.prems]] obtain u where u: "works_off ps ?t u"
      "queued_orders (ie_orders (pl_en u)) = []" "pl_pending u = pl_pending s" "queued_ticks (pl_fh u) = queued_ticks fh" by auto
    then show ?thesis using works_off_trans [OF step u(1)] fh by (intro exI [of _ u]) (simp add: queued_ticks_def)
  next
    case empty
    then show ?thesis using Suc.hyps(2) mem by (simp add: queued_orders_def)
  qed
qed

lemma send_and_log:
  assumes inv: "pipeline_inv ps s"
  shows "\<exists>t. works_off ps s t \<and> queued_orders (ie_orders (pl_en t)) = [] \<and> pl_pending t = None \<and>
    queued_ticks (pl_fh t) = queued_ticks (pl_fh s)"
proof -
  obtain t where t: "works_off ps s t" "queued_orders (ie_orders (pl_en t)) = []" "pl_pending t = pl_pending s"
    "queued_ticks (pl_fh t) = queued_ticks (pl_fh s)" using log_all [OF inv] by blast
  note inv_t = works_off_inv [OF t(1) inv]
  show ?thesis
  proof (cases "pl_pending t")
    case None
    then show ?thesis using t by blast
  next
    case (Some m)
    have "ends_ok (ie_orders (pl_en t))" "order_wf m" using inv_t Some by (simp_all add: pipeline_inv_def)
    then obtain r where r: "try_publish_order m (ie_orders (pl_en t)) = (True, r)"
      by (cases rule: try_publish_order_cases) (use t(2) RING_CAPACITY_pos in auto)
    let ?e = "engine_send m (pl_en t)"
    let ?u = "t\<lparr>pl_en := ?e, pl_fh := seen_by_feedhandler ?e (pl_fh t), pl_pending := None,
      pl_sent := pl_sent t @ drop (length (queued_orders (ie_orders (pl_en t)))) (queued_orders (ie_orders ?e))\<rparr>"
    have e: "ie_orders_dropped ?e = ie_orders_dropped (pl_en t)" "ie_ticks ?e = ie_ticks (pl_en t)"
      using r by (simp_all add: engine_send_def)
    have mem: "fh_ticks (pl_fh t) = ie_ticks (pl_en t)" using inv_t by (simp add: pipeline_inv_defs)
    have step: "works_off ps t ?u"
      by (rule works_off_step [OF pipeline_step.send_order [OF Some refl]])
        (simp add: no_new_drops_def seen_by_feedhandler_def e)
    from log_all [OF works_off_inv [OF step inv_t]] obtain u where "works_off ps ?u u"
      "queued_orders (ie_orders (pl_en u)) = []" "pl_pending u = None" "queued_ticks (pl_fh u) = queued_ticks (pl_fh ?u)" by auto
    then show ?thesis using works_off_trans [OF works_off_trans [OF t(1) step]] t(4) e mem
      by (intro exI [of _ u]) (simp add: seen_by_feedhandler_def queued_ticks_def)
  qed
qed

lemma comes_to_rest: "pipeline_inv ps s \<Longrightarrow> \<exists>t. works_off ps s t \<and> at_rest_now t"
proof (induction "length (queued_ticks (pl_fh s))" arbitrary: s)
  case 0
  then show ?case using send_and_log [OF 0(2)] by (auto simp: at_rest_now_def)
next
  case (Suc n)
  obtain t where t: "works_off ps s t" "pl_pending t = None" "queued_ticks (pl_fh t) = queued_ticks (pl_fh s)"
    using send_and_log [OF Suc.prems] by blast
  note inv_t = works_off_inv [OF t(1) Suc.prems]
  have ok: "ends_ok (ie_ticks (pl_en t))" and mem: "fh_ticks (pl_fh t) = ie_ticks (pl_en t)"
    using inv_t by (simp_all add: pipeline_inv_defs)
  obtain ord e where take: "engine_take ps (0, 0) (pl_en t) = (ord, e)" by force
  let ?u = "t\<lparr>pl_en := e, pl_fh := seen_by_feedhandler e (pl_fh t), pl_pending := ord,
      pl_taken := pl_taken t @ map (Pair (snd (0 :: u64, 0 :: u64))) (take 1 (queued_market_ticks (pl_en t)))\<rparr>"
  have len: "length (ends_queue (ie_ticks (pl_en t))) = Suc n"
    using arg_cong [OF t(3), of length] Suc.hyps(2) mem by (simp add: queued_ticks_def)
  from ok have e: "ie_orders_dropped e = ie_orders_dropped (pl_en t) \<and> length (ends_queue (ie_ticks e)) = n"
  proof (cases rule: ring_fifo.pop_cases)
    case (taken b r)
    then show "ie_orders_dropped e = ie_orders_dropped (pl_en t) \<and> length (ends_queue (ie_ticks e)) = n"
      using take len by (auto simp: engine_take_def Let_def split: prod.splits)
  next
    case empty
    then show "ie_orders_dropped e = ie_orders_dropped (pl_en t) \<and> length (ends_queue (ie_ticks e)) = n"
      using len by simp_all
  qed
  have step: "works_off ps t ?u"
    by (rule works_off_step [OF pipeline_step.take_tick [OF t(2) take]])
      (use e in \<open>simp add: no_new_drops_def seen_by_feedhandler_def\<close>)
  have "n = length (queued_ticks (pl_fh ?u))" using e by (simp add: seen_by_feedhandler_def queued_ticks_def)
  from Suc.hyps(1) [OF this works_off_inv [OF step inv_t]] show ?case
    using works_off_trans [OF works_off_trans [OF t(1) step]] by blast
qed

section \<open>Properties\<close>

text \<open>C3. The two processes on one bus, interleaved in any way. The ticks published are among those that arrived,
  in order, the ticks the engine has taken are the first of these, in order, and the others are still in the ring; the
  orders the ring took are among those of the strategy over the ticks taken, in its order, the ones logged
  are the first of these, and the others still in the ring. Each of the six counters is exact: ticks
  published, dropped at a full ring and bad packets, orders sent, dropped at a full ring and logged. So when nothing is on
  the way and both counts of drops are zero, the orders logged are exactly those of the strategy over the ticks that
  arrived.\<close>

theorem pipeline_any_interleaving:
  assumes "ends_ok ticks" "ends_queue ticks = []" and "ends_ok orders" "ends_queue orders = []"
    and "(pipeline_step ps)\<^sup>*\<^sup>* (pipeline_init ticks orders) s"
  shows "subseq (pl_published s) (arrived_ticks (pl_packets s)) \<and>
    pl_published s = map snd (pl_taken s) @ queued_ticks (pl_fh s) \<and>
    subseq (pl_sent s) (offered ps (pl_taken s)) \<and>
    pl_sent s = pl_logged s @ queued_orders (ie_orders (pl_en s)) \<and>
    fh_recv_count (pl_fh s) = of_nat (length (pl_published s)) \<and>
    fh_publish_drops (pl_fh s) = of_nat (length (arrived_ticks (pl_packets s)) - length (pl_published s)) \<and>
    fh_bad_packets (pl_fh s) = of_nat (length (filter (short_packet \<circ> snd) (pl_packets s))) \<and>
    ie_ticks_seen (pl_en s) = of_nat (length (pl_taken s)) \<and>
    ie_orders_sent (pl_en s) = of_nat (length (pl_sent s)) \<and>
    (pl_pending s = None \<longrightarrow>
       ie_orders_dropped (pl_en s) = of_nat (length (offered ps (pl_taken s)) - length (pl_sent s))) \<and>
    fh_order_count (pl_fh s) = of_nat (length (pl_logged s)) \<and>
    (length (pl_packets s) < 2 ^ 64 \<and> pl_pending s = None \<and>
       queued_ticks (pl_fh s) = [] \<and> queued_orders (ie_orders (pl_en s)) = [] \<and>
       fh_publish_drops (pl_fh s) = 0 \<and> ie_orders_dropped (pl_en s) = 0 \<longrightarrow>
     map snd (pl_taken s) = arrived_ticks (pl_packets s) \<and> pl_logged s = offered ps (pl_taken s))"
  using pipeline_accounts [OF pipeline_runs_inv [OF assms(5) pipeline_init_inv [OF assms(1,3,2,4)]]]
    pipeline_no_drops [OF pipeline_runs_inv [OF assms(5) pipeline_init_inv [OF assms(1,3,2,4)]]] by blast

theorem pipeline_any_interleaving_witness:
  "\<exists>s. (pipeline_step demo_params)\<^sup>*\<^sup>* (pipeline_init fresh_ends fresh_ends) s \<and>
     length (pl_taken s) = 1 \<and> map snd (pl_taken s) = pl_published s \<and> fh_recv_count (pl_fh s) = 1"
proof -
  let ?s = "pipeline_init fresh_ends fresh_ends"
  let ?p = "(replicate BUF_SIZE 0, 64) :: u8 list \<times> i32"
  have ok: "packet_ok ?p" "ends_ok (fh_ticks (pl_fh ?s))" "queued_ticks (pl_fh ?s) = []"
    by (simp_all add: packet_ok_def BUF_SIZE_def pipeline_init_def feedhandler_init_def queued_ticks_def fresh_ends_ok)
  obtain fh where fh: "handle_completion [0, 0, 0, 0] 5 (replicate BUF_SIZE 0) 64 (pl_fh ?s) = Inr fh"
    "fed (pl_fh ?s) [(tick_of_bytes (replicate BUF_SIZE 0))\<lparr>mt_recv_ts_ns := 5\<rparr>] 0 fh"
    using handle_completion_fed [OF ok(1) _ ok(2), of "[0, 0, 0, 0]" 5] by (auto simp: layout_simps short_packet_def)
  have q: "length (queued_ticks fh) = 1" using fh(2) ok(3) by (simp add: fed_def room_def RING_CAPACITY_def)
  let ?s1 = "?s\<lparr>pl_fh := fh, pl_en := seen_by_engine fh (pl_en ?s),
      pl_packets := pl_packets ?s @ [(5, replicate BUF_SIZE 0, 64)],
      pl_published := pl_published ?s @ drop (length (queued_ticks (pl_fh ?s))) (queued_ticks fh)\<rparr>"
  have s1: "pipeline_step demo_params ?s ?s1" by (rule packet [OF ok(1) _ fh(1)]) simp
  obtain ord e where e: "engine_take demo_params (6, 7) (pl_en ?s1) = (ord, e)" by force
  let ?s2 = "?s1\<lparr>pl_en := e, pl_fh := seen_by_feedhandler e (pl_fh ?s1), pl_pending := ord,
      pl_taken := pl_taken ?s1 @ map (Pair (snd (6 :: u64, 7 :: u64))) (take 1 (queued_market_ticks (pl_en ?s1)))\<rparr>"
  have "pipeline_step demo_params ?s1 ?s2" by (rule take_tick [OF _ e]) (simp add: pipeline_init_def)
  then have run: "(pipeline_step demo_params)\<^sup>*\<^sup>* ?s ?s2" using s1 by (meson r_into_rtranclp rtranclp_trans)
  have mem: "queued_market_ticks (pl_en ?s1) = queued_ticks fh"
    by (simp add: queued_market_ticks_def queued_ticks_def seen_by_engine_def)
  have len: "length (pl_taken ?s2) = 1" "length (pl_published ?s2) = 1"
    using q mem ok(3) by (simp_all add: pipeline_init_def)
  obtain s2 where s2: "(pipeline_step demo_params)\<^sup>*\<^sup>* ?s s2" "length (pl_taken s2) = 1" "length (pl_published s2) = 1"
    using run len by blast
  note th = pipeline_any_interleaving [OF fresh_ends_ok fresh_ends_ok s2(1)]
  have "queued_ticks (pl_fh s2) = []" using arg_cong [OF th [THEN conjunct2, THEN conjunct1], of length] s2 by simp
  then show ?thesis using s2 th by (intro exI [of _ s2]) auto
qed

end
