(* ===== verification/Engine_Trace.thy ===== *)
theory Engine_Trace
  imports Engine_Workers
begin

text \<open>
  What the engine with workers does, as a history. Each step of \<open>Engine_Workers\<close> is given a label: a tick
  arrives in the ring, is handed to a worker or refused, is processed, an order is queued for the main thread,
  is published or dropped, is taken from the ring, or nothing of this. The histories say what the
  interleavings compute: every queue keeps its order, each worker runs the strategy over the ticks it was given,
  and together, symbol by symbol, the workers make the orders that one thread would.
\<close>

section \<open>Labelled steps\<close>

datatype engine_event =
    Arrived "u8 list"
  | Given nat work_item
  | Refused nat work_item
  | Processed nat "u64 \<times> u64" work_item
  | Queued nat order_msg
  | Published order_msg
  | Unpublished order_msg
  | Collected "u8 list"
  | Quiet

text \<open>The order a worker is sending, and what a step must leave alone to be quiet.\<close>

definition in_hand :: "worker \<Rightarrow> order_msg list" where
  "in_hand wk = (case wk_pc wk of W_Send m \<Rightarrow> [m] | _ \<Rightarrow> [])"

definition work_part :: "worker \<Rightarrow> strategy_state \<times> u64 \<times> order_msg list" where
  "work_part wk = (wk_state wk, wk_next_order_id wk, in_hand wk)"

definition quiet_step :: "('c, 'o) engine \<Rightarrow> ('c, 'o) engine \<Rightarrow> bool" where
  "quiet_step s s' \<longleftrightarrow>
     eg_ticks_in s' = eg_ticks_in s \<and> eg_orders_out s' = eg_orders_out s \<and> eg_chans s' = eg_chans s \<and>
     eg_orders s' = eg_orders s \<and> map work_part (eg_workers s') = map work_part (eg_workers s)"

text \<open>The turn of a drain, in the loop or after it.\<close>

definition drain_turn :: "('c, 'o) engine_ops \<Rightarrow> ('c, 'o) engine \<Rightarrow> ('c, 'o) engine" where
  "drain_turn ops s =
     (if eg_pc s = M_Drain then back_off (publish_next ops M_Top s) else publish_next ops M_Finished s)"

inductive engine_does :: "('c, 'o) engine_ops \<Rightarrow> ('c, 'o) engine \<Rightarrow> engine_event \<Rightarrow> ('c, 'o) engine \<Rightarrow> bool"
  for ops :: "('c, 'o) engine_ops"
where
  does_arrived: "fits_slot m \<Longrightarrow> ring_push m (eg_ticks_in s) = (True, r) \<Longrightarrow>
    engine_does ops s (Arrived m) (s\<lparr>eg_ticks_in := r\<rparr>)"
| does_collected: "ring_pop (eg_orders_out s) = (Some b, r) \<Longrightarrow>
    engine_does ops s (Collected b) (s\<lparr>eg_orders_out := r\<rparr>)"
| does_given: "eg_pc s = M_Take \<Longrightarrow> ring_pop (eg_ticks_in s) = (Some buf, r) \<Longrightarrow>
    it = \<lparr>wi_tick = tick_of_bytes buf, wi_enqueued_ns = snd clk\<rparr> \<Longrightarrow>
    w = route (length (eg_chans s)) (mt_symbol (wi_tick it)) \<Longrightarrow> wk_pc (eg_workers s ! w) \<noteq> W_Done \<Longrightarrow>
    ch_try_send (en_ticks_chan ops) it (eg_chans s ! w) = (True, c) \<Longrightarrow>
    engine_does ops s (Given w it) (dispatch ops clk s)"
| does_refused: "eg_pc s = M_Take \<Longrightarrow> ring_pop (eg_ticks_in s) = (Some buf, r) \<Longrightarrow>
    it = \<lparr>wi_tick = tick_of_bytes buf, wi_enqueued_ns = snd clk\<rparr> \<Longrightarrow>
    w = route (length (eg_chans s)) (mt_symbol (wi_tick it)) \<Longrightarrow>
    wk_pc (eg_workers s ! w) = W_Done \<or> \<not> fst (ch_try_send (en_ticks_chan ops) it (eg_chans s ! w)) \<Longrightarrow>
    engine_does ops s (Refused w it) (dispatch ops clk s)"
| does_processed: "w < length (eg_workers s) \<Longrightarrow> wk_pc (eg_workers s ! w) = W_Recv \<Longrightarrow>
    ch_try_recv (en_ticks_chan ops) (eg_chans s ! w) = (Some it, c) \<Longrightarrow>
    engine_does ops s (Processed w clk it)
      (set_worker w (process_item (en_params ops) clk it (eg_workers s ! w)) (s\<lparr>eg_chans := (eg_chans s)[w := c]\<rparr>))"
| does_queued: "w < length (eg_workers s) \<Longrightarrow> wk_pc (eg_workers s ! w) = W_Send m \<Longrightarrow>
    ch_try_send (en_orders_chan ops) m (eg_orders s) = (True, c) \<Longrightarrow>
    engine_does ops s (Queued w m) (set_worker w ((eg_workers s ! w)\<lparr>wk_pc := W_Top\<rparr>) (s\<lparr>eg_orders := c\<rparr>))"
| does_published: "eg_pc s \<in> {M_Drain, M_Final} \<Longrightarrow> ch_try_recv (en_orders_chan ops) (eg_orders s) = (Some m, c) \<Longrightarrow>
    fst (try_publish_order m (eg_orders_out s)) \<Longrightarrow> engine_does ops s (Published m) (drain_turn ops s)"
| does_unpublished: "eg_pc s \<in> {M_Drain, M_Final} \<Longrightarrow> ch_try_recv (en_orders_chan ops) (eg_orders s) = (Some m, c) \<Longrightarrow>
    \<not> fst (try_publish_order m (eg_orders_out s)) \<Longrightarrow> engine_does ops s (Unpublished m) (drain_turn ops s)"
| does_quiet: "engine_moves ops s s' \<Longrightarrow> quiet_step s s' \<Longrightarrow> engine_does ops s Quiet s'"

inductive_cases engine_doesE: "engine_does ops s ev s'"

text \<open>A run with its events, the latest at the end.\<close>

inductive engine_run :: "('c, 'o) engine_ops \<Rightarrow> ('c, 'o) engine \<Rightarrow> engine_event list \<Rightarrow> ('c, 'o) engine \<Rightarrow> bool"
  for ops :: "('c, 'o) engine_ops" and s :: "('c, 'o) engine"
where
  run_start: "engine_run ops s [] s"
| run_event: "engine_run ops s evs t \<Longrightarrow> engine_does ops t ev s' \<Longrightarrow> engine_run ops s (evs @ [ev]) s'"

text \<open>The labels add nothing: every labelled step is a step,\<close>

lemma engine_does_moves: "engine_does ops s ev s' \<Longrightarrow> engine_moves ops s s'"
proof (induction rule: engine_does.induct)
  case (does_arrived m s r)
  then show ?case using outside_step.tick_in [of m s] by (simp add: engine_moves_def)
next
  case (does_collected s b r)
  then show ?case using outside_step.order_out [of s] by (simp add: engine_moves_def)
next
  case (does_published s m c)
  then show ?case using main_drain [of s ops] main_final [of s ops] by (auto simp: engine_moves_def drain_turn_def)
next
  case (does_unpublished s m c)
  then show ?case using main_drain [of s ops] main_final [of s ops] by (auto simp: engine_moves_def drain_turn_def)
qed (auto simp: engine_moves_def intro: main_take worker_recv worker_send)

lemma engine_run_moves: "engine_run ops s evs s' \<Longrightarrow> (engine_moves ops)\<^sup>*\<^sup>* s s'"
  by (induction rule: engine_run.induct) (auto intro: rtranclp.rtrancl_into_rtrancl engine_does_moves)

text \<open>and every step has a label.\<close>

lemma quiet_worker:
  "w < length (eg_workers s) \<Longrightarrow> work_part wk = work_part (eg_workers s ! w) \<Longrightarrow> quiet_step s (set_worker w wk s)"
  by (simp add: quiet_step_def set_worker_def map_update list_update_same_conv)

lemma quiet_pc: "quiet_step s (s\<lparr>eg_pc := p\<rparr>)" "quiet_step s (s\<lparr>eg_stop := b\<rparr>)"
  by (simp_all add: quiet_step_def)

lemma work_part_pc:
  "\<forall>m. wk_pc wk \<noteq> W_Send m \<Longrightarrow> \<forall>m. p \<noteq> W_Send m \<Longrightarrow> work_part (wk\<lparr>wk_pc := p\<rparr>) = work_part wk"
  by (simp add: work_part_def in_hand_def split: worker_pc.splits)

lemma work_part_place:
  assumes "wk_pc wk \<in> {W_Pin, W_Group}"
  shows "work_part (place_worker ops w wk) = work_part wk"
  using place_worker_pc(1) [OF assms, of ops w] assms
  by (auto simp: work_part_def in_hand_def place_worker_props)

text \<open>The events of the engine itself; the other two are the feedhandler's.\<close>

definition internal :: "engine_event \<Rightarrow> bool" where
  "internal ev \<longleftrightarrow> (case ev of Arrived m \<Rightarrow> False | Collected b \<Rightarrow> False | _ \<Rightarrow> True)"

lemma drain_event:
  assumes "channels_ok ops v" "engine_inv n v s" "eg_pc s \<in> {M_Drain, M_Final}"
  shows "\<exists>ev. engine_does ops s ev (drain_turn ops s) \<and> internal ev"
proof -
  have ok: "cv_orders_ok v (eg_orders s)" using assms(2) by (simp add: engine_inv_defs)
  from assms(1) [unfolded channels_ok_def, THEN conjunct2] ok show ?thesis
  proof (cases rule: chan_recv_cases)
    case (taken m c)
    then show ?thesis
      using does_published [OF assms(3) taken(1)] does_unpublished [OF assms(3) taken(1)] by (fastforce simp: internal_def)
  next
    case empty
    have "engine_moves ops s (drain_turn ops s)"
      using assms(3) main_drain [of s ops] main_final [of s ops] by (auto simp: engine_moves_def drain_turn_def)
    moreover have "quiet_step s (drain_turn ops s)"
      using empty by (auto simp: quiet_step_def drain_turn_def publish_next_def back_off_def)
    ultimately show ?thesis by (intro exI [of _ Quiet]) (simp add: does_quiet internal_def)
  qed
qed

lemma take_event:
  assumes "engine_inv n v s" "eg_pc s = M_Take"
  shows "\<exists>ev. engine_does ops s ev (dispatch ops clk s) \<and> internal ev"
proof -
  have "ends_ok (eg_ticks_in s)" using assms(1) by (simp add: engine_inv_defs)
  then show ?thesis
  proof (cases rule: ring_fifo.pop_cases)
    case (taken buf r)
    let ?it = "\<lparr>wi_tick = tick_of_bytes buf, wi_enqueued_ns = snd clk\<rparr>"
    let ?w = "route (length (eg_chans s)) (mt_symbol (wi_tick ?it))"
    obtain ok c where send: "ch_try_send (en_ticks_chan ops) ?it (eg_chans s ! ?w) = (ok, c)" by force
    show ?thesis
      using does_given [where ops = ops and clk = clk and c = c, OF assms(2) taken(1) refl refl]
        does_refused [where ops = ops and clk = clk, OF assms(2) taken(1) refl refl] send
      by (cases "wk_pc (eg_workers s ! ?w) = W_Done \<or> \<not> ok") (fastforce simp: internal_def)+
  next
    case empty
    have "quiet_step s (dispatch ops clk s)" using empty by (simp add: quiet_step_def dispatch_def)
    then show ?thesis using main_take [OF assms(2)]
      by (intro exI [of _ Quiet]) (simp add: does_quiet engine_moves_def internal_def)
  qed
qed

lemma engine_step_does:
  assumes ops: "channels_ok ops v" and inv: "engine_inv n v s" and step: "engine_step ops s s'"
  shows "\<exists>ev. engine_does ops s ev s' \<and> internal ev"
proof -
  have quiet: "\<exists>ev. engine_does ops s ev s' \<and> internal ev" if "quiet_step s s'"
    using that step by (intro exI [of _ Quiet]) (simp add: does_quiet engine_moves_def internal_def)
  have quiet_w: "\<exists>ev. engine_does ops s ev s' \<and> internal ev"
    if "w < length (eg_workers s)" "work_part wk = work_part (eg_workers s ! w)" "s' = set_worker w wk s" for w wk
    using quiet quiet_worker [OF that(1,2)] that(3) by simp
  from step show ?thesis
  proof (cases rule: engine_step.cases)
    case (main_take clk)
    then show ?thesis using take_event [OF inv] by simp
  next
    case main_drain
    then show ?thesis using drain_event [OF ops inv] by (simp add: drain_turn_def)
  next
    case main_final
    then show ?thesis using drain_event [OF ops inv] by (simp add: drain_turn_def)
  next
    case (worker_recv w wk it c clk)
    then show ?thesis using does_processed [of w s ops it c clk] by (intro exI [of _ "Processed w clk it"]) (simp add: internal_def)
  next
    case (worker_send w wk m c)
    then show ?thesis using does_queued [of w s m ops c] by (intro exI [of _ "Queued w m"]) (simp add: internal_def)
  next
    case (worker_place w wk)
    then show ?thesis using quiet_w [of w "place_worker ops w wk"] work_part_place by blast
  qed (use quiet quiet_pc quiet_w work_part_pc in auto)
qed

lemma engine_moves_does:
  assumes ops: "channels_ok ops v" and inv: "engine_inv n v s" and moves: "engine_moves ops s s'"
  shows "\<exists>ev. engine_does ops s ev s'"
proof -
  have quiet: "\<exists>ev. engine_does ops s ev s'" if "quiet_step s s'" using moves that by (blast intro: does_quiet)
  from moves consider "engine_step ops s s'" | "outside_step s s'" by (auto simp: engine_moves_def)
  then show ?thesis
  proof cases
    case 1
    then show ?thesis using engine_step_does [OF ops inv] by blast
  next
    case 2
    then show ?thesis
    proof cases
      case signal
      then show ?thesis using quiet [unfolded signal] quiet_pc by blast
    next
      case (tick_in m)
      have "ends_ok (eg_ticks_in s)" using inv by (simp add: engine_inv_defs)
      then show ?thesis
        by (cases rule: ring_fifo.push_cases [OF _ tick_in(2)])
          (use tick_in quiet does_arrived [of m s _ ops] in \<open>auto simp: quiet_step_def\<close>)
    next
      case order_out
      have "ends_ok (eg_orders_out s)" using inv by (simp add: engine_inv_defs)
      then show ?thesis
        by (cases rule: ring_fifo.pop_cases)
          (use order_out quiet does_collected [of s _ _ ops] in \<open>auto simp: quiet_step_def\<close>)
    qed
  qed
qed

lemma engine_run_append: "engine_run ops t evs' u \<Longrightarrow> engine_run ops s evs t \<Longrightarrow> engine_run ops s (evs @ evs') u"
  by (induction rule: engine_run.induct) (simp, metis append_assoc run_event)

lemma engine_moves_run:
  assumes "(engine_moves ops)\<^sup>*\<^sup>* s s'" "channels_ok ops v" "engine_inv n v s"
  shows "\<exists>evs. engine_run ops s evs s'"
  using assms
proof (induction rule: rtranclp_induct)
  case base
  then show ?case using run_start by blast
next
  case (step t u)
  then obtain evs where "engine_run ops s evs t" by blast
  moreover have "engine_inv n v t" by (rule engine_runs_inv [OF step(1) step.prems])
  then obtain ev where "engine_does ops t ev u" using engine_moves_does [OF step.prems(1) _ step(2)] by blast
  ultimately show ?case using run_event by blast
qed

section \<open>Histories\<close>

text \<open>What the events say of one worker,\<close>

definition given_to :: "nat \<Rightarrow> engine_event list \<Rightarrow> work_item list" where
  "given_to w evs = concat (map (\<lambda>ev. case ev of Given u it \<Rightarrow> if u = w then [it] else [] | _ \<Rightarrow> []) evs)"

definition processed_by :: "nat \<Rightarrow> engine_event list \<Rightarrow> ((u64 \<times> u64) \<times> work_item) list" where
  "processed_by w evs = concat (map (\<lambda>ev. case ev of Processed u clk it \<Rightarrow> if u = w then [(clk, it)] else [] | _ \<Rightarrow> []) evs)"

definition queued_by :: "nat \<Rightarrow> engine_event list \<Rightarrow> order_msg list" where
  "queued_by w evs = concat (map (\<lambda>ev. case ev of Queued u m \<Rightarrow> if u = w then [m] else [] | _ \<Rightarrow> []) evs)"

text \<open>and of the engine, in the order in which it happened.\<close>

definition arrived :: "engine_event list \<Rightarrow> u8 list list" where
  "arrived evs = concat (map (\<lambda>ev. case ev of Arrived m \<Rightarrow> [m] | _ \<Rightarrow> []) evs)"

definition taken :: "engine_event list \<Rightarrow> work_item list" where
  "taken evs = concat (map (\<lambda>ev. case ev of Given w it \<Rightarrow> [it] | Refused w it \<Rightarrow> [it] | _ \<Rightarrow> []) evs)"

definition all_given :: "engine_event list \<Rightarrow> work_item list" where
  "all_given evs = concat (map (\<lambda>ev. case ev of Given w it \<Rightarrow> [it] | _ \<Rightarrow> []) evs)"

definition all_processed :: "engine_event list \<Rightarrow> ((u64 \<times> u64) \<times> work_item) list" where
  "all_processed evs = concat (map (\<lambda>ev. case ev of Processed w clk it \<Rightarrow> [(clk, it)] | _ \<Rightarrow> []) evs)"

definition all_queued :: "engine_event list \<Rightarrow> order_msg list" where
  "all_queued evs = concat (map (\<lambda>ev. case ev of Queued w m \<Rightarrow> [m] | _ \<Rightarrow> []) evs)"

definition received :: "engine_event list \<Rightarrow> order_msg list" where
  "received evs = concat (map (\<lambda>ev. case ev of Published m \<Rightarrow> [m] | Unpublished m \<Rightarrow> [m] | _ \<Rightarrow> []) evs)"

definition published :: "engine_event list \<Rightarrow> order_msg list" where
  "published evs = concat (map (\<lambda>ev. case ev of Published m \<Rightarrow> [m] | _ \<Rightarrow> []) evs)"

definition collected :: "engine_event list \<Rightarrow> u8 list list" where
  "collected evs = concat (map (\<lambda>ev. case ev of Collected b \<Rightarrow> [b] | _ \<Rightarrow> []) evs)"

lemmas histories = given_to_def processed_by_def queued_by_def arrived_def taken_def all_given_def
  all_processed_def all_queued_def received_def published_def collected_def

text \<open>A tick processed, as the strategy sees it: with the second reading of the clock.\<close>

definition as_event :: "(u64 \<times> u64) \<times> work_item \<Rightarrow> u64 \<times> market_tick" where
  "as_event x = (snd (fst x), wi_tick (snd x))"

section \<open>What the histories say\<close>

text \<open>One worker: the items it was given, the ones it has processed, and the strategy over these.\<close>

definition worker_trace :: "strategy_params \<Rightarrow> nat \<Rightarrow> engine_event list \<Rightarrow> work_item list \<Rightarrow> worker \<Rightarrow> bool" where
  "worker_trace ps w evs items wk \<longleftrightarrow>
     given_to w evs = map snd (processed_by w evs) @ items \<and>
     strategy_run ps (map as_event (processed_by w evs)) (\<lambda>s. None) (worker_first_id w) =
       (queued_by w evs @ in_hand wk, wk_state wk, wk_next_order_id wk)"

definition queues_trace ::
  "('c, 'o) chan_view \<Rightarrow> ring_ends \<Rightarrow> ring_ends \<Rightarrow> engine_event list \<Rightarrow> ('c, 'o) engine \<Rightarrow> bool" where
  "queues_trace v ticks orders evs s \<longleftrightarrow>
     map tick_of_bytes (ends_queue ticks @ map pad_payload (arrived evs)) =
       map wi_tick (taken evs) @ map tick_of_bytes (ends_queue (eg_ticks_in s)) \<and>
     all_queued evs = received evs @ cv_orders v (eg_orders s) \<and>
     queued_orders orders @ published evs =
       map order_of_bytes (collected evs) @ queued_orders (eg_orders_out s)"

definition routed :: "nat \<Rightarrow> engine_event list \<Rightarrow> bool" where
  "routed n evs \<longleftrightarrow> (\<forall>ev \<in> set evs. case ev of
       Given w it \<Rightarrow> w = route n (mt_symbol (wi_tick it))
     | Processed w clk it \<Rightarrow> w = route n (mt_symbol (wi_tick it))
     | Queued w m \<Rightarrow> w = route n (om_symbol m)
     | _ \<Rightarrow> True)"

definition traced ::
  "strategy_params \<Rightarrow> nat \<Rightarrow> ('c, 'o) chan_view \<Rightarrow> ring_ends \<Rightarrow> ring_ends \<Rightarrow> engine_event list \<Rightarrow> ('c, 'o) engine \<Rightarrow> bool" where
  "traced ps n v ticks orders evs s \<longleftrightarrow>
     queues_trace v ticks orders evs s \<and> routed n evs \<and>
     (\<forall>w < n. worker_trace ps w evs (waiting v s w) (eg_workers s ! w))"

lemmas traced_defs = traced_def queues_trace_def routed_def worker_trace_def

text \<open>A quiet event, or one of another worker, leaves a worker's trace alone.\<close>

lemma worker_trace_cong:
  assumes "worker_trace ps w evs items wk" "work_part wk' = work_part wk"
  shows "worker_trace ps w evs items wk'"
  using assms by (simp add: worker_trace_def work_part_def)

lemma strategy_run_snoc:
  assumes "strategy_run ps es st i = (os, st1, i1)" "strategy_step ps now t st1 i1 = ((ord, dev), st2, i2)"
  shows "strategy_run ps (es @ [(now, t)]) st i = (os @ (case ord of None \<Rightarrow> [] | Some m \<Rightarrow> [m]), st2, i2)"
  using assms by (simp add: strategy_run_append split: option.split)

lemma process_item_trace:
  assumes "worker_trace ps w evs (it # items) wk" "in_hand wk = []"
  shows "worker_trace ps w (evs @ [Processed w clk it]) items (process_item ps clk it wk)"
proof -
  obtain ord dev st i where step:
    "strategy_step ps (snd clk) (wi_tick it) (wk_state wk) (wk_next_order_id wk) = ((ord, dev), st, i)"
    by (metis prod.collapse)
  have run: "strategy_run ps (map as_event (processed_by w evs)) (\<lambda>s. None) (worker_first_id w) =
      (queued_by w evs, wk_state wk, wk_next_order_id wk)"
    using assms by (simp add: worker_trace_def)
  have "strategy_run ps (map as_event (processed_by w (evs @ [Processed w clk it]))) (\<lambda>s. None) (worker_first_id w) =
      (queued_by w (evs @ [Processed w clk it]) @ in_hand (process_item ps clk it wk),
       wk_state (process_item ps clk it wk), wk_next_order_id (process_item ps clk it wk))"
    using strategy_run_snoc [OF run step] step
    by (cases ord) (simp_all add: histories as_event_def process_item_def in_hand_def Let_def)
  then show ?thesis using assms(1) by (simp add: worker_trace_def histories)
qed

text \<open>The fields a turn of the main thread changes.\<close>

lemma drain_turn_some:
  assumes "ch_try_recv (en_orders_chan ops) (eg_orders s) = (Some m, c)" "try_publish_order m (eg_orders_out s) = (ok, r)"
  shows "eg_chans (drain_turn ops s) = eg_chans s" "eg_workers (drain_turn ops s) = eg_workers s"
    "eg_ticks_in (drain_turn ops s) = eg_ticks_in s" "eg_orders (drain_turn ops s) = c"
    "eg_orders_out (drain_turn ops s) = r"
  using assms by (simp_all add: drain_turn_def publish_next_def back_off_def Let_def)

lemma dispatch_some:
  assumes "ring_pop (eg_ticks_in s) = (Some buf, r)"
    and "it = \<lparr>wi_tick = tick_of_bytes buf, wi_enqueued_ns = snd clk\<rparr>"
    and "w = route (length (eg_chans s)) (mt_symbol (wi_tick it))"
  shows "eg_ticks_in (dispatch ops clk s) = r" "eg_workers (dispatch ops clk s) = eg_workers s"
    "eg_orders (dispatch ops clk s) = eg_orders s" "eg_orders_out (dispatch ops clk s) = eg_orders_out s"
    and "eg_chans (dispatch ops clk s) =
      (if wk_pc (eg_workers s ! w) = W_Done then eg_chans s
       else (eg_chans s)[w := snd (ch_try_send (en_ticks_chan ops) it (eg_chans s ! w))])"
  using assms by (simp_all add: dispatch_def Let_def split: prod.splits)

text \<open>A step that leaves the workers and their channels alone, with an event that is none of theirs.\<close>

lemma traced_workers_same:
  assumes "\<forall>w < n. worker_trace ps w evs (waiting v s w) (eg_workers s ! w)"
    and "eg_workers s' = eg_workers s" "\<And>w. w < n \<Longrightarrow> waiting v s' w = waiting v s w"
    and "case ev of Given w it \<Rightarrow> False | Processed w clk it \<Rightarrow> False | Queued w m \<Rightarrow> False | _ \<Rightarrow> True"
  shows "\<forall>w < n. worker_trace ps w (evs @ [ev]) (waiting v s' w) (eg_workers s' ! w)"
  using assms by (cases ev) (auto simp: worker_trace_def histories)

lemma traced_quiet:
  assumes "traced ps n v ticks orders evs s" "quiet_step s s'" "length (eg_workers s) = n"
  shows "traced ps n v ticks orders (evs @ [Quiet]) s'"
proof -
  have len: "length (eg_workers s') = n" using assms(2,3) by (metis quiet_step_def length_map)
  have "work_part (eg_workers s' ! w) = work_part (eg_workers s ! w)" if "w < n" for w
    using assms(2,3) len that by (metis quiet_step_def nth_map)
  then have "\<forall>w < n. worker_trace ps w evs (waiting v s' w) (eg_workers s' ! w)"
    using assms(1,2) worker_trace_cong by (fastforce simp: traced_def quiet_step_def waiting_def)
  then show ?thesis using assms(1,2) by (simp add: traced_defs quiet_step_def histories)
qed

lemma traced_processed:
  assumes tr: "traced (en_params ops) n v ticks orders evs s" and ops: "channels_ok ops v" and inv: "engine_inv n v s"
    and w: "w < length (eg_workers s)" "wk_pc (eg_workers s ! w) = W_Recv"
    and recv: "ch_try_recv (en_ticks_chan ops) (eg_chans s ! w) = (Some it, c)"
  shows "traced (en_params ops) n v ticks orders (evs @ [Processed w clk it])
    (set_worker w (process_item (en_params ops) clk it (eg_workers s ! w)) (s\<lparr>eg_chans := (eg_chans s)[w := c]\<rparr>))"
    (is "traced _ _ _ _ _ _ ?s")
proof -
  have len: "length (eg_workers s) = n" "length (eg_chans s) = n" using inv by (simp_all add: engine_inv_defs)
  have "cv_ticks_ok v (eg_chans s ! w)" using inv w(1) len by (simp add: engine_inv_defs)
  with ops [unfolded channels_ok_def, THEN conjunct1]
  have c: "cv_ticks v (eg_chans s ! w) = it # cv_ticks v c"
    by (cases rule: chan_recv_cases) (simp_all add: recv)
  have rt: "w = route n (mt_symbol (wi_tick it))" using inv w(1) len c by (simp add: engine_inv_defs waiting_def)
  have wk: "worker_trace (en_params ops) u (evs @ [Processed w clk it]) (waiting v ?s u) (eg_workers ?s ! u)" if "u < n" for u
  proof (cases "u = w")
    case True
    have "worker_trace (en_params ops) w evs (waiting v s w) (eg_workers s ! w)" using tr that True by (simp add: traced_def)
    then have "worker_trace (en_params ops) w (evs @ [Processed w clk it]) (cv_ticks v c)
        (process_item (en_params ops) clk it (eg_workers s ! w))"
      using w(2) c by (intro process_item_trace) (simp_all add: waiting_def in_hand_def)
    then show ?thesis using True w(1) len by (simp add: waiting_def set_worker_def)
  next
    case False
    then show ?thesis using tr that by (simp add: traced_defs waiting_def set_worker_def histories)
  qed
  have "queues_trace v ticks orders (evs @ [Processed w clk it]) ?s" "routed n (evs @ [Processed w clk it])"
    using tr rt by (simp_all add: traced_def queues_trace_def routed_def set_worker_def histories)
  with wk show ?thesis by (simp add: traced_def)
qed

lemma traced_queued:
  assumes tr: "traced ps n v ticks orders evs s" and ops: "channels_ok ops v" and inv: "engine_inv n v s"
    and w: "w < length (eg_workers s)" "wk_pc (eg_workers s ! w) = W_Send m"
    and snd_eq: "ch_try_send (en_orders_chan ops) m (eg_orders s) = (True, c)"
  shows "traced ps n v ticks orders (evs @ [Queued w m])
    (set_worker w ((eg_workers s ! w)\<lparr>wk_pc := W_Top\<rparr>) (s\<lparr>eg_orders := c\<rparr>))" (is "traced _ _ _ _ _ _ ?s")
proof -
  have len: "length (eg_workers s) = n" using inv by (simp add: engine_inv_defs)
  have "cv_orders_ok v (eg_orders s)" using inv by (simp add: engine_inv_defs)
  with ops [unfolded channels_ok_def, THEN conjunct2]
  have c: "cv_orders v c = cv_orders v (eg_orders s) @ [m]"
    by (cases rule: chan_send_cases [where m = m]) (simp_all add: snd_eq)
  have rt: "w = route n (om_symbol m)" using inv w len by (simp add: engine_inv_defs inv_worker_def)
  have wk: "worker_trace ps u (evs @ [Queued w m]) (waiting v ?s u) (eg_workers ?s ! u)" if "u < n" for u
  proof (cases "u = w")
    case True
    then show ?thesis using tr that w by (simp add: traced_defs waiting_def set_worker_def histories in_hand_def)
  next
    case False
    then show ?thesis using tr that by (simp add: traced_defs waiting_def set_worker_def histories)
  qed
  have "queues_trace v ticks orders (evs @ [Queued w m]) ?s" "routed n (evs @ [Queued w m])"
    using tr rt c by (simp_all add: traced_def queues_trace_def routed_def set_worker_def histories)
  with wk show ?thesis by (simp add: traced_def)
qed

lemma traced_taken:
  assumes tr: "traced ps n v ticks orders evs s" and ops: "channels_ok ops v" and inv: "engine_inv n v s"
    and pop: "ring_pop (eg_ticks_in s) = (Some buf, r)"
    and it: "it = \<lparr>wi_tick = tick_of_bytes buf, wi_enqueued_ns = snd clk\<rparr>"
    and w: "w = route (length (eg_chans s)) (mt_symbol (wi_tick it))"
    and ev: "ev = (if wk_pc (eg_workers s ! w) = W_Done \<or> \<not> fst (ch_try_send (en_ticks_chan ops) it (eg_chans s ! w))
                   then Refused w it else Given w it)"
  shows "traced ps n v ticks orders (evs @ [ev]) (dispatch ops clk s)"
proof -
  let ?s = "dispatch ops clk s"
  have sh: "0 < n" "length (eg_chans s) = n" "\<forall>c \<in> set (eg_chans s). cv_ticks_ok v c" "ends_ok (eg_ticks_in s)"
    using inv by (auto simp: engine_inv_defs)
  note eff = dispatch_some [OF pop it w, of ops]
  have q: "ends_queue (eg_ticks_in s) = buf # ends_queue r"
    by (rule ring_fifo.pop_cases [OF sh(4)]) (simp_all add: pop)
  have wn: "w < n" using w sh by simp
  then have ok: "cv_ticks_ok v (eg_chans s ! w)" using sh by simp
  have tick: "tick_of_bytes buf = wi_tick it" by (simp add: it)
  have "queues_trace v ticks orders (evs @ [ev]) ?s" "routed n (evs @ [ev])"
    using tr eff q w sh(2) unfolding ev traced_def queues_trace_def routed_def by (simp_all add: histories tick)
  moreover have "\<forall>u < n. worker_trace ps u (evs @ [ev]) (waiting v ?s u) (eg_workers ?s ! u)"
  proof (cases "wk_pc (eg_workers s ! w) = W_Done")
    case True
    then have "ev = Refused w it" "eg_chans ?s = eg_chans s" using ev eff by simp_all
    then show ?thesis using tr eff(2) by (intro traced_workers_same [of n ps evs v s]) (simp_all add: traced_def waiting_def)
  next
    case False
    from ops [unfolded channels_ok_def, THEN conjunct1] ok show ?thesis
    proof (cases rule: chan_send_cases [where m = it])
      case (sent c)
      have "ev = Given w it" "eg_chans ?s = (eg_chans s)[w := c]" using ev eff False sent by simp_all
      then show ?thesis using tr eff(2) sent(3) sh(2) wn
        by (auto simp: traced_defs waiting_def histories nth_list_update)
    next
      case full
      then have "ev = Refused w it" "eg_chans ?s = eg_chans s" using ev eff False by simp_all
      then show ?thesis using tr eff(2) by (intro traced_workers_same [of n ps evs v s]) (simp_all add: traced_def waiting_def)
    qed
  qed
  ultimately show ?thesis by (simp add: traced_def)
qed

lemma traced_received:
  assumes tr: "traced ps n v ticks orders evs s" and ops: "channels_ok ops v" and inv: "engine_inv n v s"
    and recv: "ch_try_recv (en_orders_chan ops) (eg_orders s) = (Some m, c)"
    and ev: "ev = (if fst (try_publish_order m (eg_orders_out s)) then Published m else Unpublished m)"
  shows "traced ps n v ticks orders (evs @ [ev]) (drain_turn ops s)"
proof -
  let ?s = "drain_turn ops s"
  have ok: "cv_orders_ok v (eg_orders s)" "ends_ok (eg_orders_out s)" using inv by (auto simp: engine_inv_defs)
  from ops [unfolded channels_ok_def, THEN conjunct2] ok(1)
  have c: "cv_orders v (eg_orders s) = m # cv_orders v c" by (cases rule: chan_recv_cases) (simp_all add: recv)
  have wf: "order_wf m" using inv c by (simp add: engine_inv_defs)
  obtain b r where pub: "try_publish_order m (eg_orders_out s) = (b, r)" by (metis prod.exhaust)
  note eff = drain_turn_some [OF recv pub]
  have "queued_orders r = queued_orders (eg_orders_out s) @ (if b then [m] else [])"
    by (rule try_publish_order_cases [OF ok(2) wf]) (simp_all add: pub)
  then have "queues_trace v ticks orders (evs @ [ev]) ?s" "routed n (evs @ [ev])"
    using tr eff c pub unfolding ev traced_def queues_trace_def routed_def by (simp_all add: histories)
  moreover have "\<forall>u < n. worker_trace ps u (evs @ [ev]) (waiting v ?s u) (eg_workers ?s ! u)"
    using tr eff by (intro traced_workers_same [of n ps evs v s]) (simp_all add: traced_def waiting_def ev)
  ultimately show ?thesis by (simp add: traced_def)
qed

lemma traced_step:
  assumes tr: "traced (en_params ops) n v ticks orders evs s" and ops: "channels_ok ops v" and inv: "engine_inv n v s"
    and ev: "engine_does ops s ev s'"
  shows "traced (en_params ops) n v ticks orders (evs @ [ev]) s'"
  using ev
proof (cases rule: engine_does.cases)
  case (does_arrived m r)
  have "ends_ok (eg_ticks_in s)" using inv by (simp add: engine_inv_defs)
  then have "ends_queue r = ends_queue (eg_ticks_in s) @ [pad_payload m]"
    by (cases rule: ring_fifo.push_cases [OF _ does_arrived(3)]) (use does_arrived(4) in auto)
  then show ?thesis using tr unfolding does_arrived(1,2)
    by (simp add: traced_defs waiting_def histories)
next
  case (does_collected b r)
  have "ends_ok (eg_orders_out s)" using inv by (simp add: engine_inv_defs)
  then have "ends_queue (eg_orders_out s) = b # ends_queue r"
    by (cases rule: ring_fifo.pop_cases) (use does_collected(3) in auto)
  then show ?thesis using tr unfolding does_collected(1,2)
    by (simp add: traced_defs waiting_def histories queued_orders_def)
next
  case (does_given buf r it clk w c)
  then show ?thesis using traced_taken [OF tr ops inv does_given(4,5,6)] by simp
next
  case (does_refused buf r it clk w)
  then show ?thesis using traced_taken [OF tr ops inv does_refused(4,5,6)] by simp
next
  case (does_processed w it c clk)
  then show ?thesis using traced_processed [OF tr ops inv] by simp
next
  case (does_queued w m c)
  then show ?thesis using traced_queued [OF tr ops inv] by simp
next
  case (does_published m c)
  then show ?thesis using traced_received [OF tr ops inv does_published(4)] by simp
next
  case (does_unpublished m c)
  then show ?thesis using traced_received [OF tr ops inv does_unpublished(4)] by simp
next
  case does_quiet
  then show ?thesis using traced_quiet [OF tr] inv by (simp add: engine_inv_defs)
qed

lemma traced_run:
  assumes "engine_run ops (engine_init n c0 o0 ticks orders) evs s" "channels_ok ops v" "starts n v c0 o0 ticks orders"
  shows "engine_inv n v s \<and> traced (en_params ops) n v ticks orders evs s"
  using assms
proof (induction rule: engine_run.induct)
  case run_start
  have "in_hand (worker_init w) = []" for w by (simp add: in_hand_def worker_init_def)
  then show ?case using engine_init_inv [OF run_start(2)] run_start(2)
    by (simp add: traced_defs histories engine_init_def starts_def waiting_def worker_init_def)
next
  case (run_event evs t ev s')
  then show ?case using traced_step engine_moves_inv engine_does_moves by blast
qed

section \<open>The counters of the main thread\<close>

definition counted :: "engine_event list \<Rightarrow> ('c, 'o) engine \<Rightarrow> bool" where
  "counted evs s \<longleftrightarrow>
     eg_ticks_seen s = of_nat (length (taken evs)) \<and> eg_orders_sent s = of_nat (length (published evs)) \<and>
     eg_orders_sent s + eg_orders_dropped s = of_nat (length (received evs))"

definition same_counters :: "('c, 'o) engine \<Rightarrow> ('c, 'o) engine \<Rightarrow> bool" where
  "same_counters s s' \<longleftrightarrow>
     eg_ticks_seen s' = eg_ticks_seen s \<and> eg_orders_sent s' = eg_orders_sent s \<and> eg_orders_dropped s' = eg_orders_dropped s"

text \<open>A turn that takes nothing counts nothing.\<close>

lemma quiet_dispatch:
  assumes "ends_ok (eg_ticks_in s)" "eg_ticks_in (dispatch ops clk s) = eg_ticks_in s"
  shows "same_counters s (dispatch ops clk s)"
  using assms(1)
proof (cases rule: ring_fifo.pop_cases)
  case (taken buf r)
  then have "eg_ticks_in (dispatch ops clk s) = r" using dispatch_some(1) by blast
  then show ?thesis using assms(2) taken by simp
next
  case empty
  then show ?thesis by (simp add: dispatch_def same_counters_def)
qed

lemma quiet_drain:
  assumes "channels_ok ops v" "cv_orders_ok v (eg_orders s)" "eg_orders (publish_next ops p s) = eg_orders s"
  shows "same_counters s (publish_next ops p s)"
  using assms(1) [unfolded channels_ok_def, THEN conjunct2] assms(2)
proof (cases rule: chan_recv_cases)
  case (taken m c)
  then have "eg_orders (publish_next ops p s) = c" by (simp add: publish_next_def Let_def split: prod.split)
  then show ?thesis using assms(3) taken by simp
next
  case empty
  then show ?thesis by (simp add: publish_next_def same_counters_def)
qed

lemma back_off_simps [simp]:
  "eg_orders (back_off s) = eg_orders s" "same_counters t (back_off s) = same_counters t s"
  by (simp_all add: back_off_def same_counters_def)

lemma quiet_counters:
  assumes "channels_ok ops v" "engine_inv n v s" "engine_moves ops s s'" "quiet_step s s'"
  shows "same_counters s s'"
proof -
  have ok: "ends_ok (eg_ticks_in s)" "cv_orders_ok v (eg_orders s)" using assms(2) by (simp_all add: engine_inv_defs)
  have q: "eg_ticks_in s' = eg_ticks_in s" "eg_orders s' = eg_orders s" using assms(4) by (simp_all add: quiet_step_def)
  from assms(3) consider "engine_step ops s s'" | "outside_step s s'" by (auto simp: engine_moves_def)
  then show ?thesis
  proof cases
    case 1
    then show ?thesis
    proof (cases rule: engine_step.cases)
      case (main_take clk)
      then show ?thesis using quiet_dispatch [OF ok(1)] q by simp
    next
      case main_drain
      then show ?thesis using quiet_drain [OF assms(1) ok(2), of M_Top] q by simp
    next
      case main_final
      then show ?thesis using quiet_drain [OF assms(1) ok(2), of M_Finished] q by simp
    qed (auto simp: same_counters_def set_worker_def)
  next
    case 2
    then show ?thesis by cases (auto simp: same_counters_def)
  qed
qed

lemma counted_step:
  assumes "counted evs s" "engine_does ops s ev s'" "channels_ok ops v" "engine_inv n v s"
  shows "counted (evs @ [ev]) s'"
  using assms(2)
proof cases
  case (does_quiet)
  then show ?thesis using quiet_counters [OF assms(3,4)] assms(1)
    by (auto simp: counted_def same_counters_def histories)
next
  case (does_given buf r it clk w c)
  then have "eg_ticks_seen s' = eg_ticks_seen s + 1" "eg_orders_sent s' = eg_orders_sent s" "eg_orders_dropped s' = eg_orders_dropped s"
    by (simp_all add: dispatch_def Let_def split: prod.splits)
  then show ?thesis using assms(1) does_given(1) by (auto simp: counted_def histories)
next
  case (does_refused buf r it clk w)
  then have "eg_ticks_seen s' = eg_ticks_seen s + 1" "eg_orders_sent s' = eg_orders_sent s" "eg_orders_dropped s' = eg_orders_dropped s"
    by (simp_all add: dispatch_def Let_def split: prod.splits)
  then show ?thesis using assms(1) does_refused(1) by (auto simp: counted_def histories)
next
  case (does_published m c)
  then have "eg_ticks_seen s' = eg_ticks_seen s" "eg_orders_sent s' = eg_orders_sent s + 1" "eg_orders_dropped s' = eg_orders_dropped s"
    by (auto simp: drain_turn_def back_off_def publish_next_def Let_def split: prod.splits)
  then show ?thesis using assms(1) does_published(1) by (auto simp: counted_def histories add_ac)
next
  case (does_unpublished m c)
  then have "eg_ticks_seen s' = eg_ticks_seen s" "eg_orders_sent s' = eg_orders_sent s" "eg_orders_dropped s' = eg_orders_dropped s + 1"
    by (auto simp: drain_turn_def back_off_def publish_next_def Let_def split: prod.splits)
  then show ?thesis using assms(1) does_unpublished(1) by (auto simp: counted_def histories add_ac)
qed (use assms(1) in \<open>auto simp: counted_def histories set_worker_def\<close>)

lemma counted_run:
  assumes "engine_run ops (engine_init n c0 o0 ticks orders) evs s" "channels_ok ops v" "starts n v c0 o0 ticks orders"
  shows "counted evs s"
  using assms
proof (induction rule: engine_run.induct)
  case run_start
  then show ?case by (simp add: counted_def histories engine_init_def)
next
  case (run_event evs t ev s')
  have "engine_inv n v t"
    by (rule engine_runs_inv [OF engine_run_moves [OF run_event(1)] assms(2) engine_init_inv [OF assms(3)]])
  then show ?case using run_event counted_step [OF _ run_event(2) assms(2)] by blast
qed

section \<open>One symbol, one worker\<close>

lemma routed_append [simp]: "routed n (evs @ [ev]) \<longleftrightarrow> routed n evs \<and> routed n [ev]"
  by (auto simp: routed_def)

lemma routed_queued:
  "routed n evs \<Longrightarrow> filter (\<lambda>m. om_symbol m = x) (all_queued evs) = filter (\<lambda>m. om_symbol m = x) (queued_by (route n x) evs)"
  by (induction evs rule: rev_induct) (auto simp: histories routed_def split: engine_event.splits)

lemma routed_processed:
  "routed n evs \<Longrightarrow> filter (\<lambda>y. mt_symbol (wi_tick (snd y)) = x) (all_processed evs) =
     filter (\<lambda>y. mt_symbol (wi_tick (snd y)) = x) (processed_by (route n x) evs)"
  by (induction evs rule: rev_induct) (auto simp: histories routed_def split: engine_event.splits)

lemma routed_given:
  "routed n evs \<Longrightarrow> filter (\<lambda>it. mt_symbol (wi_tick it) = x) (all_given evs) =
     filter (\<lambda>it. mt_symbol (wi_tick it) = x) (given_to (route n x) evs)"
  by (induction evs rule: rev_induct) (auto simp: histories routed_def split: engine_event.splits)

lemma filter_as_event:
  "filter (\<lambda>e. mt_symbol (snd e) \<in> {x}) (map as_event ys) = map as_event (filter (\<lambda>y. mt_symbol (wi_tick (snd y)) = x) ys)"
  by (simp add: filter_map as_event_def comp_def)

text \<open>The orders for a symbol without their numbers, and its ticks.\<close>

definition orders_for :: "u8 list \<Rightarrow> order_msg list \<Rightarrow> order_msg list" where
  "orders_for x ms = map (\<lambda>m. m\<lparr>om_order_id := 0\<rparr>) (filter (\<lambda>m. om_symbol m = x) ms)"

definition ticks_for :: "u8 list \<Rightarrow> market_tick list \<Rightarrow> market_tick list" where
  "ticks_for x ts = filter (\<lambda>t. mt_symbol t = x) ts"

lemma orders_for_shard:
  "orders_for x (fst (strategy_run ps es st i)) =
    map (\<lambda>m. m\<lparr>om_order_id := 0\<rparr>) (fst (strategy_run ps (filter (\<lambda>e. mt_symbol (snd e) \<in> {x}) es) st j))"
  using sharding_preserves_orders [of "{x}" ps es st i j] by (simp add: orders_for_def)

lemma one_thread:
  assumes "channels_ok ops v" and "starts n v c0 o0 ticks orders"
    and "engine_run ops (engine_init n c0 o0 ticks orders) evs s"
  shows "orders_for x (all_queued evs @ in_hand (eg_workers s ! route n x)) =
      orders_for x (fst (strategy_run (en_params ops) (map as_event (all_processed evs)) (\<lambda>s. None) i)) \<and>
    ticks_for x (map wi_tick (all_given evs)) =
      ticks_for x (map (wi_tick \<circ> snd) (all_processed evs) @ map wi_tick (cv_ticks v (eg_chans s ! route n x)))"
proof -
  have n: "0 < n" using assms(2) by (simp add: starts_def)
  let ?w = "route n x"
  have tr: "traced (en_params ops) n v ticks orders evs s" using traced_run [OF assms(3,1,2)] by blast
  then have rt: "routed n evs" and wt: "worker_trace (en_params ops) ?w evs (waiting v s ?w) (eg_workers s ! ?w)"
    using n by (simp_all add: traced_def)
  let ?run = "\<lambda>ys i. fst (strategy_run (en_params ops) (map as_event ys) (\<lambda>s. None) i)"
  have "orders_for x (all_queued evs @ in_hand (eg_workers s ! ?w)) =
      orders_for x (?run (processed_by ?w evs) (worker_first_id ?w))"
    using wt by (simp add: orders_for_def routed_queued [OF rt] worker_trace_def)
  also have "\<dots> = orders_for x (?run (all_processed evs) i)"
    unfolding orders_for_shard [where j = 0] filter_as_event routed_processed [OF rt] ..
  finally have "orders_for x (all_queued evs @ in_hand (eg_workers s ! ?w)) = orders_for x (?run (all_processed evs) i)" .
  moreover have f: "ticks_for x (map wi_tick its) = map wi_tick (filter (\<lambda>it. mt_symbol (wi_tick it) = x) its)"
    "ticks_for x (map (wi_tick \<circ> snd) ys) = map (wi_tick \<circ> snd) (filter (\<lambda>y. mt_symbol (wi_tick (snd y)) = x) ys)"
    "ticks_for x (a @ b) = ticks_for x a @ ticks_for x b" for its ys a b
    by (simp_all add: ticks_for_def filter_map comp_def)
  have "ticks_for x (map wi_tick (all_given evs)) =
      ticks_for x (map (wi_tick \<circ> snd) (all_processed evs) @ map wi_tick (waiting v s ?w))"
    unfolding f routed_given [OF rt] routed_processed [OF rt] using wt
    by (simp add: worker_trace_def filter_map comp_def)
  ultimately show ?thesis by (simp add: waiting_def)
qed

section \<open>Properties\<close>

text \<open>C7. What the engine with workers computes, in any interleaving: its run has a history of events, and in every
  such history the ticks taken are those that arrived, in order; the items each worker was given are
  the ones it has processed and the ones waiting for it, in order; the orders it has queued, with the one it is
  sending, its state and its counter are those of the strategy over the ticks it has processed;
  and the orders reach the main thread and then the ring in the order in which they were queued.\<close>

theorem workers_compute_strategy:
  assumes "channels_ok ops v" and "starts n v c0 o0 ticks orders"
    and "(engine_moves ops)\<^sup>*\<^sup>* (engine_init n c0 o0 ticks orders) s"
  shows "(\<exists>evs. engine_run ops (engine_init n c0 o0 ticks orders) evs s) \<and>
    (\<forall>evs. engine_run ops (engine_init n c0 o0 ticks orders) evs s \<longrightarrow>
       map tick_of_bytes (ends_queue ticks @ map pad_payload (arrived evs)) =
         map wi_tick (taken evs) @ map tick_of_bytes (ends_queue (eg_ticks_in s)) \<and>
       (\<forall>w < n.
          given_to w evs = map snd (processed_by w evs) @ cv_ticks v (eg_chans s ! w) \<and>
          strategy_run (en_params ops) (map as_event (processed_by w evs)) (\<lambda>s. None) (worker_first_id w) =
            (queued_by w evs @ in_hand (eg_workers s ! w), wk_state (eg_workers s ! w), wk_next_order_id (eg_workers s ! w))) \<and>
       all_queued evs = received evs @ cv_orders v (eg_orders s) \<and>
       queued_orders orders @ published evs = map order_of_bytes (collected evs) @ queued_orders (eg_orders_out s))"
proof -
  have "\<exists>evs. engine_run ops (engine_init n c0 o0 ticks orders) evs s"
    by (rule engine_moves_run [OF assms(3,1) engine_init_inv [OF assms(2)]])
  moreover have "traced (en_params ops) n v ticks orders evs s"
    if "engine_run ops (engine_init n c0 o0 ticks orders) evs s" for evs
    using traced_run [OF that assms(1,2)] by blast
  ultimately show ?thesis by (simp add: traced_def queues_trace_def worker_trace_def waiting_def)
qed

text \<open>A run for the examples: with one worker, a tick arrives, is given to the worker and processed.\<close>

definition demo_engine :: "(work_item list, order_msg list) engine" where
  "demo_engine = engine_init 1 [] [] fresh_ends fresh_ends"

lemma demo_worker_run:
  "\<exists>wk. engine_run (list_ops demo_params False) demo_engine [Quiet, Quiet, Quiet] (demo_engine\<lparr>eg_workers := [wk]\<rparr>) \<and> wk_pc wk = W_Recv"
proof -
  let ?ops = "list_ops demo_params False"
  let ?wk = "(worker_init 0)\<lparr>wk_pc := W_Group\<rparr>"
  have p: "place_worker ?ops 0 (worker_init 0) = ?wk" "place_worker ?ops 0 ?wk = ?wk\<lparr>wk_pc := W_Top\<rparr>"
    by (simp_all add: place_worker_def worker_init_def list_ops_def worker_pin_def)
  let ?s = "\<lambda>wk. demo_engine\<lparr>eg_workers := [wk]\<rparr>"
  have s0: "demo_engine = ?s (worker_init 0)" by (simp add: demo_engine_def engine_init_def)
  have m: "engine_moves ?ops (?s (worker_init 0)) (?s ?wk)" "engine_moves ?ops (?s ?wk) (?s (?wk\<lparr>wk_pc := W_Top\<rparr>))"
    "engine_moves ?ops (?s (?wk\<lparr>wk_pc := W_Top\<rparr>)) (?s (?wk\<lparr>wk_pc := W_Recv\<rparr>))"
    using worker_place [of 0 "?s (worker_init 0)" _ ?ops] worker_place [of 0 "?s ?wk" _ ?ops]
      worker_go [of 0 "?s (?wk\<lparr>wk_pc := W_Top\<rparr>)" _ ?ops] p
    by (simp_all add: engine_moves_def set_worker_def worker_init_def demo_engine_def engine_init_def)
  have q: "quiet_step (?s a) (?s b)" if "work_part a = work_part b" for a b using that by (simp add: quiet_step_def)
  have w: "work_part ?wk = work_part (worker_init 0)" "work_part (?wk\<lparr>wk_pc := W_Top\<rparr>) = work_part (worker_init 0)"
    "work_part (?wk\<lparr>wk_pc := W_Recv\<rparr>) = work_part (worker_init 0)"
    by (simp_all add: work_part_def in_hand_def worker_init_def)
  have e: "engine_does ?ops (?s (worker_init 0)) Quiet (?s ?wk)" "engine_does ?ops (?s ?wk) Quiet (?s (?wk\<lparr>wk_pc := W_Top\<rparr>))"
    "engine_does ?ops (?s (?wk\<lparr>wk_pc := W_Top\<rparr>)) Quiet (?s (?wk\<lparr>wk_pc := W_Recv\<rparr>))"
    by (rule does_quiet [OF m(1)], rule q, simp only: w, rule does_quiet [OF m(2)], rule q, simp only: w,
        rule does_quiet [OF m(3)], rule q, simp only: w)
  from run_event [OF run_event [OF run_event [OF run_start e(1)] e(2)] e(3)]
  have "engine_run ?ops (?s (worker_init 0)) [Quiet, Quiet, Quiet] (?s (?wk\<lparr>wk_pc := W_Recv\<rparr>))" by simp
  then show ?thesis by (intro exI [of _ "?wk\<lparr>wk_pc := W_Recv\<rparr>"]) (simp flip: s0)
qed

lemma demo_engine_run:
  "\<exists>s it. engine_run (list_ops demo_params False) demo_engine
     [Quiet, Quiet, Quiet, Arrived (replicate 64 0), Quiet, Given 0 it, Processed 0 (8, 9) it] s"
proof -
  let ?ops = "list_ops demo_params False"
  obtain wk where wk: "engine_run ?ops demo_engine [Quiet, Quiet, Quiet] (demo_engine\<lparr>eg_workers := [wk]\<rparr>)" "wk_pc wk = W_Recv"
    using demo_worker_run by blast
  let ?m = "replicate 64 0 :: u8 list"
  have fits: "fits_slot ?m" by (simp add: fits_slot_def SLOT_PAYLOAD_def)
  obtain r where r: "ring_push ?m fresh_ends = (True, r)" "ends_ok r" "ends_queue r = [pad_payload ?m]"
    using ring_push_room [OF fresh_ends_ok(1) fits] by (auto simp: fresh_ends_ok(2))
  obtain r1 where r1: "ring_pop r = (Some (pad_payload ?m), r1)" using ring_fifo.pop_some [OF r(2,3)] by blast
  let ?it = "\<lparr>wi_tick = tick_of_bytes (pad_payload ?m), wi_enqueued_ns = 6\<rparr>"
  define s1 where "s1 = demo_engine\<lparr>eg_workers := [wk], eg_ticks_in := r\<rparr>"
  define s2 where "s2 = s1\<lparr>eg_pc := M_Take\<rparr>"
  define s3 where "s3 = dispatch ?ops (5, 6) s2"
  note d = demo_engine_def engine_init_def
  have e1: "engine_does ?ops (demo_engine\<lparr>eg_workers := [wk]\<rparr>) (Arrived ?m) s1"
    using does_arrived [OF fits, of "demo_engine\<lparr>eg_workers := [wk]\<rparr>" r ?ops] r(1) by (simp add: s1_def d)
  have e2: "engine_does ?ops s1 Quiet s2"
    using main_enter [of s1 ?ops] quiet_pc [of s1]
    by (intro does_quiet) (simp_all add: engine_moves_def s2_def, simp_all add: s1_def d)
  have s2: "eg_pc s2 = M_Take" "eg_ticks_in s2 = r" "eg_chans s2 = [[]]" "eg_workers s2 = [wk]"
    by (simp_all add: s2_def s1_def d)
  have send: "ch_try_send (en_ticks_chan ?ops) ?it [] = (True, [?it])"
    by (simp add: list_ops_def list_chan_def CHANNEL_CAP_def)
  have e3: "engine_does ?ops s2 (Given 0 ?it) s3"
    unfolding s3_def
    by (rule does_given [where clk = "(5, 6)" and c = "[?it]"])
      (use s2 r1 wk(2) send in \<open>simp_all add: route_def\<close>)
  have s3: "eg_chans s3 = [[?it]]" "eg_workers s3 = [wk]"
    using dispatch_some [of s2 "pad_payload ?m" r1 ?it "(5, 6)" 0 ?ops] s2 r1 wk(2) send
    by (simp_all add: s3_def route_def)
  have "ch_try_recv (en_ticks_chan ?ops) [?it] = (Some ?it, [])" by (simp add: list_ops_def list_chan_def)
  then have e4: "\<exists>s4. engine_does ?ops s3 (Processed 0 (8, 9) ?it) s4"
    using does_processed [of 0 s3 ?ops ?it "[]" "(8, 9)"] s3 wk(2) by auto
  then show ?thesis using run_event [OF run_event [OF run_event [OF run_event [OF wk(1) e1] e2] e3]] by fastforce
qed

theorem workers_compute_strategy_witness:
  "\<exists>evs s. engine_run (list_ops demo_params False) demo_engine evs s \<and> length (processed_by 0 evs) = 1 \<and>
     strategy_run demo_params (map as_event (processed_by 0 evs)) (\<lambda>s. None) (worker_first_id 0) =
       (queued_by 0 evs @ in_hand (eg_workers s ! 0), wk_state (eg_workers s ! 0), wk_next_order_id (eg_workers s ! 0))"
proof -
  obtain s it where run: "engine_run (list_ops demo_params False) demo_engine
     [Quiet, Quiet, Quiet, Arrived (replicate 64 0), Quiet, Given 0 it, Processed 0 (8, 9) it] s" (is "engine_run _ _ ?evs _")
    using demo_engine_run by blast
  have p: "en_params (list_ops demo_params False) = demo_params" by (simp add: list_ops_def)
  have "strategy_run demo_params (map as_event (processed_by 0 ?evs)) (\<lambda>s. None) (worker_first_id 0) =
      (queued_by 0 ?evs @ in_hand (eg_workers s ! 0), wk_state (eg_workers s ! 0), wk_next_order_id (eg_workers s ! 0))"
    using workers_compute_strategy [OF list_ops_ok list_starts engine_run_moves [OF run [unfolded demo_engine_def]]]
      run [unfolded demo_engine_def] p by auto
  moreover have "length (processed_by 0 ?evs) = 1" by (simp add: histories)
  ultimately show ?thesis using run by blast
qed

text \<open>C8. Workers change no order, only its number: for every symbol, in any interleaving and with any number of
  workers, the orders made so far are those of a single strategy over all ticks processed by any worker, in the order in
  which they were; and those are, in order, the ticks of the symbol that were handed out, but for the ones
  still waiting.\<close>

theorem workers_match_one_thread:
  assumes "channels_ok ops v" and "starts n v c0 o0 ticks orders"
    and "engine_run ops (engine_init n c0 o0 ticks orders) evs s"
  shows "orders_for x (all_queued evs @ in_hand (eg_workers s ! route n x)) =
      orders_for x (fst (strategy_run (en_params ops) (map as_event (all_processed evs)) (\<lambda>s. None) i)) \<and>
    ticks_for x (map wi_tick (all_given evs)) =
      ticks_for x (map (wi_tick \<circ> snd) (all_processed evs) @ map wi_tick (cv_ticks v (eg_chans s ! route n x)))"
  by (rule one_thread [OF assms])

theorem workers_match_one_thread_witness:
  "\<exists>evs s. engine_run (list_ops demo_params False) demo_engine evs s \<and> length (all_given evs) = 1 \<and>
     (\<forall>x. ticks_for x (map wi_tick (all_given evs)) =
       ticks_for x (map (wi_tick \<circ> snd) (all_processed evs) @ map wi_tick (eg_chans s ! 0)))"
proof -
  obtain s it where run: "engine_run (list_ops demo_params False) demo_engine
     [Quiet, Quiet, Quiet, Arrived (replicate 64 0), Quiet, Given 0 it, Processed 0 (8, 9) it] s" (is "engine_run _ _ ?evs _")
    using demo_engine_run by blast
  have "ticks_for x (map wi_tick (all_given ?evs)) =
      ticks_for x (map (wi_tick \<circ> snd) (all_processed ?evs) @ map wi_tick (eg_chans s ! route 1 x))" for x
    using workers_match_one_thread [OF list_ops_ok list_starts run [unfolded demo_engine_def]] by (simp add: list_view_def)
  moreover have "route 1 x = 0" for x by (simp add: route_def)
  moreover have "length (all_given ?evs) = 1" by (simp add: histories)
  ultimately show ?thesis using run by metis
qed

end
