(* ===== verification/Pipeline_Workers.thy ===== *)
theory Pipeline_Workers
  imports Pipeline Engine_Trace
begin

text \<open>
  The feedhandler and the engine with workers on one bus: the steps of \<open>Engine_Workers\<close> and those of the
  feedhandler (a packet, an order taken out by the drain) in any interleaving. The result is the one
  of \<open>Pipeline\<close> for the other mode: by \<open>Engine_Trace\<close> the orders logged are, symbol by symbol, those of the strategy.
\<close>

section \<open>The steps\<close>

text \<open>As in \<open>Pipeline\<close>, each process has its own view of the memory both map, and the last two fields are what has
  happened, which is not in the program.\<close>

record ('c, 'o) workers_pipeline =
  wp_fh :: feedhandler
  wp_eg :: "('c, 'o) engine"
  wp_published :: "market_tick list"
  wp_logged :: "order_msg list"

definition workers_pipeline_init :: "nat \<Rightarrow> 'c \<Rightarrow> 'o \<Rightarrow> ring_ends \<Rightarrow> ring_ends \<Rightarrow> ('c, 'o) workers_pipeline" where
  "workers_pipeline_init n c0 o0 ticks orders =
     \<lparr>wp_fh = feedhandler_init ticks orders, wp_eg = engine_init n c0 o0 ticks orders, wp_published = [], wp_logged = []\<rparr>"

definition seen_by_workers :: "feedhandler \<Rightarrow> ('c, 'o) engine \<Rightarrow> ('c, 'o) engine" where
  "seen_by_workers fh e = e\<lparr>eg_ticks_in := fh_ticks fh, eg_orders_out := fh_orders fh\<rparr>"

definition shown_to_feedhandler :: "('c, 'o) engine \<Rightarrow> feedhandler \<Rightarrow> feedhandler" where
  "shown_to_feedhandler e fh = fh\<lparr>fh_ticks := eg_ticks_in e, fh_orders := eg_orders_out e\<rparr>"

inductive workers_pipeline_step ::
  "('c, 'o) engine_ops \<Rightarrow> ('c, 'o) workers_pipeline \<Rightarrow> ('c, 'o) workers_pipeline \<Rightarrow> bool"
  for ops :: "('c, 'o) engine_ops"
where
  wp_packet: "packet_ok (buf, res) \<Longrightarrow> length pad = 4 \<Longrightarrow> handle_completion pad now buf res (wp_fh s) = Inr fh \<Longrightarrow>
    workers_pipeline_step ops s (s\<lparr>wp_fh := fh, wp_eg := seen_by_workers fh (wp_eg s),
      wp_published := wp_published s @ drop (length (queued_ticks (wp_fh s))) (queued_ticks fh)\<rparr>)"
| wp_log: "take_order (wp_fh s) = (ord, fh) \<Longrightarrow>
    workers_pipeline_step ops s (s\<lparr>wp_fh := fh, wp_eg := seen_by_workers fh (wp_eg s),
      wp_logged := wp_logged s @ (case ord of None \<Rightarrow> [] | Some m \<Rightarrow> [m])\<rparr>)"
| wp_engine: "engine_step ops (wp_eg s) e \<Longrightarrow>
    workers_pipeline_step ops s (s\<lparr>wp_eg := e, wp_fh := shown_to_feedhandler e (wp_fh s)\<rparr>)"
| wp_signal: "workers_pipeline_step ops s (s\<lparr>wp_eg := (wp_eg s)\<lparr>eg_stop := True\<rparr>\<rparr>)"

inductive_cases workers_pipeline_stepE: "workers_pipeline_step ops s s'"

section \<open>The engine's run\<close>

definition shared :: "('c, 'o) workers_pipeline \<Rightarrow> bool" where
  "shared s \<longleftrightarrow> fh_ticks (wp_fh s) = eg_ticks_in (wp_eg s) \<and> fh_orders (wp_fh s) = eg_orders_out (wp_eg s)"

text \<open>The engine's part of a step is a run of it, whose arrivals are the ticks published and whose collected orders are the
  ones logged.\<close>

definition accounts_for :: "engine_event list \<Rightarrow> ('c, 'o) workers_pipeline \<Rightarrow> ('c, 'o) workers_pipeline \<Rightarrow> bool" where
  "accounts_for evs s s' \<longleftrightarrow>
     wp_published s' = wp_published s @ map tick_of_bytes (map pad_payload (arrived evs)) \<and>
     wp_logged s' = wp_logged s @ map order_of_bytes (collected evs) \<and>
     fh_recv_count (wp_fh s') = fh_recv_count (wp_fh s) + of_nat (length (arrived evs)) \<and>
     fh_order_count (wp_fh s') = fh_order_count (wp_fh s) + of_nat (length (collected evs))"

lemma ends_publish_Inr: "ends_publish m s = Inr r \<Longrightarrow> fits_slot m \<and> r = ring_push m s"
  by (auto simp: ends_publish_def ring_push_def fits_slot_def try_publish_def Let_def split: prod.splits if_splits)

text \<open>What a packet does to the ring of the ticks.\<close>

lemma packet_ring:
  assumes h: "handle_completion pad now buf res fh = Inr fh'" and ok: "ends_ok (fh_ticks fh)"
  obtains (none) "fh_ticks fh' = fh_ticks fh" "fh_orders fh' = fh_orders fh" "fh_recv_count fh' = fh_recv_count fh"
      "fh_order_count fh' = fh_order_count fh"
    | (published) m where "fits_slot m" "ring_push m (fh_ticks fh) = (True, fh_ticks fh')" "fh_orders fh' = fh_orders fh"
      "fh_recv_count fh' = fh_recv_count fh + 1" "fh_order_count fh' = fh_order_count fh"
proof -
  let ?same = "fh_orders fh' = fh_orders fh \<and> fh_order_count fh' = fh_order_count fh"
  have "(fh_ticks fh' = fh_ticks fh \<and> fh_recv_count fh' = fh_recv_count fh \<and> ?same) \<or>
      (\<exists>m b. ends_publish m (fh_ticks fh) = Inr (b, fh_ticks fh') \<and>
         fh_recv_count fh' = fh_recv_count fh + (if b then 1 else 0) \<and> ?same)"
  proof (cases "sint res < 0 \<or> unat res < MarketTick_SIZE \<or> length buf < unat res \<or> parse_tick (take (unat res) buf) = None")
    case True
    consider "sint res < 0" | "\<not> sint res < 0" "unat res < MarketTick_SIZE"
      | "\<not> sint res < 0" "\<not> unat res < MarketTick_SIZE" "length buf < unat res"
      | "\<not> sint res < 0" "\<not> unat res < MarketTick_SIZE" "\<not> length buf < unat res" "parse_tick (take (unat res) buf) = None"
      using True by metis
    then have "fh' = fh \<or> fh' = fh\<lparr>fh_bad_packets := fh_bad_packets fh + 1\<rparr>"
      by cases (use h in \<open>simp_all add: handle_completion_def\<close>)
    then show ?thesis by (elim disjE) simp_all
  next
    case False
    then obtain t where t: "parse_tick (take (unat res) buf) = Some t" by blast
    let ?m = "tick_bytes pad (t\<lparr>mt_recv_ts_ns := now\<rparr>)"
    show ?thesis
    proof (cases "ends_publish ?m (fh_ticks fh)")
      case (Inl e)
      then show ?thesis using h False t by (simp add: handle_completion_def)
    next
      case (Inr r)
      obtain b r1 where r: "r = (b, r1)" by (metis prod.exhaust)
      show ?thesis
        by (rule disjI2, rule exI [of _ ?m], rule exI [of _ b])
          (use h False t Inr r in \<open>cases b; clarsimp simp: handle_completion_def\<close>)
    qed
  qed
  then show ?thesis
  proof (elim disjE exE conjE)
    fix m b
    assume m: "ends_publish m (fh_ticks fh) = Inr (b, fh_ticks fh')"
      and same: "fh_recv_count fh' = fh_recv_count fh + (if b then 1 else 0)" "fh_orders fh' = fh_orders fh"
        "fh_order_count fh' = fh_order_count fh"
    have push: "fits_slot m" "ring_push m (fh_ticks fh) = (b, fh_ticks fh')" using ends_publish_Inr [OF m] by auto
    from ok push(1) show thesis
      by (cases rule: ring_fifo.push_cases) (use push same none published in auto)
  qed (use none in blast)
qed

lemma pushed_queue:
  assumes "ring_push m s = (True, r)" "fits_slot m" "ends_ok s"
  shows "ends_queue r = ends_queue s @ [pad_payload m]"
  by (rule ring_fifo.push_cases [OF assms(3,2)]) (use assms(1) in auto)

lemma internal_histories [simp]: "internal ev \<Longrightarrow> arrived [ev] = []" "internal ev \<Longrightarrow> collected [ev] = []"
  by (auto simp: internal_def histories split: engine_event.splits)

lemma engine_run_one: "engine_does ops s ev s' \<Longrightarrow> engine_run ops s [ev] s'"
  using run_event [OF run_start] by fastforce

lemma workers_pipeline_step_run:
  assumes step: "workers_pipeline_step ops s s'" and sh: "shared s" and ops: "channels_ok ops v" and inv: "engine_inv n v (wp_eg s)"
  shows "\<exists>evs. engine_run ops (wp_eg s) evs (wp_eg s') \<and> accounts_for evs s s' \<and> shared s'"
proof -
  have ok: "ends_ok (fh_ticks (wp_fh s))" "ends_ok (fh_orders (wp_fh s))"
    using inv sh by (auto simp: engine_inv_defs shared_def)
  have none_event: "\<exists>evs. engine_run ops (wp_eg s) evs (wp_eg s') \<and> accounts_for evs s s' \<and> shared s'"
    if "wp_eg s' = wp_eg s" "wp_published s' = wp_published s" "wp_logged s' = wp_logged s"
      "fh_recv_count (wp_fh s') = fh_recv_count (wp_fh s)" "fh_order_count (wp_fh s') = fh_order_count (wp_fh s)" "shared s'"
    using that run_start by (intro exI [of _ "[]"]) (simp add: accounts_for_def histories)
  have one: "\<exists>evs. engine_run ops (wp_eg s) evs (wp_eg s') \<and> accounts_for evs s s' \<and> shared s'"
    if "engine_does ops (wp_eg s) ev (wp_eg s')" "accounts_for [ev] s s'" "shared s'" for ev
    using that engine_run_one by blast
  from step show ?thesis
  proof cases
    case (wp_packet buf res pad now fh)
    from wp_packet(4) ok(1) show ?thesis
    proof (cases rule: packet_ring)
      case none
      then show ?thesis using wp_packet(1) sh
        by (intro none_event) (simp_all add: shared_def seen_by_workers_def queued_ticks_def)
    next
      case (published m)
      have eq: "seen_by_workers fh (wp_eg s) = (wp_eg s)\<lparr>eg_ticks_in := fh_ticks fh\<rparr>"
        using published(3) sh by (simp add: seen_by_workers_def shared_def)
      have "engine_does ops (wp_eg s) (Arrived m) (wp_eg s')"
        using does_arrived [OF published(1), of "wp_eg s" "fh_ticks fh" ops] published(2) sh
        by (simp add: wp_packet(1) eq shared_def)
      moreover have "queued_ticks fh = queued_ticks (wp_fh s) @ [tick_of_bytes (pad_payload m)]"
        using pushed_queue [OF published(2,1) ok(1)] by (simp add: queued_ticks_def)
      then have "accounts_for [Arrived m] s s'"
        using published by (simp add: accounts_for_def histories wp_packet(1))
      ultimately show ?thesis
        by (rule one) (use published(3) sh in \<open>simp add: wp_packet(1) shared_def seen_by_workers_def\<close>)
    qed
  next
    case (wp_log ord fh)
    from ok(2) show ?thesis
    proof (cases rule: ring_fifo.pop_cases)
      case empty
      then show ?thesis using wp_log sh
        by (intro none_event) (auto simp: take_order_def shared_def seen_by_workers_def)
    next
      case (taken buf r)
      then have fh: "fh = (wp_fh s)\<lparr>fh_orders := r, fh_order_count := fh_order_count (wp_fh s) + 1\<rparr>" "ord = Some (order_of_bytes buf)"
        using wp_log(2) by (simp_all add: take_order_def)
      have "seen_by_workers fh (wp_eg s) = (wp_eg s)\<lparr>eg_orders_out := r\<rparr>"
        using sh by (simp add: fh seen_by_workers_def shared_def)
      then have "engine_does ops (wp_eg s) (Collected buf) (wp_eg s')"
        using does_collected [of "wp_eg s" buf r ops] taken(1) sh by (simp add: wp_log(1) shared_def)
      moreover have "accounts_for [Collected buf] s s'" by (simp add: accounts_for_def histories wp_log(1) fh)
      ultimately show ?thesis
        by (rule one) (use sh in \<open>simp add: wp_log(1) fh shared_def seen_by_workers_def\<close>)
    qed
  next
    case (wp_engine e)
    obtain ev where ev: "engine_does ops (wp_eg s) ev e" "internal ev" using engine_step_does [OF ops inv wp_engine(2)] by blast
    show ?thesis
      by (rule one [of ev]) (use ev in \<open>simp_all add: wp_engine(1) accounts_for_def shared_def shown_to_feedhandler_def\<close>)
  next
    case wp_signal
    have "engine_does ops (wp_eg s) Quiet ((wp_eg s)\<lparr>eg_stop := True\<rparr>)"
      using outside_step.signal [of "wp_eg s"] quiet_pc(2) by (intro does_quiet) (simp_all add: engine_moves_def)
    then show ?thesis
      by (intro one [of Quiet]) (use sh in \<open>simp_all add: wp_signal accounts_for_def histories shared_def\<close>)
  qed
qed

lemma workers_pipeline_run:
  assumes "(workers_pipeline_step ops)\<^sup>*\<^sup>* (workers_pipeline_init n c0 o0 ticks orders) s"
    and "channels_ok ops v" "starts n v c0 o0 ticks orders"
  shows "\<exists>evs. engine_run ops (engine_init n c0 o0 ticks orders) evs (wp_eg s) \<and>
    accounts_for evs (workers_pipeline_init n c0 o0 ticks orders) s \<and> shared s"
  using assms
proof (induction rule: rtranclp_induct)
  case base
  show ?case using run_start
    by (intro exI [of _ "[]"])
      (simp add: accounts_for_def histories shared_def workers_pipeline_init_def feedhandler_init_def engine_init_def run_start)
next
  case (step s t)
  then obtain evs where run: "engine_run ops (engine_init n c0 o0 ticks orders) evs (wp_eg s)"
    and acc: "accounts_for evs (workers_pipeline_init n c0 o0 ticks orders) s" and sh: "shared s" by blast
  have "engine_inv n v (wp_eg s)" using traced_run [OF run step.prems] by blast
  then obtain evs' where "engine_run ops (wp_eg s) evs' (wp_eg t)" "accounts_for evs' s t" "shared t"
    using workers_pipeline_step_run [OF step.hyps(2) sh step.prems(1)] by blast
  moreover from this have "accounts_for (evs @ evs') (workers_pipeline_init n c0 o0 ticks orders) t"
    using acc by (simp add: accounts_for_def histories)
  ultimately show ?case using engine_run_append [OF _ run] by blast
qed

section \<open>Properties\<close>

lemma subseq_append_right [simp]: "subseq xs (xs @ ys)"
  by (simp add: list_emb_prefix)

lemma published_received: "subseq (published evs) (received evs)"
  by (induction evs) (auto simp: histories split: engine_event.splits)

lemma given_taken: "subseq (all_given evs) (taken evs)"
  by (induction evs) (auto simp: histories split: engine_event.splits)

lemma subseq_orders_for: "subseq ms ms' \<Longrightarrow> subseq (orders_for x ms) (orders_for x ms')"
  by (simp add: orders_for_def subseq_map subseq_filter)

lemma subseq_ticks_for: "subseq ts ts' \<Longrightarrow> subseq (ticks_for x ts) (ticks_for x ts')"
  by (simp add: ticks_for_def subseq_filter)

text \<open>Nothing is on the way, and nothing was refused by a full channel or a full ring.\<close>

definition at_rest :: "nat \<Rightarrow> ('c, 'o) chan_view \<Rightarrow> engine_event list \<Rightarrow> ('c, 'o) workers_pipeline \<Rightarrow> bool" where
  "at_rest n v evs s \<longleftrightarrow>
     queued_ticks (wp_fh s) = [] \<and> taken evs = all_given evs \<and>
     (\<forall>w < n. cv_ticks v (eg_chans (wp_eg s) ! w) = [] \<and> in_hand (eg_workers (wp_eg s) ! w) = []) \<and>
     cv_orders v (eg_orders (wp_eg s)) = [] \<and> received evs = published evs \<and> queued_orders (eg_orders_out (wp_eg s)) = []"

text \<open>What is logged and published, against what a worker has made and was given.\<close>

lemma logged_subseq:
  assumes "queues_trace v ticks orders evs (wp_eg s)"
    and log: "published evs = wp_logged s @ queued_orders (eg_orders_out (wp_eg s))"
  shows "subseq (wp_logged s) (all_queued evs @ ms)"
proof -
  have "subseq (wp_logged s) (published evs)" by (simp add: log)
  then have "subseq (wp_logged s) (received evs)" using published_received by (rule subseq_order.trans)
  then show ?thesis using assms(1) by (auto simp: queues_trace_def intro: list_emb_prefix)
qed

lemma given_published:
  assumes "wp_published s = map wi_tick (taken evs) @ queued_ticks (wp_fh s)"
  shows "subseq (ticks_for x (map wi_tick (all_given evs))) (ticks_for x (wp_published s))"
proof -
  have "subseq (map wi_tick (all_given evs)) (wp_published s)"
    unfolding assms using subseq_map [OF given_taken] by (auto intro: list_emb_prefix)
  then show ?thesis by (rule subseq_ticks_for)
qed

text \<open>C4. The feedhandler and the engine with workers on one bus, interleaved in any way: the ticks published are the ones
  the engine has taken, in order, and the ones in the ring; the orders logged, with the ones still in the ring, are the
  ones the engine published, in order; the feedhandler's counters are exact; for each symbol the orders logged are
  among those of one strategy, run over all ticks processed in the order in which the workers came to them, which for each symbol is
  the order of publication; and when all is at rest and nothing was refused, they are, symbol by symbol, exactly the orders of
  that strategy over the ticks published.\<close>

theorem workers_pipeline_strategy:
  assumes "channels_ok ops v" and "starts n v c0 o0 ticks orders" and "ends_queue ticks = []" "ends_queue orders = []"
    and "(workers_pipeline_step ops)\<^sup>*\<^sup>* (workers_pipeline_init n c0 o0 ticks orders) s"
  shows "\<exists>evs. engine_run ops (engine_init n c0 o0 ticks orders) evs (wp_eg s) \<and>
    wp_published s = map wi_tick (taken evs) @ queued_ticks (wp_fh s) \<and>
    published evs = wp_logged s @ queued_orders (eg_orders_out (wp_eg s)) \<and>
    fh_recv_count (wp_fh s) = of_nat (length (wp_published s)) \<and>
    fh_order_count (wp_fh s) = of_nat (length (wp_logged s)) \<and>
    (let run = fst (strategy_run (en_params ops) (map as_event (all_processed evs)) (\<lambda>s. None) i);
         ts = map (wi_tick \<circ> snd) (all_processed evs)
     in \<forall>x. subseq (orders_for x (wp_logged s)) (orders_for x run) \<and>
        subseq (ticks_for x ts) (ticks_for x (wp_published s)) \<and>
        (at_rest n v evs s \<longrightarrow>
           orders_for x (wp_logged s) = orders_for x run \<and> ticks_for x ts = ticks_for x (wp_published s)))"
proof -
  obtain evs where run: "engine_run ops (engine_init n c0 o0 ticks orders) evs (wp_eg s)"
    and acc: "accounts_for evs (workers_pipeline_init n c0 o0 ticks orders) s" and sh: "shared s"
    using workers_pipeline_run [OF assms(5,1,2)] by blast
  have q: "queues_trace v ticks orders evs (wp_eg s)" using traced_run [OF run assms(1,2)] by (simp add: traced_def)
  have pub: "wp_published s = map wi_tick (taken evs) @ queued_ticks (wp_fh s)"
    and log: "published evs = wp_logged s @ queued_orders (eg_orders_out (wp_eg s))"
    using q acc sh assms(3,4)
    by (simp_all add: queues_trace_def accounts_for_def shared_def workers_pipeline_init_def
        queued_ticks_def queued_orders_def)
  have counts: "fh_recv_count (wp_fh s) = of_nat (length (wp_published s))"
    "fh_order_count (wp_fh s) = of_nat (length (wp_logged s))"
    using acc by (simp_all add: accounts_for_def workers_pipeline_init_def feedhandler_init_def)
  let ?run = "fst (strategy_run (en_params ops) (map as_event (all_processed evs)) (\<lambda>s. None) i)"
  let ?ts = "map (wi_tick \<circ> snd) (all_processed evs)"
  have 1: "orders_for x (all_queued evs @ in_hand (eg_workers (wp_eg s) ! route n x)) = orders_for x ?run"
    "ticks_for x (map wi_tick (all_given evs)) =
      ticks_for x (?ts @ map wi_tick (cv_ticks v (eg_chans (wp_eg s) ! route n x)))" for x
    using one_thread [OF assms(1,2) run] by blast+
  have aq: "all_queued evs = received evs @ cv_orders v (eg_orders (wp_eg s))" using q by (simp add: queues_trace_def)
  have sub_o: "subseq (wp_logged s) (all_queued evs @ in_hand (eg_workers (wp_eg s) ! route n x))" for x
    using q log by (rule logged_subseq)
  have "subseq (ticks_for x ?ts) (ticks_for x (map wi_tick (all_given evs)))" for x
    unfolding 1(2) by (simp add: ticks_for_def)
  then have t: "subseq (ticks_for x ?ts) (ticks_for x (wp_published s))" for x
    using given_published [OF pub] by (rule subseq_order.trans)
  have rest: "orders_for x (wp_logged s) = orders_for x ?run \<and> ticks_for x ?ts = ticks_for x (wp_published s)"
    if "at_rest n v evs s" for x
  proof -
    have w: "route n x < n" using assms(2) by (simp add: starts_def)
    have "wp_logged s = all_queued evs" using that log aq by (simp add: at_rest_def)
    then show ?thesis using 1 [of x] that w pub by (simp add: at_rest_def)
  qed
  show ?thesis
    unfolding Let_def using run pub log counts subseq_orders_for [OF sub_o] t rest
    by (intro exI [of _ evs]) (simp add: 1(1) [symmetric])
qed

text \<open>A packet arrives, is published, and the engine takes the tick.\<close>

theorem workers_pipeline_strategy_witness:
  "\<exists>s evs. (workers_pipeline_step (list_ops demo_params False))\<^sup>*\<^sup>* (workers_pipeline_init 1 [] [] fresh_ends fresh_ends) s \<and>
     engine_run (list_ops demo_params False) demo_engine evs (wp_eg s) \<and>
     length (wp_published s) = 1 \<and> wp_published s = map wi_tick (taken evs) \<and> fh_recv_count (wp_fh s) = 1"
proof -
  let ?ops = "list_ops demo_params False"
  let ?s = "workers_pipeline_init 1 [] [] fresh_ends fresh_ends :: (work_item list, order_msg list) workers_pipeline"
  let ?p = "(replicate BUF_SIZE 0, 64) :: u8 list \<times> i32"
  have ok: "packet_ok ?p" "ends_ok (fh_ticks (wp_fh ?s))" "queued_ticks (wp_fh ?s) = []"
    by (simp_all add: packet_ok_def BUF_SIZE_def workers_pipeline_init_def feedhandler_init_def queued_ticks_def fresh_ends_ok)
  obtain fh where fh: "handle_completion [0, 0, 0, 0] 5 (replicate BUF_SIZE 0) 64 (wp_fh ?s) = Inr fh"
    "fed (wp_fh ?s) [(tick_of_bytes (replicate BUF_SIZE 0))\<lparr>mt_recv_ts_ns := 5\<rparr>] 0 fh"
    using handle_completion_fed [OF ok(1) _ ok(2), of "[0, 0, 0, 0]" 5] by (auto simp: layout_simps short_packet_def)
  have q: "length (queued_ticks fh) = 1" "ends_ok (fh_ticks fh)"
    using fh(2) ok(3) by (simp_all add: fed_def room_def RING_CAPACITY_def)
  let ?s1 = "?s\<lparr>wp_fh := fh, wp_eg := seen_by_workers fh (wp_eg ?s),
      wp_published := wp_published ?s @ drop (length (queued_ticks (wp_fh ?s))) (queued_ticks fh)\<rparr>"
  have s1: "workers_pipeline_step ?ops ?s ?s1" by (rule wp_packet [OF ok(1) _ fh(1)]) simp
  let ?s2 = "?s1\<lparr>wp_eg := (wp_eg ?s1)\<lparr>eg_pc := M_Take\<rparr>, wp_fh := shown_to_feedhandler ((wp_eg ?s1)\<lparr>eg_pc := M_Take\<rparr>) (wp_fh ?s1)\<rparr>"
  have s2: "workers_pipeline_step ?ops ?s1 ?s2"
    using main_enter [of "wp_eg ?s1" ?ops]
    by (intro wp_engine) (simp add: workers_pipeline_init_def seen_by_workers_def engine_init_def)
  let ?e = "dispatch ?ops (6, 7) (wp_eg ?s2)"
  let ?s3 = "?s2\<lparr>wp_eg := ?e, wp_fh := shown_to_feedhandler ?e (wp_fh ?s2)\<rparr>"
  have s3: "workers_pipeline_step ?ops ?s2 ?s3"
    using main_take [of "wp_eg ?s2" ?ops "(6, 7)"] by (intro wp_engine) simp
  have run: "(workers_pipeline_step ?ops)\<^sup>*\<^sup>* ?s ?s3"
    using s1 s2 s3 by (meson converse_rtranclp_into_rtranclp rtranclp.rtrancl_refl)
  have len: "length (wp_published ?s3) = 1" using q(1) ok(3) by (simp add: workers_pipeline_init_def)
  obtain b where b: "ends_queue (fh_ticks fh) = [b]"
    using q(1) by (auto simp: queued_ticks_def length_Suc_conv)
  obtain r where r: "ring_pop (fh_ticks fh) = (Some b, r)" "ends_queue r = []"
    using ring_fifo.pop_some [OF q(2) b] by blast
  have empty: "queued_ticks (wp_fh ?s3) = []"
    using dispatch_some(1) [of "wp_eg ?s2" b r _ "(6, 7)" _ ?ops, OF _ refl refl] r
    by (simp add: queued_ticks_def shown_to_feedhandler_def seen_by_workers_def)
  obtain s3 where s: "(workers_pipeline_step ?ops)\<^sup>*\<^sup>* ?s s3" "length (wp_published s3) = 1" "queued_ticks (wp_fh s3) = []"
    using run len empty by blast
  have start: "starts 1 list_view [] [] fresh_ends fresh_ends" by (rule list_starts) simp
  obtain evs where "engine_run ?ops (engine_init 1 [] [] fresh_ends fresh_ends) evs (wp_eg s3)"
    "wp_published s3 = map wi_tick (taken evs)" "fh_recv_count (wp_fh s3) = of_nat (length (wp_published s3))"
    using workers_pipeline_strategy [where i = 1, OF list_ops_ok start fresh_ends_ok(2) fresh_ends_ok(2) s(1)] s(3)
    by (elim exE conjE) simp
  then show ?thesis using s by (intro exI [of _ s3] exI [of _ evs]) (simp add: demo_engine_def)
qed

end
