(* ===== verification/Float_Text.thy ===== *)
theory Float_Text
  imports Float64_Real Text
begin

text \<open>
  \<open>format!("{}", x)\<close> of an \<open>f64\<close>: the shortest decimal that rounds to \<open>x\<close>, the nearest
  to \<open>x\<close> of these, written out without an exponent. The main lemma says what comes out for a number that
  is the rounding of a decimal of at most fifteen digits: that decimal.
\<close>

section \<open>Decimals as text\<close>

fun fixed_digits :: "nat \<Rightarrow> nat \<Rightarrow> string" where
  "fixed_digits 0 f = []"
| "fixed_digits (Suc n) f = fixed_digits n (f div 10) @ [digit_char (f mod 10)]"

definition strip_zeros :: "string \<Rightarrow> string" where
  "strip_zeros s = rev (dropWhile (\<lambda>c. c = digit_char 0) (rev s))"

text \<open>The decimal \<open>d / 10\<^sup>i\<close>.\<close>

definition point_text :: "nat \<Rightarrow> nat \<Rightarrow> string" where
  "point_text d i =
     (let f = d mod 10 ^ i
      in show_nat (d div 10 ^ i) @ (if f = 0 then [] else ''.'' @ strip_zeros (fixed_digits i f)))"

definition decimal_text :: "nat \<Rightarrow> int \<Rightarrow> string" where
  "decimal_text d j = point_text (d * 10 ^ nat j) (nat (- j))"

section \<open>The shortest decimal\<close>

text \<open>The number \<open>k\<close> of digits before the point of \<open>p / q\<close>, or minus the number of zeros after it.\<close>

definition decimal_exp :: "int \<Rightarrow> int \<Rightarrow> int" where
  "decimal_exp p q =
     (if q \<le> p then int (length (show_nat (nat (p div q))))
      else - int (length (takeWhile (\<lambda>i. p * 10 ^ Suc i < q) [0..<330])))"

text \<open>
  The decimals with \<open>n\<close> digits next to \<open>x = p / q\<close>, below and above, as multiples of \<open>10\<^sup>k\<^sup>-\<^sup>n\<close>: the
  one that rounds to \<open>x\<close>, of two the nearer, of two as near the upper.
\<close>

definition rounds_to :: "f64 \<Rightarrow> int \<Rightarrow> int \<Rightarrow> bool" where
  "rounds_to x j d \<longleftrightarrow> f64_round False (d * 10 ^ nat j) (10 ^ nat (- j)) = x"

definition try_digits :: "f64 \<Rightarrow> int \<Rightarrow> int \<Rightarrow> int \<Rightarrow> nat \<Rightarrow> (int \<times> int) option" where
  "try_digits x p q k n =
     (let j = k - int n; a = p * 10 ^ nat (- j); b = q * 10 ^ nat j; lo = a div b
      in if rounds_to x j (lo + 1) \<and> (\<not> rounds_to x j lo \<or> b \<le> 2 * (a mod b)) then Some (lo + 1, j)
         else if rounds_to x j lo then Some (lo, j) else None)"

text \<open>Seventeen digits are enough for binary64; the lemmas below show it of the numbers with at most fifteen.\<close>

definition shortest_decimal :: "int \<Rightarrow> int \<Rightarrow> (int \<times> int) option" where
  "shortest_decimal m e =
     (let p = m * 2 ^ nat e; q = 2 ^ nat (- e); k = decimal_exp p q
      in case filter (\<lambda>r. r \<noteq> None) (map (try_digits (F_Fin False m e) p q k) [1..<18]) of
           [] \<Rightarrow> None | r # rs \<Rightarrow> r)"

fun show_f64 :: "f64 \<Rightarrow> string" where
  "show_f64 F_NaN = ''NaN''"
| "show_f64 (F_Inf s) = (if s then ''-inf'' else ''inf'')"
| "show_f64 (F_Fin s m e) =
     (if s then ''-'' else []) @
     (if m = 0 then ''0''
      else case shortest_decimal m e of None \<Rightarrow> [] | Some (d, j) \<Rightarrow> decimal_text (nat d) j)"

section \<open>The text depends on the value only\<close>

lemma strip_zeros_snoc [simp]: "strip_zeros (s @ [digit_char 0]) = strip_zeros s"
  by (simp add: strip_zeros_def)

lemma point_text_scale: "point_text (10 * d) (Suc i) = point_text d i"
proof -
  have "10 * d mod 10 ^ Suc i = 10 * (d mod 10 ^ i)" by (simp only: power_Suc mult_mod_right)
  moreover have "10 * d div 10 ^ Suc i = d div 10 ^ i" by simp
  moreover have "fixed_digits (Suc i) (10 * f) = fixed_digits i f @ [digit_char 0]" for f by simp
  ultimately show ?thesis unfolding point_text_def Let_def
    by (simp del: fixed_digits.simps power_Suc add: strip_zeros_snoc)
qed

lemma point_text_scale_pow: "point_text (10 ^ n * d) (n + i) = point_text d i"
proof (induction n)
  case (Suc n)
  then show ?case using point_text_scale [of "10 ^ n * d" "n + i"] by (simp add: mult.assoc)
qed simp

lemma decimal_text_value:
  assumes "d * 10 ^ nat j * 10 ^ c = n * 10 ^ nat (- j)"
  shows "decimal_text d j = point_text n c"
proof -
  have "decimal_text d j = point_text (10 ^ c * (d * 10 ^ nat j)) (c + nat (- j))"
    by (simp only: decimal_text_def point_text_scale_pow)
  also have "\<dots> = point_text (10 ^ nat (- j) * n) (nat (- j) + c)"
    using assms by (simp add: mult.commute add.commute)
  finally show ?thesis by (simp only: point_text_scale_pow)
qed

section \<open>Powers of ten\<close>

definition tn :: "int \<Rightarrow> real" where
  "tn j = 10 powr real_of_int j"

lemma tn_pos [simp]: "0 < tn j"
  by (simp add: tn_def)

lemma tn_add: "tn (a + b) = tn a * tn b"
  by (simp add: tn_def powr_add)

lemma tn_le_iff [simp]: "tn a \<le> tn b \<longleftrightarrow> a \<le> b"
  by (simp add: tn_def)

lemma tn_less_iff [simp]: "tn a < tn b \<longleftrightarrow> a < b"
  by (simp add: tn_def)

lemma tn_nat: "0 \<le> j \<Longrightarrow> tn j = 10 ^ nat j"
  by (simp add: tn_def powr_realpow [symmetric])

lemma tn_minus_nat: "tn (- int n) = 1 / 10 ^ n"
  by (simp add: tn_def powr_minus powr_realpow [symmetric] divide_inverse)

lemma tn_quotient: "real_of_int (d * 10 ^ nat j) / of_int (10 ^ nat (- j)) = of_int d * tn j"
proof (cases "0 \<le> j")
  case True
  then show ?thesis by (simp add: tn_nat)
next
  case False
  then show ?thesis using tn_minus_nat [of "nat (- j)"] by simp
qed

lemma tn_quotient2:
  assumes "0 < q"
  shows "real_of_int (p * 10 ^ nat (- j)) / of_int (q * 10 ^ nat j) = of_int p / of_int q / tn j"
proof (cases "0 \<le> j")
  case True
  then show ?thesis by (simp add: tn_nat)
next
  case False
  then have "tn j = 1 / 10 ^ nat (- j)" using tn_minus_nat [of "nat (- j)"] by simp
  then show ?thesis using False by simp
qed

lemma show_nat_length: "0 < n \<Longrightarrow> 10 ^ (length (show_nat n) - 1) \<le> n \<and> n < 10 ^ length (show_nat n)"
proof (induction n rule: show_nat.induct)
  case (1 n)
  show ?case
  proof (cases "n < 10")
    case True
    then show ?thesis using 1(2) by (subst (1 2) show_nat.simps) simp
  next
    case False
    let ?l = "length (show_nat (n div 10))"
    have IH: "10 ^ (?l - 1) \<le> n div 10" "n div 10 < 10 ^ ?l" using 1(1) False by auto
    have "show_nat n = show_nat (n div 10) @ [digit_char (n mod 10)]" using False by (subst show_nat.simps) simp
    then have len: "length (show_nat n) = Suc ?l" by simp
    have "?l \<noteq> 0" by simp
    then have "10 * 10 ^ (?l - 1) = (10 :: nat) ^ ?l" by (simp flip: power_Suc)
    then have "10 ^ ?l \<le> n" "n < 10 * 10 ^ ?l" using IH by linarith+
    then show ?thesis unfolding len by simp
  qed
qed

lemma decimal_exp_bounds:
  assumes "0 < p" "0 < q" "tn (- 300) \<le> of_int p / of_int q"
  shows "tn (decimal_exp p q - 1) \<le> of_int p / of_int q" and "of_int p / of_int q < tn (decimal_exp p q)"
proof -
  let ?x = "real_of_int p / of_int q"
  have "tn (decimal_exp p q - 1) \<le> ?x \<and> ?x < tn (decimal_exp p q)"
  proof (cases "q \<le> p")
    case True
    define n where "n = nat (p div q)"
    have n: "0 < n" "int n = p div q" using True assms(2) by (simp_all add: n_def pos_imp_zdiv_pos_iff pos_imp_zdiv_nonneg_iff)
    have "\<lfloor>?x\<rfloor> = int n" using floor_divide_of_int_eq [of p q] n(2) by simp
    then have x: "real n \<le> ?x" "?x < real n + 1" by linarith+
    have k: "decimal_exp p q = int (length (show_nat n))" using True by (simp add: decimal_exp_def n_def)
    have l: "1 \<le> length (show_nat n)" by (simp add: Suc_le_eq)
    have "tn (decimal_exp p q - 1) = real (10 ^ (length (show_nat n) - 1))"
      using l unfolding k by (simp add: tn_nat nat_diff_distrib)
    also have "\<dots> \<le> real n" using show_nat_length [OF n(1)] by (simp only: of_nat_le_iff)
    finally have "tn (decimal_exp p q - 1) \<le> ?x" using x(1) by linarith
    moreover have "real n + 1 \<le> real (10 ^ length (show_nat n))" using show_nat_length [OF n(1)] by linarith
    then have "?x < tn (decimal_exp p q)" using x(2) unfolding k by (simp add: tn_nat)
    ultimately show ?thesis by blast
  next
    case False
    let ?P = "\<lambda>i. p * 10 ^ Suc i < q"
    define c where "c = length (takeWhile ?P [0..<330])"
    have k: "decimal_exp p q = - int c" using False by (simp add: decimal_exp_def c_def)
    have P: "?P i \<longleftrightarrow> ?x < tn (- int (Suc i))" for i
    proof -
      have "?P i \<longleftrightarrow> real_of_int (p * 10 ^ Suc i) < of_int q" by (simp only: of_int_less_iff)
      also have "\<dots> \<longleftrightarrow> ?x < tn (- int (Suc i))" using assms(2) by (simp only: tn_minus_nat) (simp add: field_simps)
      finally show ?thesis .
    qed
    have "c < 330"
    proof (rule ccontr)
      assume "\<not> c < 330"
      moreover have "c \<le> 330" using length_takeWhile_le [of ?P "[0..<330]"] by (simp add: c_def)
      ultimately have "takeWhile ?P [0..<330] = [0..<330]" using takeWhile_eq_take [of ?P "[0..<330]"] by (simp add: c_def)
      then have "\<forall>i \<in> set [0..<330]. ?P i" by (simp only: takeWhile_eq_all_conv)
      moreover have "329 \<in> set [0..<330 :: nat]" by simp
      ultimately have "?P 329" by blast
      then have "?x < tn (- int (Suc 329))" by (simp only: P)
      moreover have "tn (- int (Suc 329)) < tn (- 300)" by simp
      ultimately show False using assms(3) by linarith
    qed
    then have "\<not> ?P c" using nth_length_takeWhile [of ?P "[0..<330]"] by (simp add: c_def)
    then have "tn (- int (Suc c)) \<le> ?x" unfolding P by linarith
    moreover have "- int c - 1 = - int (Suc c)" by simp
    ultimately have low: "tn (decimal_exp p q - 1) \<le> ?x" unfolding k by (simp only:)
    have "?x < tn (- int c)"
    proof (cases c)
      case 0
      have "?x < 1" using False assms(2) by simp
      then show ?thesis by (simp add: 0 tn_def)
    next
      case (Suc c')
      then have "c' < length (takeWhile ?P [0..<330])" by (simp add: c_def)
      then have "takeWhile ?P [0..<330] ! c' \<in> set (takeWhile ?P [0..<330])" by (rule nth_mem)
      then have "?P ([0..<330] ! c')" using takeWhile_nth [of c' ?P "[0..<330]"] Suc \<open>c < 330\<close>
        by (metis (no_types, lifting) c_def lessI set_takeWhileD)
      then have "?P c'" using Suc \<open>c < 330\<close> by simp
      then have "?x < tn (- int (Suc c'))" by (simp only: P)
      then show ?thesis by (simp only: Suc)
    qed
    then show ?thesis using low by (simp add: k)
  qed
  then show "tn (decimal_exp p q - 1) \<le> ?x" "?x < tn (decimal_exp p q)" by blast+
qed


section \<open>Decimals of at most fifteen digits\<close>

lemma f64_is_unique:
  assumes "f64_is a x" "f64_is b x" "x \<noteq> 0"
  shows "a = b"
proof -
  have less: False if "0 \<le> m" "m < 2 ^ 53" "2 ^ 52 \<le> m'" "of_int m * pw e = of_int m' * pw e'" "e < e'"
    for m m' e e' :: int
  proof -
    have "pw e' = of_int (2 ^ nat (e' - e)) * pw e" using that(5) by (intro pw_int_multiple) simp
    then have "real_of_int m * pw e = of_int (m' * 2 ^ nat (e' - e)) * pw e" using that(4) by (simp add: mult.assoc)
    then have "m = m' * 2 ^ nat (e' - e)" by (simp only: mult_cancel_right pw_ne_0 of_int_eq_iff) simp
    moreover have "(2 :: int) ^ 1 \<le> 2 ^ nat (e' - e)" using that(5) by (intro power_increasing) simp_all
    then have "m' * 2 ^ 1 \<le> m' * 2 ^ nat (e' - e)" using that(3) by (intro mult_left_mono) simp_all
    ultimately show False using that(2,3) by simp
  qed
  obtain s m e where a: "a = F_Fin s m e" "0 \<le> m" "m < 2 ^ 53" "- 1074 \<le> e" "2 ^ 52 \<le> m \<or> e = - 1074"
    "x = of_int (sgn_of s) * (of_int m * pw e)"
    using assms(1) by (cases a) (auto simp: f64_is_def)
  obtain s' m' e' where b: "b = F_Fin s' m' e'" "0 \<le> m'" "m' < 2 ^ 53" "- 1074 \<le> e'" "2 ^ 52 \<le> m' \<or> e' = - 1074"
    "x = of_int (sgn_of s') * (of_int m' * pw e')"
    using assms(2) by (cases b) (auto simp: f64_is_def)
  have pos: "0 < of_int m * pw e" "0 < of_int m' * pw e'"
    using a(2,6) b(2,6) assms(3) by (auto simp: less_le)
  have s: "s = s'" using pos a(6) b(6) by (cases s; cases s') auto
  then have eq: "of_int m * pw e = of_int m' * pw e'" using a(6) b(6) by (cases s) auto
  have "\<not> e < e'" using less [OF a(2,3) _ eq] b(5) a(4) by auto
  moreover have "\<not> e' < e" using less [OF b(2,3) _ eq [symmetric]] a(5) b(4) by auto
  ultimately have "e = e'" by simp
  then show ?thesis using eq s by (simp add: a(1) b(1))
qed

lemma filter_map_first:
  assumes "f n \<noteq> None" "1 \<le> n" "n < b"
  obtains n1 rs where "1 \<le> n1" "n1 \<le> n" "f n1 \<noteq> None" "filter (\<lambda>r. r \<noteq> None) (map f [1..<b]) = f n1 # rs"
proof -
  have "[1..<b] = [1..<Suc n] @ [Suc n..<b]"
    using assms(2,3) upt_add_eq_append [of 1 "Suc n" "b - Suc n"] by simp
  then have split: "filter (\<lambda>r. r \<noteq> None) (map f [1..<b]) =
      filter (\<lambda>r. r \<noteq> None) (map f [1..<Suc n]) @ filter (\<lambda>r. r \<noteq> None) (map f [Suc n..<b])" by simp
  have "f n \<in> set (filter (\<lambda>r. r \<noteq> None) (map f [1..<Suc n]))" using assms(1,2) by auto
  then obtain r rs where r: "filter (\<lambda>r. r \<noteq> None) (map f [1..<Suc n]) = r # rs"
    by (metis list.exhaust list.distinct(1) list.set_cases)
  then have "r \<in> set (filter (\<lambda>r. r \<noteq> None) (map f [1..<Suc n]))" by simp
  then obtain n1 where "1 \<le> n1" "n1 \<le> n" "f n1 \<noteq> None" "r = f n1" by auto
  moreover have "filter (\<lambda>r. r \<noteq> None) (map f [1..<b]) = r # (rs @ filter (\<lambda>r. r \<noteq> None) (map f [Suc n..<b]))"
    by (simp only: split r append_Cons)
  ultimately show ?thesis using that by blast
qed

text \<open>A finite number that the decimal \<open>n / 10\<^sup>6\<close> is rounded to.\<close>

definition short_decimal :: "int \<Rightarrow> int \<Rightarrow> int \<Rightarrow> bool" where
  "short_decimal n m e \<longleftrightarrow> 0 < n \<and> n < 10 ^ 15 \<and> f64_is (F_Fin False m e) (rnd (of_int n / 10 ^ 6))"

lemma rnd_close:
  assumes "tn (- 100) \<le> v"
  shows "\<bar>rnd v - v\<bar> \<le> v / 2 ^ 53"
proof -
  have "pw (- 1022) \<le> tn (- 100)"
  proof -
    have "(10 :: real) ^ 100 \<le> 2 ^ 1022" by simp
    then have "1 / (2 :: real) ^ 1022 \<le> 1 / 10 ^ 100" by (intro divide_left_mono) simp_all
    then show ?thesis using tn_minus_nat [of 100] pw_uminus [of 1022] by (simp add: pw_nat)
  qed
  then have "\<bar>rnd v - v\<bar> \<le> v * pw (- 53)" using assms by (intro rnd_rel_error) linarith
  then show ?thesis by (simp add: pw_uminus [of 53] pw_nat)
qed

lemma short_decimal_bounds:
  assumes "short_decimal n m e"
  defines "v \<equiv> real_of_int n / 10 ^ 6"
  shows "1 / 10 ^ 6 \<le> v" "\<bar>rnd v - v\<bar> \<le> v / 2 ^ 53" "tn (- 7) < rnd v" "rnd v < tn 9" "v < 10 ^ 9"
    and "0 < m" "real_of_int (m * 2 ^ nat e) / of_int (2 ^ nat (- e)) = rnd v"
proof -
  have n: "1 \<le> real_of_int n" "real_of_int n \<le> 10 ^ 15 - 1" using assms(1) by (simp_all add: short_decimal_def)
  then show v1: "1 / 10 ^ 6 \<le> v" by (simp add: v_def)
  have v2: "v \<le> 10 ^ 9 - 1 / 10 ^ 6" using n by (simp add: v_def)
  then have "v < 10 ^ 9" "0 < v" using v1 by simp_all
  then show "v < 10 ^ 9" by simp
  have "tn (- 100) \<le> tn (- 6)" by simp
  also have "tn (- 6) = 1 / 10 ^ 6" using tn_minus_nat [of 6] by simp
  finally show err: "\<bar>rnd v - v\<bar> \<le> v / 2 ^ 53" using v1 by (intro rnd_close) linarith
  have t7: "tn (- 7) = 1 / 10 ^ 7" using tn_minus_nat [of 7] by simp
  have "v / 2 ^ 53 \<le> v / 2" "v / 2 ^ 53 \<le> 10 ^ 9 / 2 ^ 53" using v1 v2 by (simp_all add: field_simps)
  have "v / 2 \<le> rnd v" using err \<open>v / 2 ^ 53 \<le> v / 2\<close> by linarith
  moreover have "1 / 10 ^ 7 < v / 2" using v1 by simp
  ultimately show "tn (- 7) < rnd v" unfolding t7 by linarith
  have t9: "tn 9 = 10 ^ 9" by (simp add: tn_nat)
  have "(10 :: real) ^ 9 / 2 ^ 53 < 1 / 10 ^ 6" by simp
  then show "rnd v < tn 9" using err v2 \<open>v / 2 ^ 53 \<le> 10 ^ 9 / 2 ^ 53\<close> unfolding t9 by linarith
  have val: "of_int m * pw e = rnd v" and m: "0 \<le> m" using assms(1) by (auto simp: short_decimal_def f64_is_def v_def)
  moreover have "0 < rnd v" using \<open>tn (- 7) < rnd v\<close> by (rule less_trans [OF tn_pos])
  ultimately have "m \<noteq> 0" by auto
  then show "0 < m" using m by simp
  show "real_of_int (m * 2 ^ nat e) / of_int (2 ^ nat (- e)) = rnd v"
  proof -
    have "real_of_int (m * 2 ^ nat e) / of_int (2 ^ nat (- e)) = of_int m * (2 ^ nat e / 2 ^ nat (- e))" by simp
    then show ?thesis unfolding pow_split val .
  qed
qed

lemma rounds_to_rnd:
  assumes "0 \<le> d" "rnd (of_int d * tn j) < pw 1024" "f64_is x X" "0 < X" "\<not> (\<exists>m e. x = F_Fin True m e)"
  shows "rounds_to x j d \<longleftrightarrow> rnd (of_int d * tn j) = X"
proof -
  have "f64_is (f64_round False (d * 10 ^ nat j) (10 ^ nat (- j))) (rnd (of_int d * tn j))"
    using f64_round_is [of "d * 10 ^ nat j" "10 ^ nat (- j)" False] assms(1,2) unfolding tn_quotient
    by (simp add: rnds_nonneg less_imp_le)
  then show ?thesis using assms(3,4) f64_is_unique by (auto simp: rounds_to_def f64_is_def)
qed

text \<open>Of the decimals with at most fifteen digits only \<open>n / 10\<^sup>6\<close> is rounded to the number.\<close>

lemma short_decimal_only:
  assumes sd: "short_decimal n m e" and k: "rnd (of_int n / 10 ^ 6) < tn k" and j: "j = k - int c" "c \<le> 15" "- 50 \<le> j"
    and d: "0 \<le> d" "rnd (of_int d * tn j) = rnd (of_int n / 10 ^ 6)"
  shows "of_int d * tn j = real_of_int n / 10 ^ 6"
proof -
  define v w where "v = real_of_int n / 10 ^ 6" and "w = of_int d * tn j"
  note b = short_decimal_bounds [OF sd, folded v_def]
  have d1: "1 \<le> real_of_int d"
  proof (rule ccontr)
    assume "\<not> 1 \<le> real_of_int d"
    then have "d = 0" using d(1) by linarith
    then have "rnd v = 0" using d(2) by (simp add: v_def)
    then show False using b(3) tn_pos [of "- 7"] by simp
  qed
  have "tn (- 100) \<le> tn j" using j(3) by simp
  also have "tn j \<le> w" using d1 mult_right_mono [of 1 "real_of_int d" "tn j"] by (simp add: w_def less_imp_le)
  finally have w: "\<bar>rnd v - w\<bar> \<le> w / 2 ^ 53" using rnd_close [of w] d(2) by (simp add: v_def w_def)
  have "v / 2 ^ 53 \<le> v / 2" "0 < v" using b(1) by simp_all
  then have v2: "v \<le> 2 * rnd v" using b(2) by linarith
  have "0 < w" using d1 by (simp add: w_def)
  then have "w / 2 ^ 53 \<le> w / 2" by simp
  then have w2: "w \<le> 2 * rnd v" using w by linarith
  have "v / 2 ^ 53 \<le> 2 * rnd v / 2 ^ 53" "w / 2 ^ 53 \<le> 2 * rnd v / 2 ^ 53"
    using v2 w2 by (simp_all add: divide_right_mono)
  then have close: "\<bar>v - w\<bar> \<le> 4 * rnd v / 2 ^ 53" using b(2) w by linarith
  have "v = w"
  proof (cases "j \<le> - 6")
    case True
    have "v = of_int (n * 10 ^ nat (- 6 - j)) * tn j"
    proof -
      have "tn (- 6) = tn (- 6 - j) * tn j" by (simp flip: tn_add)
      then show ?thesis using True tn_minus_nat [of 6] tn_nat [of "- 6 - j"] by (simp add: v_def)
    qed
    then have diff: "v - w = of_int (n * 10 ^ nat (- 6 - j) - d) * tn j" by (simp add: w_def algebra_simps)
    have "tn k = tn (int c) * tn j" unfolding j(1) by (simp flip: tn_add)
    moreover have "tn (int c) \<le> tn 15" using j(2) by simp
    ultimately have "tn k \<le> tn 15 * tn j" by (simp add: mult_right_mono less_imp_le)
    then have "4 * rnd v / 2 ^ 53 < 4 * (10 ^ 15 * tn j) / 2 ^ 53" using k by (simp add: v_def tn_nat)
    also have "\<dots> \<le> tn j" using tn_pos [of j] by simp
    finally have "\<bar>real_of_int (n * 10 ^ nat (- 6 - j) - d)\<bar> * tn j < 1 * tn j"
      using close unfolding diff by (simp only: abs_mult abs_of_pos [OF tn_pos])
    then have "\<bar>real_of_int (n * 10 ^ nat (- 6 - j) - d)\<bar> < 1" by (simp only: mult_less_cancel_right_pos [OF tn_pos])
    then have "n * 10 ^ nat (- 6 - j) - d = 0" by linarith
    then show ?thesis using diff by simp
  next
    case False
    have "w = of_int (d * 10 ^ nat (j + 6)) / 10 ^ 6"
    proof -
      have "tn j = tn (j + 6) * tn (- 6)" by (simp flip: tn_add)
      then show ?thesis using False tn_minus_nat [of 6] tn_nat [of "j + 6"] by (simp add: w_def)
    qed
    then have diff: "v - w = of_int (n - d * 10 ^ nat (j + 6)) / 10 ^ 6" by (simp add: v_def diff_divide_distrib)
    have "4 * rnd v / 2 ^ 53 < 4 * 10 ^ 9 / 2 ^ 53" using b(4) by (simp add: tn_nat)
    also have "\<dots> \<le> 1 / 10 ^ 6" by simp
    finally have "\<bar>real_of_int (n - d * 10 ^ nat (j + 6))\<bar> < 1" using close unfolding diff by simp
    then have "n - d * 10 ^ nat (j + 6) = 0" by linarith
    then show ?thesis using diff by simp
  qed
  then show ?thesis by (simp add: v_def w_def)
qed


text \<open>The search finds it.\<close>

lemma short_decimal_try:
  assumes sd: "short_decimal n m e"
  defines "p \<equiv> m * 2 ^ nat e" and "q \<equiv> 2 ^ nat (- e)" and "X \<equiv> rnd (real_of_int n / 10 ^ 6)"
  assumes k: "k = decimal_exp p q"
  shows "\<exists>c. 1 \<le> c \<and> c \<le> 15 \<and> try_digits (F_Fin False m e) p q k c \<noteq> None"
    and "\<And>c d j. c \<le> 15 \<Longrightarrow> try_digits (F_Fin False m e) p q k c = Some (d, j) \<Longrightarrow>
      0 \<le> d \<and> of_int d * tn j = real_of_int n / 10 ^ 6"
proof -
  define v where "v = real_of_int n / 10 ^ 6"
  note b = short_decimal_bounds [OF sd, folded v_def]
  have X: "X = rnd v" by (simp add: X_def v_def)
  have pq: "0 < p" "0 < q" "real_of_int p / of_int q = X" using b(6,7) by (simp_all add: p_def q_def X)
  have "tn (- 300) \<le> tn (- 7)" by simp
  then have x300: "tn (- 300) \<le> X" using b(3) unfolding X by linarith
  note dx = decimal_exp_bounds [OF pq(1,2), unfolded pq(3), OF x300, folded k]
  have "tn (- 7) < tn k" "tn (k - 1) < tn 9" using dx b(3,4) unfolding X by linarith+
  then have kb: "- 6 \<le> k" "k \<le> 9" by simp_all
  have isX: "f64_is (F_Fin False m e) X" using sd by (simp add: short_decimal_def X_def)
  have Xpos: "0 < X" using b(3) tn_pos [of "- 7"] unfolding X by linarith
  have rt: "rounds_to (F_Fin False m e) j d \<longleftrightarrow> rnd (of_int d * tn j) = X" if "0 \<le> d" "of_int d * tn j \<le> pw 1000" for d j
    by (rule rounds_to_rnd) (use that isX Xpos rnd_small [of "of_int d * tn j"] in \<open>simp_all add: less_imp_le\<close>)
  have quot: "real_of_int (p * 10 ^ nat (- j)) / of_int (q * 10 ^ nat j) = X / tn j" for j
    using tn_quotient2 [OF pq(2), of p j] pq(3) by simp
  have lo: "(p * 10 ^ nat (- j)) div (q * 10 ^ nat j) = \<lfloor>X / tn j\<rfloor>" for j
    using floor_divide_of_int_eq [of "p * 10 ^ nat (- j)" "q * 10 ^ nat j", where 'a = real] unfolding quot by simp
  have big: "of_int d * tn j \<le> pw 1000" if "of_int d \<le> X / tn j + 1" "tn j \<le> 10 ^ 9" for d j
  proof -
    have "of_int d * tn j \<le> (X / tn j + 1) * tn j" using that(1) by (simp add: mult_right_mono less_imp_le)
    also have "\<dots> = X + tn j" using tn_pos [of j] by (simp add: algebra_simps del: tn_pos)
    also have "\<dots> \<le> 10 ^ 9 + 10 ^ 9" using b(4) that(2) unfolding X by (simp add: tn_nat)
    also have "\<dots> \<le> pw 1000" by (simp add: pw_nat)
    finally show ?thesis .
  qed
  have tj: "tn (k - int c) \<le> 10 ^ 9" for c using tn_le_iff [of "k - int c" 9] kb by (simp add: tn_nat)
  have "0 \<le> X / tn j" for j using Xpos by (intro divide_nonneg_pos) simp_all
  then have fl: "0 \<le> \<lfloor>X / tn j\<rfloor>" "of_int \<lfloor>X / tn j\<rfloor> \<le> X / tn j" for j by simp_all
  have cand: "0 \<le> d \<and> of_int d * tn j = real_of_int n / 10 ^ 6"
    if "c \<le> 15" "try_digits (F_Fin False m e) p q k c = Some (d, j)" for c d j
  proof -
    have j: "j = k - int c" and d: "rounds_to (F_Fin False m e) j d" "d = \<lfloor>X / tn j\<rfloor> \<or> d = \<lfloor>X / tn j\<rfloor> + 1"
      using that(2) by (auto simp: try_digits_def Let_def lo simp del: minus_diff_eq split: if_splits)
    have "of_int d \<le> X / tn j + 1" using d(2) by linarith
    then have d0: "0 \<le> d" "of_int d \<le> X / tn j + 1" using d(2) fl(1) [of j] by auto
    have "rnd (of_int d * tn j) = X" using d(1) rt [OF d0(1) big [OF d0(2)]] tj j by simp
    then show ?thesis using short_decimal_only [OF sd, of k j c d] dx(2) j that(1) kb d0(1) by (simp add: X_def)
  qed
  then show "\<And>c d j. c \<le> 15 \<Longrightarrow> try_digits (F_Fin False m e) p q k c = Some (d, j) \<Longrightarrow>
      0 \<le> d \<and> of_int d * tn j = real_of_int n / 10 ^ 6" by blast
  define c where "c = nat (max 1 (k + 6))"
  have c: "1 \<le> c" "c \<le> 15" "k - int c \<le> - 6" using kb by (auto simp: c_def)
  let ?j = "k - int c"
  define d where "d = n * 10 ^ nat (- 6 - ?j)"
  have dv: "of_int d * tn ?j = v"
  proof -
    have "tn (- 6) = tn (- 6 - ?j) * tn ?j" by (simp flip: tn_add)
    then show ?thesis using c(3) tn_minus_nat [of 6] tn_nat [of "- 6 - ?j"] by (simp add: v_def d_def)
  qed
  have d0: "0 \<le> d" using sd by (simp add: d_def short_decimal_def)
  have vp: "v < 10 ^ 9" "v \<le> pw 1000" using b(5) by (simp_all add: pw_nat)
  have ok: "rounds_to (F_Fin False m e) ?j d" using rt [OF d0, of ?j] vp(2) unfolding dv by (simp add: X)
  have "\<bar>X / tn ?j - of_int d\<bar> < 1"
  proof -
    have "\<bar>X - v\<bar> \<le> v / 2 ^ 53" using b(2) by (simp add: X)
    moreover have "v / 2 ^ 53 \<le> v / 2" using b(1) by simp
    then have "v \<le> 2 * X" using b(2) unfolding X by linarith
    moreover have "X < tn k" by (rule dx(2))
    moreover have "tn k \<le> 10 ^ 15 * tn ?j"
    proof -
      have "tn k = tn (int c) * tn ?j" by (simp flip: tn_add)
      moreover have "tn (int c) \<le> tn 15" using c(2) by simp
      ultimately show ?thesis by (simp add: mult_right_mono less_imp_le tn_nat)
    qed
    ultimately have err: "\<bar>X - v\<bar> \<le> v / 2 ^ 53" and "v \<le> 2 * (10 ^ 15 * tn ?j)" by simp_all
    then have "v / 2 ^ 53 \<le> 2 * (10 ^ 15 * tn ?j) / 2 ^ 53" by (simp add: divide_right_mono)
    also have "\<dots> < tn ?j" using tn_pos [of ?j] by simp
    finally have "\<bar>X - of_int d * tn ?j\<bar> < 1 * tn ?j" unfolding dv using err by simp
    moreover have "X - of_int d * tn ?j = (X / tn ?j - of_int d) * tn ?j" using tn_pos [of ?j] by (simp add: algebra_simps del: tn_pos)
    ultimately show ?thesis by (simp only: abs_mult abs_of_pos [OF tn_pos] mult_less_cancel_right_pos [OF tn_pos])
  qed
  then have "d = \<lfloor>X / tn ?j\<rfloor> \<or> d = \<lfloor>X / tn ?j\<rfloor> + 1" by linarith
  then have "try_digits (F_Fin False m e) p q k c \<noteq> None"
    using ok by (auto simp: try_digits_def Let_def lo simp del: minus_diff_eq)
  then show "\<exists>c. 1 \<le> c \<and> c \<le> 15 \<and> try_digits (F_Fin False m e) p q k c \<noteq> None" using c by blast
qed

text \<open>So the text is that of the decimal.\<close>

lemma show_short_decimal:
  assumes sd: "short_decimal n m e"
  shows "show_f64 (F_Fin s m e) = (if s then ''-'' else []) @ point_text (nat n) 6"
proof -
  define p q k where "p = m * 2 ^ nat e" and "q = (2 :: int) ^ nat (- e)" and "k = decimal_exp p q"
  note t = short_decimal_try [OF sd, folded p_def q_def, OF k_def]
  let ?f = "try_digits (F_Fin False m e) p q k"
  obtain c where c: "1 \<le> c" "c \<le> 15" "?f c \<noteq> None" using t(1) by blast
  have "c < 18" using c(2) by simp
  from filter_map_first [of ?f, OF c(3,1) this] obtain c1 rs where
    c1: "c1 \<le> c" "?f c1 \<noteq> None" "filter (\<lambda>r. r \<noteq> None) (map ?f [1..<18]) = ?f c1 # rs" by blast
  obtain d j where dj: "?f c1 = Some (d, j)" using c1(2) by auto
  then have d: "0 \<le> d" "of_int d * tn j = real_of_int n / 10 ^ 6" using t(2) [of c1 d j] c1(1) c(2) by auto
  have "shortest_decimal m e = Some (d, j)"
    unfolding shortest_decimal_def Let_def p_def [symmetric] q_def [symmetric] k_def [symmetric] c1(3) dj by simp
  moreover have "decimal_text (nat d) j = point_text (nat n) 6"
  proof (rule decimal_text_value)
    have "real_of_int (d * 10 ^ nat j) / of_int (10 ^ nat (- j)) = real_of_int n / 10 ^ 6" using d(2) tn_quotient by simp
    then have "real_of_int (d * 10 ^ nat j) * 10 ^ 6 = real_of_int n * of_int (10 ^ nat (- j))"
      by (subst (asm) frac_eq_eq) simp_all
    then have "real_of_int (d * 10 ^ nat j * 10 ^ 6) = of_int (n * 10 ^ nat (- j))" by simp
    then have "d * 10 ^ nat j * 10 ^ 6 = n * 10 ^ nat (- j)" by (simp only: of_int_eq_iff)
    moreover have "0 \<le> n" using sd by (simp add: short_decimal_def)
    ultimately have "int (nat d * 10 ^ nat j * 10 ^ 6) = int (nat n * 10 ^ nat (- j))" using d(1) by simp
    then show "nat d * 10 ^ nat j * 10 ^ 6 = nat n * 10 ^ nat (- j)" by (simp only: of_nat_eq_iff)
  qed
  moreover have "m \<noteq> 0" using short_decimal_bounds(6) [OF sd] by simp
  ultimately show ?thesis by simp
qed

end
