(* ===== verification/Message_Text.thy ===== *)
theory Message_Text
  imports Message Float_Text
begin

text \<open>
  The text of the two messages, the \<open>Display\<close> implementations of \<open>shmbus/src/message.rs\<close>. Prices are
  integers in millionths and pass through a division of \<open>f64\<close>; the lemmas show that the text is exact all
  the same, as long as the price has at most fifteen digits.
\<close>

section \<open>Display\<close>

definition px_f64 :: "i64 \<Rightarrow> f64" where
  "px_f64 px = f64_div (f64_of_i64 px) (f64_lit 1000000 1)"

definition show_tick :: "market_tick \<Rightarrow> u8 list" where
  "show_tick t =
     tick_symbol_str t @ utf8_bytes ('' bid='' @ show_nat (unat (mt_bid_sz t)) @ ''@'' @ show_f64 (px_f64 (mt_bid_px t)) @
       '' ask='' @ show_nat (unat (mt_ask_sz t)) @ ''@'' @ show_f64 (px_f64 (mt_ask_px t)) @
       '' seq='' @ show_nat (unat (mt_seq_num t)))"

definition side_text :: "u8 \<Rightarrow> string" where
  "side_text b = (case side_from_u8 b of Some Buy \<Rightarrow> ''BUY'' | Some Sell \<Rightarrow> ''SELL'' | None \<Rightarrow> ''?'')"

definition show_order :: "order_msg \<Rightarrow> u8 list" where
  "show_order m =
     utf8_bytes (side_text (om_side m) @ '' '') @ order_symbol_str m @
     utf8_bytes ('' '' @ show_nat (unat (om_qty m)) @ ''@'' @ show_f64 (px_f64 (om_px m)) @
       '' id='' @ show_nat (unat (om_order_id m)))"

section \<open>Prices in full\<close>

definition price_text :: "int \<Rightarrow> string" where
  "price_text px = (if px < 0 then ''-'' else []) @ point_text (nat \<bar>px\<bar>) 6"

text \<open>Reading it back, in millionths.\<close>

definition digits_val :: "string \<Rightarrow> nat" where
  "digits_val s = foldl (\<lambda>a c. a * 10 + digit_val c) 0 s"

definition read_units :: "string \<Rightarrow> nat" where
  "read_units s =
     (case split_once CHR ''.'' s of
        None \<Rightarrow> digits_val s * 10 ^ 6
      | Some (w, f) \<Rightarrow> digits_val w * 10 ^ 6 + digits_val f * 10 ^ (6 - length f))"

definition read_price :: "string \<Rightarrow> int" where
  "read_price s = (if s \<noteq> [] \<and> hd s = CHR ''-'' then - int (read_units (tl s)) else int (read_units s))"

lemma digits_val_snoc [simp]: "digits_val (s @ [c]) = digits_val s * 10 + digit_val c"
  by (simp add: digits_val_def)

lemma digits_val_Nil [simp]: "digits_val [] = 0"
  by (simp add: digits_val_def)

lemma digits_val_show_nat: "digits_val (show_nat n) = n"
proof (induction n rule: show_nat.induct)
  case (1 n)
  show ?case
  proof (cases "n < 10")
    case True
    then show ?thesis by (subst show_nat.simps) (simp add: digits_val_def)
  next
    case False
    then show ?thesis using 1 by (subst show_nat.simps) simp
  qed
qed

lemma digits_val_zeros: "digits_val (s @ replicate k (digit_char 0)) = digits_val s * 10 ^ k"
proof (induction k)
  case (Suc k)
  have "s @ replicate (Suc k) (digit_char 0) = (s @ replicate k (digit_char 0)) @ [digit_char 0]"
    by (simp add: replicate_append_same)
  then show ?case using Suc by (simp only: digits_val_snoc) simp
qed simp

lemma fixed_digits_val: "f < 10 ^ n \<Longrightarrow> digits_val (fixed_digits n f) = f"
proof (induction n arbitrary: f)
  case (Suc n)
  have "f div 10 < 10 ^ n" using Suc.prems by (simp add: less_mult_imp_div_less mult.commute)
  then show ?case using Suc.IH by simp
qed simp

lemma length_fixed_digits [simp]: "length (fixed_digits n f) = n"
  by (induction n arbitrary: f) simp_all

lemma fixed_digits_digit: "c \<in> set (fixed_digits n f) \<Longrightarrow> is_digit c"
  by (induction n arbitrary: f) auto

lemma strip_zeros_split: "\<exists>k. s = strip_zeros s @ replicate k (digit_char 0)"
proof -
  have t: "takeWhile P xs = replicate (length (takeWhile P xs)) c" if "\<And>x. P x \<Longrightarrow> x = c" for P xs and c :: char
    using that by (intro replicate_length_same [symmetric]) (auto dest: set_takeWhileD)
  let ?P = "\<lambda>c. c = digit_char 0"
  have "rev s = takeWhile ?P (rev s) @ dropWhile ?P (rev s)" by simp
  then have "s = strip_zeros s @ rev (takeWhile ?P (rev s))" unfolding strip_zeros_def by (metis rev_append rev_rev_ident)
  then show ?thesis using t [of ?P "digit_char 0" "rev s"] by (metis rev_replicate)
qed

lemma strip_zeros_val:
  assumes "f < 10 ^ 6"
  shows "digits_val (strip_zeros (fixed_digits 6 f)) * 10 ^ (6 - length (strip_zeros (fixed_digits 6 f))) = f"
proof -
  let ?s = "fixed_digits 6 f"
  obtain k where k: "?s = strip_zeros ?s @ replicate k (digit_char 0)" using strip_zeros_split by blast
  then have "length ?s = length (strip_zeros ?s) + k" by (metis length_append length_replicate)
  then have len: "6 - length (strip_zeros ?s) = k" by simp
  have "f = digits_val ?s" using fixed_digits_val [OF assms] by simp
  also have "\<dots> = digits_val (strip_zeros ?s) * 10 ^ k" using k digits_val_zeros by metis
  finally show ?thesis unfolding len by simp
qed

lemma show_nat_no_point [simp]: "CHR ''.'' \<notin> set (show_nat n)"
  using show_nat_digits [of "CHR ''.''" n] by (auto simp: is_digit_def)

lemma read_point_text: "read_units (point_text n 6) = n"
proof (cases "n mod 10 ^ 6 = 0")
  case True
  then have "n div 10 ^ 6 * 10 ^ 6 = n" by auto
  then show ?thesis using True
    by (simp add: point_text_def read_units_def digits_val_show_nat split_once_None [THEN iffD2])
next
  case False
  have "n mod 10 ^ 6 < 10 ^ 6" by simp
  moreover have "n div 10 ^ 6 * 10 ^ 6 + n mod 10 ^ 6 = n" by (rule div_mult_mod_eq)
  ultimately show ?thesis using False strip_zeros_val [of "n mod 10 ^ 6"]
    by (simp add: point_text_def read_units_def split_once_sep digits_val_show_nat del: fixed_digits.simps)
qed

lemma read_price_text: "read_price (price_text px) = px"
proof -
  have ne: "point_text n 6 \<noteq> []" for n by (simp add: point_text_def Let_def)
  have "hd (point_text n 6) = hd (show_nat (n div 10 ^ 6))" for n by (simp add: point_text_def Let_def)
  then have "hd (point_text n 6) \<noteq> CHR ''-''" for n
    using show_nat_hd_last(1) [of "n div 10 ^ 6"] not_digit_signs(2) by metis
  then show ?thesis using ne by (auto simp: read_price_def price_text_def read_point_text)
qed

lemma rnds_abs: "\<bar>rnds y\<bar> = rnd \<bar>y\<bar>"
  using rnd_nonneg [of "\<bar>y\<bar>"] by (auto simp: rnds_def)

lemma rnds_neg_iff: "rnds y \<noteq> 0 \<Longrightarrow> rnds y < 0 \<longleftrightarrow> y < 0"
  using rnd_nonneg [of y] rnd_nonneg [of "- y"] by (cases "y < 0") (simp_all add: rnds_def)

lemma show_px:
  assumes "\<bar>sint px\<bar> < 10 ^ 15"
  shows "show_f64 (px_f64 px) = price_text (sint px)"
proof (cases "sint px = 0")
  case True
  then have "px = 0" by (simp only: signed_eq_0_iff)
  moreover have "f64_lit 1000000 1 = F_Fin False 8589934592000000 (- 33)" by code_simp
  then have "show_f64 (px_f64 0) = ''0''" by (simp add: px_f64_def f64_of_i64_def f64_of_int_def f64_round_def)
  moreover have "price_text 0 = ''0''" by code_simp
  ultimately show ?thesis by simp
next
  case False
  let ?y = "real_of_int (sint px) / 10 ^ 6"
  have "real_of_int \<bar>sint px\<bar> < of_int (10 ^ 15)" using assms by (simp only: of_int_less_iff)
  then have a: "\<bar>real_of_int (sint px)\<bar> < 10 ^ 15" by simp
  have "rnds (real_of_int (sint px)) = real_of_int (sint px)"
    using rnd_of_int [of "\<bar>sint px\<bar>"] assms by (auto simp: rnds_def)
  then have i: "f64_is (f64_of_i64 px) (of_int (sint px))" using f64_of_i64_is [of px] by simp
  have "\<bar>?y\<bar> \<le> pw 1000"
  proof -
    have "\<bar>?y\<bar> \<le> 10 ^ 15" using a by simp
    also have "\<dots> \<le> pw 1000" by (simp add: pw_nat)
    finally show ?thesis .
  qed
  then have is_px: "f64_is (px_f64 px) (rnds ?y)"
    using f64_div_is [OF i f64_lit_small_is [of 1000000]] by (simp add: px_f64_def)
  obtain s m e where sme: "px_f64 px = F_Fin s m e" "0 \<le> m" "rnds ?y = of_int (sgn_of s) * (of_int m * pw e)"
    using is_px by (rule f64_isE)
  have "f64_is (F_Fin False m e) (rnd (of_int \<bar>sint px\<bar> / 10 ^ 6))"
    using f64_abs_is [OF is_px] by (simp add: sme(1) rnds_abs)
  then have sd: "short_decimal \<bar>sint px\<bar> m e" using assms False by (simp add: short_decimal_def)
  have sign: "real_of_int k / 10 ^ 6 < 0 \<longleftrightarrow> k < 0" for k by (simp add: divide_less_0_iff)
  have pos: "0 < real_of_int m * pw e" using short_decimal_bounds(6) [OF sd] by simp
  then have "rnds ?y \<noteq> 0" using sme(3) by (cases "m = 0") (simp_all add: sgn_of_def)
  then have "rnds ?y < 0 \<longleftrightarrow> sint px < 0" using trans [OF rnds_neg_iff sign] by blast
  then have "s \<longleftrightarrow> sint px < 0" using sme(3) pos by (cases s) auto
  then show ?thesis using show_short_decimal [OF sd, of s] by (simp add: sme(1) price_text_def)
qed

section \<open>Properties\<close>

text \<open>C19. The text of a tick and of an order shows their prices exactly: although a price goes through a
  division of \<open>f64\<close> and the shortest decimal that rounds to the quotient, what is printed is the price in
  full, with a sign, without trailing zeros and without a point if it is whole, for all
  prices of at most fifteen digits; and reading it gives the price back.\<close>

theorem messages_show_prices:
  assumes "\<bar>sint (mt_bid_px t)\<bar> < 10 ^ 15" and "\<bar>sint (mt_ask_px t)\<bar> < 10 ^ 15" and "\<bar>sint (om_px m)\<bar> < 10 ^ 15"
  shows "show_tick t =
      tick_symbol_str t @ utf8_bytes ('' bid='' @ show_nat (unat (mt_bid_sz t)) @ ''@'' @ price_text (sint (mt_bid_px t)) @
        '' ask='' @ show_nat (unat (mt_ask_sz t)) @ ''@'' @ price_text (sint (mt_ask_px t)) @
        '' seq='' @ show_nat (unat (mt_seq_num t))) \<and>
    show_order m =
      utf8_bytes (side_text (om_side m) @ '' '') @ order_symbol_str m @
      utf8_bytes ('' '' @ show_nat (unat (om_qty m)) @ ''@'' @ price_text (sint (om_px m)) @
        '' id='' @ show_nat (unat (om_order_id m))) \<and>
    (\<forall>px. read_price (price_text px) = px)"
  using assms by (simp only: show_tick_def show_order_def show_px read_price_text) simp

theorem messages_show_prices_witness:
  "show_order \<lparr>om_order_id = 2, om_submit_ts_ns = 0, om_symbol = [65, 65, 80, 76, 0, 0, 0, 0], om_px = 187450000,
     om_qty = 100, om_side = 1, om_pad = [0, 0, 0]\<rparr> = utf8_bytes ''BUY AAPL 100@187.45 id=2''"
proof -
  let ?m = "\<lparr>om_order_id = 2, om_submit_ts_ns = 0, om_symbol = [65, 65, 80, 76, 0, 0, 0, 0], om_px = 187450000,
     om_qty = 100, om_side = 1, om_pad = [0, 0, 0]\<rparr> :: order_msg"
  let ?t = "\<lparr>mt_seq_num = 0, mt_exch_ts_ns = 0, mt_recv_ts_ns = 0, mt_symbol = [], mt_bid_px = 0, mt_ask_px = 0,
     mt_bid_sz = 0, mt_ask_sz = 0, mt_pad = 0\<rparr> :: market_tick"
  have shown: "utf8_bytes (side_text (om_side ?m) @ '' '') @ order_symbol_str ?m @
      utf8_bytes ('' '' @ show_nat (unat (om_qty ?m)) @ ''@'' @ price_text (sint (om_px ?m)) @
        '' id='' @ show_nat (unat (om_order_id ?m))) = utf8_bytes ''BUY AAPL 100@187.45 id=2''" by code_simp
  have small: "\<bar>sint (mt_bid_px ?t)\<bar> < 10 ^ 15" "\<bar>sint (mt_ask_px ?t)\<bar> < 10 ^ 15" "\<bar>sint (om_px ?m)\<bar> < 10 ^ 15"
    by code_simp+
  show ?thesis using messages_show_prices [OF small] unfolding shown by blast
qed

end
