(* ===== verification/Console.thy ===== *)
theory Console
  imports Message_Text Pipeline
begin

text \<open>
  What the loops of the engine and of the feedhandler write to standard error: a line for each order
  unless the program is quiet, and statistics about every two seconds (\<open>report_live\<close> and its
  counterpart in the feedhandler). The loops are those of \<open>Engine_Inline\<close> and \<open>Feedhandler\<close> with the
  lines and the time of the last statistics threaded through. The lemmas show that writing
  changes nothing else, that the order lines are the orders, and that the statistics are rare.
\<close>

section \<open>Lines\<close>

datatype console_entry = Order_Line "u8 list" | Recv_Error_Line string | Stats_Lines "string list" | Worker_Line nat string

definition engine_order_line :: "order_msg \<Rightarrow> console_entry" where
  "engine_order_line m = Order_Line (utf8_bytes ''trading-engine: -> '' @ show_order m)"

definition feedhandler_order_line :: "order_msg \<Rightarrow> console_entry" where
  "feedhandler_order_line m = Order_Line (utf8_bytes ''feedhandler: <- order '' @ show_order m)"

text \<open>A histogram's line, if there is a histogram and it is not empty.\<close>

definition histogram_line :: "string \<Rightarrow> latency_histogram option \<Rightarrow> string list" where
  "histogram_line label h =
     (case h of None \<Rightarrow> [] | Some h1 \<Rightarrow> if 0 < histogram_count h1 then [label @ show_summary (summary h1)] else [])"

definition report_live ::
  "u64 \<Rightarrow> u64 \<Rightarrow> u64 \<Rightarrow> latency_histogram option \<Rightarrow> latency_histogram option \<Rightarrow> string list" where
  "report_live ticks orders pend shm_transit end_to_end =
     [''trading-engine: stats ticks='' @ show_nat (unat ticks) @ '' orders='' @ show_nat (unat orders) @
      '' pending='' @ show_nat (unat pend)] @
     histogram_line ''trading-engine: shm-transit  '' shm_transit @
     histogram_line ''trading-engine: end-to-end   '' end_to_end"

definition feedhandler_stats :: "feedhandler \<Rightarrow> string list" where
  "feedhandler_stats fh =
     [''feedhandler: stats ticks_published='' @ show_nat (unat (fh_recv_count fh)) @
      '' drops='' @ show_nat (unat (fh_publish_drops fh)) @ '' bad='' @ show_nat (unat (fh_bad_packets fh)) @
      '' orders_seen='' @ show_nat (unat (fh_order_count fh))] @
     histogram_line ''feedhandler: wire-latency '' (Some (fh_wire_lat fh))"

text \<open>A receive that failed: the number of its error, negated.\<close>

definition recv_error_line :: "i32 \<Rightarrow> console_entry" where
  "recv_error_line res =
     Recv_Error_Line (''feedhandler: recv error errno='' @
       (if sint (- res) < 0 then ''-'' else []) @ show_nat (nat \<bar>sint (- res)\<bar>))"

section \<open>Every two seconds\<close>

text \<open>\<open>check\<close> is the clock in \<open>elapsed()\<close>, \<open>restart\<close> the one read after the lines; \<open>elapsed()\<close> of a later instant
  is 0.\<close>

definition STATS_NS :: nat where "STATS_NS = 2 * 1000000000"

definition stats_turn :: "nat \<Rightarrow> nat \<times> nat \<Rightarrow> string list \<Rightarrow> console_entry list \<times> nat" where
  "stats_turn since clk ls = (if STATS_NS \<le> fst clk - since then ([Stats_Lines ls], snd clk) else ([], since))"

definition is_stats :: "console_entry \<Rightarrow> bool" where
  "is_stats x = (case x of Stats_Lines ls \<Rightarrow> True | _ \<Rightarrow> False)"

definition is_order :: "console_entry \<Rightarrow> bool" where
  "is_order x = (case x of Order_Line l \<Rightarrow> True | _ \<Rightarrow> False)"

section \<open>The engine\<close>

text \<open>The time since which nothing has been reported, and what has been written.\<close>

record console_round =
  cr_round :: inline_round
  cr_clock :: "nat \<times> nat"

definition ends_pending :: "ring_ends \<Rightarrow> u64" where
  "ends_pending s = (case s of (r, p, c) \<Rightarrow> pending r c)"

definition console_iteration ::
  "strategy_params \<Rightarrow> bool \<Rightarrow> console_round \<Rightarrow> inline_engine \<Rightarrow> nat \<Rightarrow> inline_engine \<times> console_entry list \<times> nat" where
  "console_iteration ps quiet r e since =
     (let (order_opt, e1) = engine_take ps (ir_clk (cr_round r)) e;
          (e2, orders) =
            (case order_opt of
               None \<Rightarrow> (e1, [])
             | Some m \<Rightarrow> (engine_send m e1,
                 if fst (try_publish_order m (ie_orders e1)) \<and> \<not> quiet then [engine_order_line m] else []));
          (stats, last1) = stats_turn since (cr_clock r)
             (report_live (ie_ticks_seen e2) (ie_orders_sent e2) (ends_pending (ie_ticks e2))
                (Some (ie_shm_transit e2)) (Some (ie_end_to_end e2)))
      in (e2, orders @ stats, last1))"

fun console_loop ::
  "strategy_params \<Rightarrow> bool \<Rightarrow> nat option \<Rightarrow> console_round list \<Rightarrow> inline_engine \<Rightarrow> nat
   \<Rightarrow> inline_engine \<times> console_entry list \<times> nat \<times> bool" where
  "console_loop ps quiet deadline [] e since = (e, [], since, False)"
| "console_loop ps quiet deadline (r # rs) e since =
     (if ir_stop (cr_round r) \<or> (case deadline of None \<Rightarrow> False | Some d \<Rightarrow> d \<le> ir_now (cr_round r))
      then (e, [], since, True)
      else let (e1, out, last1) = console_iteration ps quiet r e since;
               (e2, out2, last2, fin) = console_loop ps quiet deadline rs e1 last1
           in (e2, out @ out2, last2, fin))"

section \<open>The feedhandler\<close>

record fh_console_round =
  fcr_round :: fh_round
  fcr_clock :: "nat \<times> nat"

text \<open>The lines of one iteration: failed receives, the orders, the statistics. An interrupted wait goes back to
  the top before any of them.\<close>

definition fh_console_lines ::
  "'q uring_ops \<Rightarrow> bool \<Rightarrow> fh_console_round \<Rightarrow> 'q \<Rightarrow> feedhandler \<Rightarrow> order_msg list \<Rightarrow> nat \<Rightarrow> console_entry list \<times> nat" where
  "fh_console_lines u quiet r q fh1 os since =
     (case ur_wait u (push_timeout u q) of
        (Some e, q1) \<Rightarrow> ([], since)
      | (None, q1) \<Rightarrow>
          let completed = filter (\<lambda>c. fst c \<noteq> TIMEOUT_UD) (fst (ur_reap u q1));
              errors = map (recv_error_line \<circ> snd) (filter (\<lambda>c. sint (snd c) < 0) completed);
              orders = (if quiet then [] else map feedhandler_order_line os);
              (stats, last1) = stats_turn since (fcr_clock r) (feedhandler_stats fh1)
          in (errors @ orders @ stats, last1))"

fun fh_console_loop ::
  "'q uring_ops \<Rightarrow> bool \<Rightarrow> nat option \<Rightarrow> fh_console_round list \<Rightarrow> 'q \<Rightarrow> feedhandler \<Rightarrow> nat
   \<Rightarrow> (fh_error + 'q \<times> feedhandler \<times> console_entry list \<times> nat \<times> bool) option" where
  "fh_console_loop u quiet deadline [] q fh since = Some (Inr (q, fh, [], since, False))"
| "fh_console_loop u quiet deadline (r # rs) q fh since =
     (if fr_stop (fcr_round r) \<or> (case deadline of None \<Rightarrow> False | Some d \<Rightarrow> d \<le> fr_now (fcr_round r))
      then Some (Inr (q, fh, [], since, True))
      else case fh_iteration u (fr_env (fcr_round r)) q (engine_acts (fcr_round r) fh) of
          None \<Rightarrow> None
        | Some (Inl e) \<Rightarrow> Some (Inl e)
        | Some (Inr (q1, fh1, os)) \<Rightarrow>
            (let (out, last1) = fh_console_lines u quiet r q fh1 os since
             in case fh_console_loop u quiet deadline rs q1 fh1 last1 of
                  None \<Rightarrow> None
                | Some (Inl e) \<Rightarrow> Some (Inl e)
                | Some (Inr (q2, fh2, out2, last2, fin)) \<Rightarrow> Some (Inr (q2, fh2, out @ out2, last2, fin))))"

section \<open>Lemmas\<close>

lemma is_order_simps [simp]: "is_order (Order_Line l)" "\<not> is_order (Recv_Error_Line e)" "\<not> is_order (Stats_Lines ls)"
  "is_stats (Stats_Lines ls)" "\<not> is_stats (Order_Line l)" "\<not> is_stats (Recv_Error_Line e)"
  "\<not> is_order (Worker_Line w wl)" "\<not> is_stats (Worker_Line w wl)"
  by (simp_all add: is_order_def is_stats_def)

lemma line_kinds [simp]: "is_order (engine_order_line m)" "is_order (feedhandler_order_line m)"
  "\<not> is_stats (engine_order_line m)" "\<not> is_stats (feedhandler_order_line m)"
  "\<not> is_order (recv_error_line e)" "\<not> is_stats (recv_error_line e)"
  by (simp_all add: engine_order_line_def feedhandler_order_line_def recv_error_line_def)

lemma filter_none: "(\<And>x. x \<in> set xs \<Longrightarrow> \<not> P x) \<Longrightarrow> filter P xs = []"
  by (simp add: filter_empty_conv)

text \<open>The clock goes on: no reading is before the one it follows.\<close>

fun clock_on :: "nat \<Rightarrow> (nat \<times> nat) list \<Rightarrow> bool" where
  "clock_on t [] \<longleftrightarrow> True"
| "clock_on t (clk # clks) \<longleftrightarrow> t \<le> fst clk \<and> fst clk \<le> snd clk \<and> clock_on (snd clk) clks"

lemma stats_turn_cases:
  assumes "stats_turn since clk ls = (out, since1)"
  obtains (due) "STATS_NS \<le> fst clk - since" "out = [Stats_Lines ls]" "since1 = snd clk"
    | (early) "out = []" "since1 = since"
  using assms by (auto simp: stats_turn_def split: if_splits)

lemma stats_turn_kinds:
  "stats_turn since clk ls = (out, since1) \<Longrightarrow> filter is_order out = []"
  by (erule stats_turn_cases) simp_all

text \<open>Statistics cost two seconds each, and the next ones are counted from the clock read after them.\<close>

lemma stats_turn_bound:
  assumes "stats_turn since clk ls = (out, since1)" "clock_on t (clk # clks)" "since \<le> t"
  shows "STATS_NS * length (filter is_stats out) + since \<le> since1" "since1 \<le> snd clk" "clock_on (snd clk) clks"
proof -
  have c: "t \<le> fst clk" "fst clk \<le> snd clk" "clock_on (snd clk) clks" using assms(2) by auto
  then show "clock_on (snd clk) clks" by simp
  show "STATS_NS * length (filter is_stats out) + since \<le> since1" "since1 \<le> snd clk"
    using assms(1) by (cases rule: stats_turn_cases; use c assms(3) in \<open>simp add: STATS_NS_def\<close>)+
qed

text \<open>One turn of the engine: the loop's own, the order it has put in the ring, at most one report.\<close>

lemma console_iteration_fst: "fst (console_iteration ps quiet r e since) = inline_iteration ps (ir_clk (cr_round r)) e"
  by (auto simp: console_iteration_def inline_iteration_halves Let_def split: prod.splits option.splits)

lemma engine_take_orders: "engine_take ps clk e = (ord, e1) \<Longrightarrow> ie_orders e1 = ie_orders e"
  by (auto simp: engine_take_def Let_def split: prod.splits option.splits)

lemma engine_take_ok:
  assumes "inline_ok e" "engine_take ps clk e = (ord, e1)"
  shows "inline_ok e1" "ord = Some m \<Longrightarrow> order_wf m"
proof -
  have ok: "ends_ok (ie_ticks e)" "ends_ok (ie_orders e)" using assms(1) by (simp_all add: inline_ok_def)
  from ok(1) have "inline_ok e1 \<and> (ord = Some m \<longrightarrow> order_wf m)"
  proof (cases rule: ring_fifo.pop_cases)
    case empty
    then show ?thesis using assms by (auto simp: engine_take_def inline_ok_def)
  next
    case (taken buf r)
    obtain dev st i where step: "strategy_step ps (snd clk) (tick_of_bytes buf) (ie_state e) (ie_next_order_id e) = ((ord, dev), st, i)"
      and e1: "ie_ticks e1 = r" "ie_orders e1 = ie_orders e"
      using assms(2) taken by (auto simp: engine_take_def Let_def split: prod.splits)
    have "order_wf m" if "ord = Some m"
      using strategy_step_wf [OF step [unfolded that] popped_tick_wf [OF ok(1) taken(3)]] .
    then show ?thesis using taken(2) e1 ok by (simp add: inline_ok_def)
  qed
  then show "inline_ok e1" "ord = Some m \<Longrightarrow> order_wf m" by blast+
qed

lemma engine_send_ok:
  assumes "inline_ok e" "order_wf m"
  shows "inline_ok (engine_send m e)"
    and "queued_orders (ie_orders (engine_send m e)) =
      queued_orders (ie_orders e) @ (if fst (try_publish_order m (ie_orders e)) then [m] else [])"
proof -
  have ok: "ends_ok (ie_orders e)" using assms(1) by (simp add: inline_ok_def)
  show "inline_ok (engine_send m e)" "queued_orders (ie_orders (engine_send m e)) =
      queued_orders (ie_orders e) @ (if fst (try_publish_order m (ie_orders e)) then [m] else [])"
    by (rule try_publish_order_cases [OF ok assms(2)]; use assms(1) in \<open>simp add: engine_send_def inline_ok_def\<close>)+
qed

text \<open>What one turn writes: the order it has put in the ring, and at most one report.\<close>

lemma console_iteration_out:
  assumes "console_iteration ps quiet r e since = (e', out, since1)" "inline_ok e"
  obtains ms stats where "inline_ok e'" "queued_orders (ie_orders e') = queued_orders (ie_orders e) @ ms"
    "out = (if quiet then [] else map engine_order_line ms) @ stats"
    "\<exists>ls. stats_turn since (cr_clock r) ls = (stats, since1)"
proof -
  obtain ord e1 where take: "engine_take ps (ir_clk (cr_round r)) e = (ord, e1)" by force
  note ok = engine_take_ok [OF assms(2) take]
  have same: "ie_orders e1 = ie_orders e" by (rule engine_take_orders [OF take])
  show ?thesis
  proof (cases ord)
    case None
    then obtain ls where "stats_turn since (cr_clock r) ls = (out, since1)" "e' = e1"
      using assms(1) take by (auto simp: console_iteration_def Let_def split: prod.splits)
    then show ?thesis using that [of "[]" out] ok(1) same by auto
  next
    case (Some m)
    let ?ms = "if fst (try_publish_order m (ie_orders e1)) then [m] else []"
    obtain ls stats where "stats_turn since (cr_clock r) ls = (stats, since1)" "e' = engine_send m e1"
      "out = (if quiet then [] else map engine_order_line ?ms) @ stats"
      using assms(1) take Some by (auto simp: console_iteration_def Let_def split: prod.splits)
    then show ?thesis using that [of ?ms stats] engine_send_ok [OF ok(1) ok(2) [OF Some]] same by auto
  qed
qed

section \<open>Properties\<close>

text \<open>The engine's output is a faithful and bounded record of its run: writing does not change the run, which
  is that of \<open>inline_loop\<close>; the order lines are the orders that went into the ring, in order and each once,
  or none at all with \<open>--quiet\<close>; and as the clock goes on, each report takes two seconds of it,
  so there are at most half as many reports as seconds.\<close>

theorem engine_console:
  assumes "console_loop ps quiet deadline rs e since = (e', out, since', fin)"
    and "inline_ok e" and "clock_on since (map cr_clock rs)"
  shows "inline_loop ps deadline (map cr_round rs) e = (e', fin) \<and>
    (\<exists>ms. queued_orders (ie_orders e') = queued_orders (ie_orders e) @ ms \<and>
       filter is_order out = (if quiet then [] else map engine_order_line ms)) \<and>
    STATS_NS * length (filter is_stats out) \<le> since' - since"
proof -
  have "inline_loop ps deadline (map cr_round rs) e = (e', fin) \<and>
    (\<exists>ms. queued_orders (ie_orders e') = queued_orders (ie_orders e) @ ms \<and>
       filter is_order out = (if quiet then [] else map engine_order_line ms)) \<and>
    STATS_NS * length (filter is_stats out) + since \<le> since'"
    if "clock_on t (map cr_clock rs)" "since \<le> t" for t
    using assms(1,2) that
  proof (induction rs arbitrary: e out since t)
    case (Cons r rs)
    show ?case
    proof (cases "ir_stop (cr_round r) \<or> (case deadline of None \<Rightarrow> False | Some d \<Rightarrow> d \<le> ir_now (cr_round r))")
      case True
      then show ?thesis using Cons.prems by auto
    next
      case False
      obtain e1 out1 since1 where it: "console_iteration ps quiet r e since = (e1, out1, since1)" by (metis prod_cases3)
      obtain out2 where rest: "console_loop ps quiet deadline rs e1 since1 = (e', out2, since', fin)" "out = out1 @ out2"
        using Cons.prems(1) it False by (auto split: prod.splits)
      obtain ms stats ls where o: "inline_ok e1" "queued_orders (ie_orders e1) = queued_orders (ie_orders e) @ ms"
        "out1 = (if quiet then [] else map engine_order_line ms) @ stats" "stats_turn since (cr_clock r) ls = (stats, since1)"
        using console_iteration_out [OF it Cons.prems(2)] by metis
      note b = stats_turn_bound [OF o(4) Cons.prems(3) [unfolded list.map] Cons.prems(4)]
      have e1: "e1 = inline_iteration ps (ir_clk (cr_round r)) e"
        using console_iteration_fst [of ps quiet r e since] it by simp
      have kinds: "filter is_order out1 = (if quiet then [] else map engine_order_line ms)"
        "filter is_stats out1 = filter is_stats stats"
        using stats_turn_kinds [OF o(4)] by (auto simp: o(3) filter_map comp_def)
      from Cons.IH [OF rest(1) o(1) b(3,2)] b(1) kinds o(2) False show ?thesis
        by (auto simp: rest(2) e1 algebra_simps)
    qed
  qed auto
  from this [OF assms(3)] show ?thesis by auto
qed

theorem engine_console_witness:
  "let r = \<lparr>cr_round = \<lparr>ir_stop = False, ir_now = 0, ir_clk = (5, 6)\<rparr>, cr_clock = (3000000000, 3000000001)\<rparr>;
     (e, out, t, fin) = console_loop demo_params False None [r, r\<lparr>cr_clock := (4000000000, 4000000000)\<rparr>] (inline_init fresh_ends fresh_ends) 0
   in length (filter is_stats out) = 1 \<and> STATS_NS * length (filter is_stats out) \<le> t"
proof -
  let ?r = "\<lparr>cr_round = \<lparr>ir_stop = False, ir_now = 0, ir_clk = (5, 6)\<rparr>, cr_clock = (3000000000, 3000000001)\<rparr>"
  let ?rs = "[?r, ?r\<lparr>cr_clock := (4000000000, 4000000000)\<rparr>]" and ?e = "inline_init fresh_ends fresh_ends"
  obtain e out t fin where run: "console_loop demo_params False None ?rs ?e 0 = (e, out, t, fin)" by (metis prod_cases4)
  have ok: "inline_ok ?e" by (simp add: inline_ok_def inline_init_def fresh_ends_ok)
  have clk: "clock_on 0 (map cr_clock ?rs)" by simp
  obtain a x ta b y tb where it: "console_iteration demo_params False ?r ?e 0 = (a, x, ta)"
    "console_iteration demo_params False (?r\<lparr>cr_clock := (4000000000, 4000000000)\<rparr>) a ta = (b, y, tb)" by (metis prod_cases3)
  then have out: "out = x @ y" "t = tb" using run by (auto split: prod.splits)
  obtain ms st ls where 1: "inline_ok a" "x = (if False then [] else map engine_order_line ms) @ st"
    "stats_turn 0 (cr_clock ?r) ls = (st, ta)"
    using console_iteration_out [OF it(1) ok] by metis
  obtain ns st2 ls2 where 2: "y = (if False then [] else map engine_order_line ns) @ st2"
    "stats_turn ta (cr_clock (?r\<lparr>cr_clock := (4000000000, 4000000000)\<rparr>)) ls2 = (st2, tb)"
    using console_iteration_out [OF it(2) 1(1)] by metis
  have "ta = 3000000001" "length (filter is_stats x) = 1" "filter is_stats y = []"
    using 1 2 by (auto simp: stats_turn_def STATS_NS_def)
  moreover have "STATS_NS * length (filter is_stats out) \<le> t - 0"
    using engine_console [OF run ok clk] by blast
  ultimately show ?thesis using run by (simp add: Let_def out)
qed

text \<open>What one iteration of the feedhandler writes.\<close>

lemma fh_console_lines_out:
  assumes "fh_iteration u env q fh = Some (Inr (q1, fh1, os))"
    and "fh_console_lines u quiet r q fh1 os since = (out, since1)"
  shows "filter is_order out = (if quiet then [] else map feedhandler_order_line os)"
    and "filter is_stats out = [] \<and> since1 = since \<or>
      (\<exists>ls st. stats_turn since (fcr_clock r) ls = (st, since1) \<and> filter is_stats out = filter is_stats st)"
proof -
  obtain we q0 where w: "ur_wait u (push_timeout u q) = (we, q0)" by force
  have "filter is_order out = (if quiet then [] else map feedhandler_order_line os) \<and>
    (filter is_stats out = [] \<and> since1 = since \<or>
      (\<exists>ls st. stats_turn since (fcr_clock r) ls = (st, since1) \<and> filter is_stats out = filter is_stats st))"
  proof (cases we)
    case None
    obtain st where st: "stats_turn since (fcr_clock r) (feedhandler_stats fh1) = (st, since1)"
      using assms(2) w None by (auto simp: fh_console_lines_def Let_def split: prod.splits)
    have "filter is_order out = (if quiet then [] else map feedhandler_order_line os)"
      "filter is_stats out = filter is_stats st"
      using assms(2) w None st stats_turn_kinds [OF st]
      by (auto simp: fh_console_lines_def Let_def filter_map comp_def)
    then show ?thesis using st by blast
  next
    case (Some e)
    then show ?thesis using assms w
      by (auto simp: fh_console_lines_def fh_iteration_def split: if_splits)
  qed
  then show "filter is_order out = (if quiet then [] else map feedhandler_order_line os)"
    "filter is_stats out = [] \<and> since1 = since \<or>
      (\<exists>ls st. stats_turn since (fcr_clock r) ls = (st, since1) \<and> filter is_stats out = filter is_stats st)" by blast+
qed

text \<open>The same of the feedhandler, also when a run ends in an error: the loop with its output is \<open>fh_loop\<close>; the
  order lines are the orders it drains; and a report takes two seconds of the clock.\<close>

theorem feedhandler_console:
  assumes "clock_on since (map fcr_clock rs)"
  shows "case fh_console_loop u quiet deadline rs q fh since of
      None \<Rightarrow> fh_loop u deadline (map fcr_round rs) q fh = None
    | Some (Inl e) \<Rightarrow> fh_loop u deadline (map fcr_round rs) q fh = Some (Inl e)
    | Some (Inr (q', fh', out, since', fin)) \<Rightarrow>
        (\<exists>os. fh_loop u deadline (map fcr_round rs) q fh = Some (Inr (q', fh', os, fin)) \<and>
           filter is_order out = (if quiet then [] else map feedhandler_order_line os)) \<and>
        STATS_NS * length (filter is_stats out) + since \<le> since'"
proof -
  have "case fh_console_loop u quiet deadline rs q fh since of
      None \<Rightarrow> fh_loop u deadline (map fcr_round rs) q fh = None
    | Some (Inl e) \<Rightarrow> fh_loop u deadline (map fcr_round rs) q fh = Some (Inl e)
    | Some (Inr (q', fh', out, since', fin)) \<Rightarrow>
        (\<exists>os. fh_loop u deadline (map fcr_round rs) q fh = Some (Inr (q', fh', os, fin)) \<and>
           filter is_order out = (if quiet then [] else map feedhandler_order_line os)) \<and>
        STATS_NS * length (filter is_stats out) + since \<le> since'"
    if "clock_on t (map fcr_clock rs)" "since \<le> t" for t
    using that
  proof (induction rs arbitrary: q fh since t)
    case (Cons r rs)
    let ?stop = "fr_stop (fcr_round r) \<or> (case deadline of None \<Rightarrow> False | Some d \<Rightarrow> d \<le> fr_now (fcr_round r))"
    let ?it = "fh_iteration u (fr_env (fcr_round r)) q (engine_acts (fcr_round r) fh)"
    show ?case
    proof (cases "?stop \<or> ?it = None \<or> (\<exists>e. ?it = Some (Inl e))")
      case True
      then show ?thesis by auto
    next
      case False
      then obtain q1 fh1 os where it: "?it = Some (Inr (q1, fh1, os))" and go: "\<not> ?stop"
        by (cases ?it) (auto, metis sum.exhaust prod_cases3)
      obtain out1 since1 where ls: "fh_console_lines u quiet r q fh1 os since = (out1, since1)" by force
      note o = fh_console_lines_out [OF it ls]
      have c: "t \<le> snd (fcr_clock r)" "clock_on (snd (fcr_clock r)) (map fcr_clock rs)" using Cons.prems(1) by auto
      have b: "STATS_NS * length (filter is_stats out1) + since \<le> since1" "since1 \<le> snd (fcr_clock r)"
        using o(2) stats_turn_bound(1,2) [OF _ Cons.prems(1) [unfolded list.map] Cons.prems(2)] c(1) Cons.prems(2) by fastforce+
      show ?thesis using Cons.IH [OF c(2) b(2), of q1 fh1] it go ls o(1) b(1)
        by (auto simp: algebra_simps split: option.splits sum.splits)
    qed
  qed auto
  from this [OF assms] show ?thesis by simp
qed

theorem feedhandler_console_witness:
  "let r = \<lparr>fcr_round = \<lparr>fr_stop = False, fr_now = 0, fr_taken = 0, fr_sent = [order_bytes demo_order], fr_env = demo_env\<rparr>,
      fcr_clock = (3000000000, 3000000001)\<rparr>
   in \<exists>q fh out t. fh_console_loop (demo_uring\<lparr>ur_reap := \<lambda>q. ([], q)\<rparr>) False None [r] ([], [])
        (feedhandler_init fresh_ends fresh_ends) 0 = Some (Inr (q, fh, out, t, False)) \<and>
      filter is_order out = [feedhandler_order_line demo_order] \<and> STATS_NS * length (filter is_stats out) \<le> t"
proof -
  let ?u = "demo_uring\<lparr>ur_reap := \<lambda>q. ([], q)\<rparr>" and ?fh = "feedhandler_init fresh_ends fresh_ends"
  let ?r = "\<lparr>fr_stop = False, fr_now = 0, fr_taken = 0, fr_sent = [order_bytes demo_order], fr_env = demo_env\<rparr>"
  let ?c = "\<lparr>fcr_round = ?r, fcr_clock = (3000000000, 3000000001)\<rparr>"
  have wf: "order_wf demo_order" by (simp add: order_wf_def demo_order_def SYMBOL_LEN_def)
  have fits: "fits_slot (order_bytes demo_order)"
    using length_order_bytes [OF wf] by (simp add: fits_slot_def SLOT_PAYLOAD_def layout_simps)
  obtain s where s: "ring_push (order_bytes demo_order) fresh_ends = (True, s)" "ends_ok s"
    "ends_queue s = [pad_payload (order_bytes demo_order)]"
    using ring_push_room [OF fresh_ends_ok(1) fits] by (auto simp: fresh_ends_ok(2))
  have dec: "order_of_bytes (pad_payload (order_bytes demo_order)) = demo_order"
    unfolding pad_payload_def by (rule order_of_order_bytes [OF wf])
  have acts: "engine_acts ?r ?fh = ?fh\<lparr>fh_orders := s\<rparr>" using s(1) by (simp add: engine_acts_def feedhandler_init_def)
  have room: "length (ends_queue (fh_orders (?fh\<lparr>fh_orders := s\<rparr>))) < Suc RING_CAPACITY" by (simp add: s(3) RING_CAPACITY_def)
  obtain s1 where drained: "drain_orders (Suc RING_CAPACITY) (?fh\<lparr>fh_orders := s\<rparr>) = Some ([demo_order], s1)"
    using drain_orders_all [OF _ room] s(2) by (auto simp: s(3) dec simp del: drain_orders.simps)
  obtain q1 where w: "ur_wait ?u (push_timeout ?u ([], [])) = (None, q1)"
    by (simp add: push_timeout_def demo_uring_def)
  have it: "fh_iteration ?u demo_env ([], []) (engine_acts ?r ?fh) = Some (Inr (q1, s1, [demo_order]))"
    unfolding acts using drained w by (simp add: fh_iteration_def del: drain_orders.simps)
  have run: "fh_loop ?u None [?r] ([], []) ?fh = Some (Inr (q1, s1, [demo_order], False))"
    using it by (simp del: fh_iteration_def)
  obtain out t where "fh_console_lines ?u False ?c ([], []) s1 [demo_order] 0 = (out, t)" by force
  then have "fh_console_loop ?u False None [?c] ([], []) ?fh 0 = Some (Inr (q1, s1, out, t, False))"
    using it by simp
  moreover have "clock_on 0 (map fcr_clock [?c])" by simp
  ultimately show ?thesis using feedhandler_console [of 0 "[?c]" ?u None "([], [])" ?fh False] run by (auto simp: Let_def)
qed

end
