(* ===== verification/Noise_Threads.thy ===== *)
theory Noise_Threads
  imports Noise
begin

text \<open>
  The life of the noise threads of \<open>shmbus/src/noise.rs\<close>: \<open>spawn_noise\<close> starts them one after the other,
  each runs \<open>noise_worker\<close> (place itself, then the loop over its buffer), and
  \<open>NoiseHandle::shutdown\<close> raises the flag and joins them. The threads are interleaved step by step. A
  load of the flag is relaxed: after the store it may still return the old value, a number of times
  that is a parameter for each thread. The proofs give a bound on the steps of a shutdown.
\<close>

section \<open>Threads\<close>

datatype noise_log = NotPinned nat nat | NotJoined string join_error

datatype noise_pc = N_Pin | N_Group | N_Alloc | N_Load | N_Inner nat | N_Done

text \<open>What the threads ask of the system: the pinning, the cache groups, and how many loads of thread \<open>i\<close>
  miss the store to the flag.\<close>

record noise_os =
  no_spawn :: "nat \<Rightarrow> bool"
  no_pin :: affinity_calls
  no_join :: join_calls
  no_stale :: "nat \<Rightarrow> nat"

record noise_thread =
  nt_name :: string
  nt_pin :: "nat option"
  nt_pc :: noise_pc
  nt_state :: noise_state
  nt_stale :: nat
  nt_panic :: "panic option"
  nt_log :: "noise_log list"

text \<open>One step of \<open>noise_worker\<close>; \<open>N_Inner k\<close> has \<open>k\<close> rounds of the inner loop to go. The variables of the loop
  get their values in \<open>N_Alloc\<close>.\<close>

definition noise_turn :: "noise_os \<Rightarrow> string \<Rightarrow> bool \<Rightarrow> noise_thread \<Rightarrow> noise_thread" where
  "noise_turn os grp stop t =
     (case nt_pc t of
        N_Pin \<Rightarrow>
          (case nt_pin t of
             None \<Rightarrow> t\<lparr>nt_pc := N_Group\<rparr>
           | Some c \<Rightarrow>
               (case pin_to_cpu (no_pin os) c of
                  Pinned \<Rightarrow> t\<lparr>nt_pc := N_Group\<rparr>
                | PinFailed e \<Rightarrow> t\<lparr>nt_pc := N_Group, nt_log := nt_log t @ [NotPinned c e]\<rparr>
                | PinPanicked \<Rightarrow> t\<lparr>nt_pc := N_Done, nt_panic := Some LibraryPanic\<rparr>))
      | N_Group \<Rightarrow>
          (if grp = [] then t\<lparr>nt_pc := N_Alloc\<rparr>
           else (case fst (join_group (no_join os) grp True) of
                   None \<Rightarrow> t\<lparr>nt_pc := N_Alloc\<rparr>
                 | Some e \<Rightarrow> t\<lparr>nt_pc := N_Alloc, nt_log := nt_log t @ [NotJoined grp e]\<rparr>))
      | N_Alloc \<Rightarrow> t\<lparr>nt_pc := N_Load, nt_state := noise_init\<rparr>
      | N_Load \<Rightarrow>
          (if \<not> stop then t\<lparr>nt_pc := N_Inner 256\<rparr>
           else (case nt_stale t of
                   0 \<Rightarrow> t\<lparr>nt_pc := N_Done\<rparr>
                 | Suc k \<Rightarrow> t\<lparr>nt_pc := N_Inner 256, nt_stale := k\<rparr>))
      | N_Inner k \<Rightarrow>
          (case k of
             0 \<Rightarrow> t\<lparr>nt_pc := N_Load\<rparr>
           | Suc j \<Rightarrow>
               (case noise_step (nt_state t) of
                  Inl e \<Rightarrow> t\<lparr>nt_pc := N_Done, nt_panic := Some e\<rparr>
                | Inr s \<Rightarrow> t\<lparr>nt_pc := N_Inner j, nt_state := s\<rparr>))
      | N_Done \<Rightarrow> t)"

definition noise_thread_of :: "noise_os \<Rightarrow> nat \<Rightarrow> nat option \<Rightarrow> noise_thread" where
  "noise_thread_of os i pin =
     \<lparr>nt_name = ''noise-'' @ show_nat i, nt_pin = pin, nt_pc = N_Pin, nt_state = noise_init,
      nt_stale = no_stale os i, nt_panic = None, nt_log = []\<rparr>"

section \<open>The threads and the handle\<close>

text \<open>Where the thread that owns the handle is: in \<open>spawn_noise\<close> before thread \<open>i\<close>, in the
  program's own loop, in \<open>shutdown\<close> before it joins thread \<open>i\<close>, or behind it.\<close>

datatype owner_pc = O_Spawn nat | O_Running | O_Join nat | O_Returned | O_Panicked

record noise_handle =
  nh_pc :: owner_pc
  nh_stop :: bool
  nh_threads :: "noise_thread list"

definition noise_handle_init :: noise_handle where
  "noise_handle_init = \<lparr>nh_pc = O_Spawn 0, nh_stop = False, nh_threads = []\<rparr>"

text \<open>One round of the loop of \<open>spawn_noise n cpus\<close>.\<close>

definition spawn_next :: "noise_os \<Rightarrow> nat list \<Rightarrow> nat \<Rightarrow> noise_handle \<Rightarrow> noise_handle" where
  "spawn_next os cpus i h =
     (case noise_pin cpus i of
        Inl e \<Rightarrow> h\<lparr>nh_pc := O_Panicked\<rparr>
      | Inr pin \<Rightarrow>
          if no_spawn os i
          then h\<lparr>nh_pc := O_Spawn (Suc i), nh_threads := nh_threads h @ [noise_thread_of os i pin]\<rparr>
          else h\<lparr>nh_pc := O_Panicked\<rparr>)"

text \<open>\<open>t.join()\<close> waits for thread \<open>i\<close> to be done; its result, an error if the thread panicked, is thrown away.\<close>

inductive noise_move :: "noise_os \<Rightarrow> string \<Rightarrow> nat list \<Rightarrow> nat \<Rightarrow> noise_handle \<Rightarrow> noise_handle \<Rightarrow> bool"
  for os :: noise_os and grp :: string and cpus :: "nat list" and n :: nat where
  spawn_one: "nh_pc h = O_Spawn i \<Longrightarrow> i < n \<Longrightarrow> noise_move os grp cpus n h (spawn_next os cpus i h)"
| spawned_all: "nh_pc h = O_Spawn i \<Longrightarrow> n \<le> i \<Longrightarrow> noise_move os grp cpus n h (h\<lparr>nh_pc := O_Running\<rparr>)"
| shutdown_store: "nh_pc h = O_Running \<Longrightarrow> noise_move os grp cpus n h (h\<lparr>nh_pc := O_Join 0, nh_stop := True\<rparr>)"
| shutdown_join:
    "nh_pc h = O_Join i \<Longrightarrow> i < length (nh_threads h) \<Longrightarrow> nt_pc (nh_threads h ! i) = N_Done \<Longrightarrow>
     noise_move os grp cpus n h (h\<lparr>nh_pc := O_Join (Suc i)\<rparr>)"
| shutdown_return:
    "nh_pc h = O_Join i \<Longrightarrow> length (nh_threads h) \<le> i \<Longrightarrow> noise_move os grp cpus n h (h\<lparr>nh_pc := O_Returned\<rparr>)"
| thread_turn:
    "i < length (nh_threads h) \<Longrightarrow> nt_pc (nh_threads h ! i) \<noteq> N_Done \<Longrightarrow>
     noise_move os grp cpus n h
       (h\<lparr>nh_threads := (nh_threads h)[i := noise_turn os grp (nh_stop h) (nh_threads h ! i)]\<rparr>)"

section \<open>Invariant\<close>

text \<open>A thread has made whole rounds of 256 at every load of the flag, and panics only in the pinning.\<close>

definition rounds_made :: "noise_thread \<Rightarrow> nat \<Rightarrow> bool" where
  "rounds_made t k \<longleftrightarrow> noise_steps k noise_init = Inr (nt_state t)"

definition noise_thread_ok :: "noise_os \<Rightarrow> noise_thread \<Rightarrow> bool" where
  "noise_thread_ok os t \<longleftrightarrow>
     (case nt_pc t of
        N_Load \<Rightarrow> nt_panic t = None \<and> (\<exists>k. rounds_made t (256 * k))
      | N_Inner j \<Rightarrow> nt_panic t = None \<and> j \<le> 256 \<and> (\<exists>k. rounds_made t (256 * k + (256 - j)))
      | N_Done \<Rightarrow>
          (nt_panic t = None \<and> (\<exists>k. rounds_made t (256 * k))) \<or>
          (nt_panic t = Some LibraryPanic \<and> (\<exists>c. nt_pin t = Some c \<and> pin_to_cpu (no_pin os) c = PinPanicked))
      | _ \<Rightarrow> nt_panic t = None)"

definition owner_ok :: "noise_os \<Rightarrow> nat \<Rightarrow> noise_handle \<Rightarrow> bool" where
  "owner_ok os n h \<longleftrightarrow>
     (case nh_pc h of
        O_Spawn i \<Rightarrow> length (nh_threads h) = i \<and> i \<le> n \<and> \<not> nh_stop h
      | O_Running \<Rightarrow> length (nh_threads h) = n \<and> \<not> nh_stop h
      | O_Join i \<Rightarrow> length (nh_threads h) = n \<and> i \<le> n \<and> nh_stop h \<and> (\<forall>j < i. nt_pc (nh_threads h ! j) = N_Done)
      | O_Returned \<Rightarrow> length (nh_threads h) = n \<and> nh_stop h \<and> (\<forall>j < n. nt_pc (nh_threads h ! j) = N_Done)
      | O_Panicked \<Rightarrow> \<exists>i < n. \<not> no_spawn os i)"

text \<open>Thread \<open>i\<close> has the name and the CPU that \<open>spawn_noise\<close> says.\<close>

definition thread_named :: "nat list \<Rightarrow> nat \<Rightarrow> noise_thread \<Rightarrow> bool" where
  "thread_named cpus i t \<longleftrightarrow> nt_name t = ''noise-'' @ show_nat i \<and> noise_pin cpus i = Inr (nt_pin t)"

definition noise_inv :: "noise_os \<Rightarrow> nat list \<Rightarrow> nat \<Rightarrow> noise_handle \<Rightarrow> bool" where
  "noise_inv os cpus n h \<longleftrightarrow>
     owner_ok os n h \<and>
     (\<forall>i < length (nh_threads h). noise_thread_ok os (nh_threads h ! i) \<and> thread_named cpus i (nh_threads h ! i) \<and>
        nt_stale (nh_threads h ! i) \<le> no_stale os i)"

lemma noise_pin_ok: "\<exists>p. noise_pin cpus i = Inr p"
  by (simp add: noise_pin_def)

lemma rounds_made_length: "rounds_made t k \<Longrightarrow> length (ns_buf (nt_state t)) = NOISE_LEN"
  using noise_steps_ok [of noise_init k] by (auto simp: rounds_made_def noise_init_def)

lemma noise_steps_snoc:
  "noise_steps (Suc k) s = (case noise_steps k s of Inl e \<Rightarrow> Inl e | Inr s1 \<Rightarrow> noise_step s1)"
proof (induction k arbitrary: s)
  case (Suc k)
  note unfold = noise_steps.simps(2) [of "Suc k" s] noise_steps.simps(2) [of k s]
  show ?case
  proof (cases "noise_step s")
    case (Inr s1)
    then show ?thesis by (simp only: unfold sum.case Suc.IH [of s1])
  qed (simp add: unfold del: noise_steps.simps)
qed (simp split: sum.splits)

lemma noise_turn_keeps:
  "nt_name (noise_turn os grp stop t) = nt_name t" "nt_pin (noise_turn os grp stop t) = nt_pin t"
  "nt_stale (noise_turn os grp stop t) \<le> nt_stale t"
  by (auto simp: noise_turn_def split: noise_pc.splits option.splits pin_result.splits nat.splits sum.splits)

lemma noise_inner_ok:
  assumes "noise_thread_ok os t" "nt_pc t = N_Inner (Suc j)"
  shows "\<exists>s. noise_step (nt_state t) = Inr s \<and> noise_thread_ok os (t\<lparr>nt_pc := N_Inner j, nt_state := s\<rparr>)"
proof -
  obtain k where k: "rounds_made t (256 * k + (256 - Suc j))" "nt_panic t = None" "Suc j \<le> 256"
    using assms by (auto simp: noise_thread_ok_def)
  obtain s where s: "noise_step (nt_state t) = Inr s"
    using noise_step_ok [OF rounds_made_length [OF k(1)]] by blast
  have "256 * k + (256 - j) = Suc (256 * k + (256 - Suc j))" using k(3) by simp
  then have "rounds_made (t\<lparr>nt_pc := N_Inner j, nt_state := s\<rparr>) (256 * k + (256 - j))"
    using k(1) s by (simp only: rounds_made_def noise_steps_snoc) simp
  then show ?thesis using k s by (auto simp: noise_thread_ok_def)
qed

lemma noise_turn_ok:
  assumes ok: "noise_thread_ok os t"
  shows "noise_thread_ok os (noise_turn os grp stop t)"
proof (cases "nt_pc t")
  case N_Pin
  then show ?thesis using ok
    by (auto simp: noise_turn_def noise_thread_ok_def split: option.splits pin_result.splits)
next
  case N_Group
  then show ?thesis using ok by (auto simp: noise_turn_def noise_thread_ok_def split: option.splits)
next
  case N_Alloc
  then show ?thesis using ok
    by (auto simp: noise_turn_def noise_thread_ok_def rounds_made_def intro: exI [of _ 0])
next
  case N_Load
  then show ?thesis using ok
    by (auto simp: noise_turn_def noise_thread_ok_def rounds_made_def split: nat.splits)
next
  case (N_Inner j)
  show ?thesis
  proof (cases j)
    case 0
    then obtain k where "rounds_made t (256 * Suc k)" "nt_panic t = None"
      using ok N_Inner by (auto simp: noise_thread_ok_def add.commute)
    then show ?thesis using N_Inner 0
      by (auto simp: noise_turn_def noise_thread_ok_def rounds_made_def simp del: mult_Suc_right)
  next
    case (Suc i)
    then show ?thesis using noise_inner_ok [OF ok, of i] N_Inner by (auto simp: noise_turn_def)
  qed
next
  case N_Done
  then show ?thesis using ok by (simp add: noise_turn_def)
qed

lemma noise_thread_of_ok: "noise_thread_ok os (noise_thread_of os i pin)"
  by (simp add: noise_thread_of_def noise_thread_ok_def)

lemma noise_move_inv:
  assumes "noise_move os grp cpus n h h'" "noise_inv os cpus n h"
  shows "noise_inv os cpus n h'"
  using assms(1)
proof cases
  case (spawn_one i)
  obtain p where p: "noise_pin cpus i = Inr p" using noise_pin_ok by blast
  show ?thesis
    using assms(2) spawn_one p noise_thread_of_ok [of os i p]
    by (auto simp: noise_inv_def owner_ok_def spawn_next_def nth_append thread_named_def less_Suc_eq)
      (simp_all add: noise_thread_of_def)
next
  case (thread_turn i)
  then show ?thesis
    using assms(2) noise_turn_ok [of os "nh_threads h ! i"] noise_turn_keeps [of os grp "nh_stop h" "nh_threads h ! i"]
    by (auto simp: noise_inv_def owner_ok_def thread_named_def nth_list_update split: owner_pc.splits intro: le_trans)
qed (use assms(2) in \<open>auto simp: noise_inv_def owner_ok_def less_Suc_eq\<close>)

lemma noise_runs_inv: "(noise_move os grp cpus n)\<^sup>*\<^sup>* noise_handle_init h \<Longrightarrow> noise_inv os cpus n h"
  by (induction rule: rtranclp_induct) (auto simp: noise_handle_init_def noise_inv_def owner_ok_def dest: noise_move_inv)

section \<open>Progress\<close>

text \<open>The steps a thread has left once the flag is up.\<close>

definition turns_left :: "noise_thread \<Rightarrow> nat" where
  "turns_left t =
     (case nt_pc t of
        N_Done \<Rightarrow> 0 | N_Load \<Rightarrow> 258 * nt_stale t + 1 | N_Inner k \<Rightarrow> 258 * nt_stale t + 2 + k
      | N_Alloc \<Rightarrow> 258 * nt_stale t + 2 | N_Group \<Rightarrow> 258 * nt_stale t + 3 | N_Pin \<Rightarrow> 258 * nt_stale t + 4)"

definition moves_left :: "noise_handle \<Rightarrow> nat" where
  "moves_left h =
     (\<Sum>t \<leftarrow> nh_threads h. turns_left t) +
     (case nh_pc h of O_Join i \<Rightarrow> length (nh_threads h) - i + 1 | _ \<Rightarrow> 0)"

definition joining :: "noise_handle \<Rightarrow> bool" where
  "joining h \<longleftrightarrow> nh_stop h \<and> ((\<exists>i. nh_pc h = O_Join i) \<or> nh_pc h = O_Returned)"

lemma noise_turn_less:
  assumes "nt_pc t \<noteq> N_Done"
  shows "turns_left (noise_turn os grp True t) < turns_left t"
proof (cases "nt_pc t")
  case N_Load
  then show ?thesis by (cases "nt_stale t") (simp_all add: noise_turn_def turns_left_def)
next
  case (N_Inner k)
  then show ?thesis
    by (cases k; cases "noise_step (nt_state t)") (simp_all add: noise_turn_def turns_left_def)
qed (use assms in \<open>simp_all add: noise_turn_def turns_left_def split: option.split pin_result.split\<close>)

lemma sum_list_update_less:
  "i < length xs \<Longrightarrow> f y < (f (xs ! i) :: nat) \<Longrightarrow> (\<Sum>x \<leftarrow> xs[i := y]. f x) < (\<Sum>x \<leftarrow> xs. f x)"
proof (induction xs arbitrary: i)
  case (Cons x xs)
  then show ?case by (cases i) simp_all
qed simp

lemma joining_move:
  assumes "noise_move os grp cpus n h h'" "joining h"
  shows "joining h' \<and> moves_left h' < moves_left h"
  using assms
proof cases
  case (thread_turn i)
  then show ?thesis
    using assms(2) noise_turn_less [of "nh_threads h ! i" os grp]
      sum_list_update_less [of i "nh_threads h" turns_left "noise_turn os grp True (nh_threads h ! i)"]
    by (auto simp: joining_def moves_left_def)
qed (auto simp: joining_def moves_left_def)

lemma joining_moves:
  "((noise_move os grp cpus n) ^^ k) h h' \<Longrightarrow> joining h \<Longrightarrow> joining h' \<and> moves_left h' + k \<le> moves_left h"
proof (induction k arbitrary: h')
  case (Suc k)
  then show ?case by (fastforce dest: joining_move elim!: relcomppE)
qed simp

lemma joining_enabled:
  assumes "joining h" "nh_pc h \<noteq> O_Returned"
  shows "\<exists>h'. noise_move os grp cpus n h h'"
proof -
  obtain i where i: "nh_pc h = O_Join i" using assms by (auto simp: joining_def)
  show ?thesis
  proof (cases "i < length (nh_threads h)")
    case True
    then show ?thesis using shutdown_join [OF i True] thread_turn [OF True] by blast
  next
    case False
    then show ?thesis using shutdown_return [OF i] by (meson not_le)
  qed
qed

text \<open>So a shutdown that has begun can always come to its end, and one can begin after a start without failures.\<close>

lemma joining_returns: "joining h \<Longrightarrow> \<exists>h'. (noise_move os grp cpus n)\<^sup>*\<^sup>* h h' \<and> nh_pc h' = O_Returned"
proof (induction "moves_left h" arbitrary: h rule: less_induct)
  case less
  show ?case
  proof (cases "nh_pc h = O_Returned")
    case False
    then obtain h1 where "noise_move os grp cpus n h h1" using joining_enabled [OF less.prems] by blast
    then show ?thesis using less.hyps [of h1] joining_move less.prems by (meson converse_rtranclp_into_rtranclp)
  qed blast
qed

lemma spawn_reaches:
  assumes "\<forall>i < n. no_spawn os i" "i \<le> n"
  shows "\<exists>h. (noise_move os grp cpus n)\<^sup>*\<^sup>* noise_handle_init h \<and> nh_pc h = O_Spawn i"
  using assms(2)
proof (induction i)
  case 0
  then show ?case by (intro exI [of _ noise_handle_init]) (simp add: noise_handle_init_def)
next
  case (Suc i)
  then obtain h where h: "(noise_move os grp cpus n)\<^sup>*\<^sup>* noise_handle_init h" "nh_pc h = O_Spawn i" by auto
  obtain p where "noise_pin cpus i = Inr p" using noise_pin_ok by blast
  then have "nh_pc (spawn_next os cpus i h) = O_Spawn (Suc i)" using assms(1) Suc.prems by (simp add: spawn_next_def)
  then show ?case using spawn_one [OF h(2), of n os grp cpus] h(1) Suc.prems
    by (meson Suc_le_eq rtranclp.rtrancl_into_rtrancl)
qed

lemma shutdown_possible:
  assumes "\<forall>i < n. no_spawn os i"
  shows "\<exists>h. (noise_move os grp cpus n)\<^sup>*\<^sup>* noise_handle_init h \<and> nh_pc h = O_Returned"
proof -
  let ?m = "noise_move os grp cpus n"
  obtain h where h: "?m\<^sup>*\<^sup>* noise_handle_init h" "nh_pc h = O_Spawn n" using spawn_reaches [OF assms order_refl] by blast
  let ?r = "h\<lparr>nh_pc := O_Running\<rparr>" and ?j = "h\<lparr>nh_pc := O_Join 0, nh_stop := True\<rparr>"
  have "?m h ?r" by (rule spawned_all [OF h(2)]) simp
  moreover have "?m ?r ?j" using shutdown_store [of ?r os grp cpus n] by simp
  ultimately have "?m\<^sup>*\<^sup>* noise_handle_init ?j" using h(1) by (meson rtranclp.rtrancl_into_rtrancl)
  moreover have "joining ?j" by (simp add: joining_def)
  ultimately show ?thesis using joining_returns by (meson rtranclp_trans)
qed

lemma turns_left_bound: "noise_thread_ok os t \<Longrightarrow> turns_left t \<le> 258 * nt_stale t + 258"
  by (auto simp: turns_left_def noise_thread_ok_def split: noise_pc.splits)

lemma moves_left_bound:
  assumes "noise_inv os cpus n h" "nh_pc h = O_Join 0"
  shows "moves_left h \<le> (\<Sum>i < n. 258 * (no_stale os i + 1)) + n + 1"
proof -
  have len: "length (nh_threads h) = n" using assms by (simp add: noise_inv_def owner_ok_def)
  have "turns_left (nh_threads h ! i) \<le> 258 * (no_stale os i + 1)" if "i < n" for i
  proof -
    have "turns_left (nh_threads h ! i) \<le> 258 * nt_stale (nh_threads h ! i) + 258"
      "nt_stale (nh_threads h ! i) \<le> no_stale os i"
      using assms(1) that len turns_left_bound by (auto simp: noise_inv_def)
    then show ?thesis by simp
  qed
  then have "(\<Sum>i < n. turns_left (nh_threads h ! i)) \<le> (\<Sum>i < n. 258 * (no_stale os i + 1))"
    by (intro sum_mono) simp
  then show ?thesis using assms(2) len by (simp add: moves_left_def sum_list_sum_nth atLeast0LessThan)
qed

text \<open>What is left when \<open>shutdown\<close> has returned.\<close>

lemma done_thread:
  assumes "noise_thread_ok os t" "nt_pc t = N_Done"
  shows "(\<exists>c. nt_pin t = Some c \<and> pin_to_cpu (no_pin os) c = PinPanicked) \<or>
    nt_panic t = None \<and> (\<exists>k. ns_x (nt_state t) = (noise_next ^^ (256 * k)) (ns_x noise_init))"
proof -
  have "ns_x (nt_state t) = (noise_next ^^ (256 * k)) (ns_x noise_init)" if "rounds_made t (256 * k)" for k
    using that noise_steps_ok [of noise_init "256 * k"] by (auto simp: rounds_made_def noise_init_def)
  then show ?thesis using assms by (auto simp: noise_thread_ok_def)
qed

lemma noise_pins_all:
  "\<forall>j < length ts. noise_pin cpus (i + j) = Inr (nt_pin (ts ! j)) \<Longrightarrow>
   noise_pins cpus [i..<i + length ts] = Inr (map nt_pin ts)"
proof (induction ts arbitrary: i)
  case (Cons t ts)
  have "noise_pins cpus [Suc i..<Suc i + length ts] = Inr (map nt_pin ts)"
    using Cons.prems by (intro Cons.IH) force
  moreover have "noise_pin cpus i = Inr (nt_pin t)" using Cons.prems by force
  moreover have "[i..<i + length (t # ts)] = i # [Suc i..<Suc i + length ts]" by (simp add: upt_conv_Cons del: upt_Suc)
  ultimately show ?case by (simp del: upt_Suc)
qed simp

lemma spawned_threads:
  assumes "\<forall>i < length ts. thread_named cpus i (ts ! i)"
  shows "spawn_noise (length ts) cpus = Inr (map (\<lambda>t. (nt_name t, nt_pin t)) ts)"
proof -
  have "noise_pins cpus [0..<0 + length ts] = Inr (map nt_pin ts)"
    using assms by (intro noise_pins_all) (simp add: thread_named_def)
  moreover have "map (\<lambda>i. ''noise-'' @ show_nat i) [0..<length ts] = map nt_name ts"
    using assms by (intro nth_equalityI) (simp_all add: thread_named_def)
  ultimately show ?thesis by (simp add: spawn_noise_def zip_map_map zip_same_conv_map comp_def)
qed

lemma returned_threads:
  assumes "noise_inv os cpus n h" "nh_pc h = O_Returned"
  shows "spawn_noise n cpus = Inr (map (\<lambda>t. (nt_name t, nt_pin t)) (nh_threads h)) \<and>
    (\<forall>t \<in> set (nh_threads h). nt_pc t = N_Done \<and>
       ((\<exists>c. nt_pin t = Some c \<and> pin_to_cpu (no_pin os) c = PinPanicked) \<or>
        nt_panic t = None \<and> (\<exists>k. ns_x (nt_state t) = (noise_next ^^ (256 * k)) (ns_x noise_init))))"
proof -
  have "length (nh_threads h) = n" "\<forall>t \<in> set (nh_threads h). nt_pc t = N_Done \<and> noise_thread_ok os t"
    "\<forall>i < length (nh_threads h). thread_named cpus i (nh_threads h ! i)"
    using assms by (auto simp: noise_inv_def owner_ok_def in_set_conv_nth)
  then show ?thesis using spawned_threads [of "nh_threads h" cpus] done_thread by blast
qed

section \<open>Properties\<close>

text \<open>C18. Shutting the noise threads down ends, within a number of steps known beforehand: when \<open>shutdown\<close> has
  raised the flag, in any interleaving, at most 258 steps for each thread and for each
  load of the flag that misses the store are left, and one for each join; and it cannot get stuck: a
  state in which nobody can move is the one in which \<open>shutdown\<close> has returned. Then every thread that
  \<open>spawn_noise\<close> started is done, under its name and CPU; unless its CPU number was so large that the
  pinning panicked, it has made whole rounds of 256 writes, without a panic, and its generator is
  where that many steps from the seed lead. The generator never collapses, being a permutation.\<close>

theorem noise_shutdown_completes:
  assumes "(noise_move os grp cpus n)\<^sup>*\<^sup>* noise_handle_init h" and "nh_pc h = O_Join 0"
  shows "(\<forall>k h'. ((noise_move os grp cpus n) ^^ k) h h' \<longrightarrow> k \<le> (\<Sum>i < n. 258 * (no_stale os i + 1)) + n + 1) \<and>
    (\<forall>h'. (noise_move os grp cpus n)\<^sup>*\<^sup>* h h' \<and> (\<forall>h''. \<not> noise_move os grp cpus n h' h'') \<longrightarrow>
       nh_pc h' = O_Returned \<and>
       spawn_noise n cpus = Inr (map (\<lambda>t. (nt_name t, nt_pin t)) (nh_threads h')) \<and>
       (\<forall>t \<in> set (nh_threads h'). nt_pc t = N_Done \<and>
          ((\<exists>c. nt_pin t = Some c \<and> pin_to_cpu (no_pin os) c = PinPanicked) \<or>
           nt_panic t = None \<and> (\<exists>k. ns_x (nt_state t) = (noise_next ^^ (256 * k)) (ns_x noise_init))))) \<and>
    inj noise_next"
proof -
  have inv: "noise_inv os cpus n h" by (rule noise_runs_inv [OF assms(1)])
  then have join: "joining h" using assms(2) by (auto simp: noise_inv_def owner_ok_def joining_def)
  have "k \<le> (\<Sum>i < n. 258 * (no_stale os i + 1)) + n + 1" if "((noise_move os grp cpus n) ^^ k) h h'" for k h'
    using joining_moves [OF that join] moves_left_bound [OF inv assms(2)] by linarith
  moreover have "nh_pc h' = O_Returned \<and> noise_inv os cpus n h'"
    if run: "(noise_move os grp cpus n)\<^sup>*\<^sup>* h h'" and stuck: "\<forall>h''. \<not> noise_move os grp cpus n h' h''" for h'
  proof -
    obtain k where "((noise_move os grp cpus n) ^^ k) h h'" using run rtranclp_imp_relpowp by metis
    then have "joining h'" using joining_moves join by blast
    then have "nh_pc h' = O_Returned" using joining_enabled stuck by blast
    moreover have "noise_inv os cpus n h'" by (rule noise_runs_inv [OF rtranclp_trans [OF assms(1) run]])
    ultimately show ?thesis by blast
  qed
  ultimately show ?thesis using returned_threads noise_next_inj by (simp add: inj_def) blast
qed

definition demo_noise :: noise_os where
  "demo_noise = \<lparr>no_spawn = (\<lambda>i. True), no_pin = any_cpu,
     no_join = \<lparr>jc_exists = (\<lambda>p. False), jc_write = (\<lambda>p s. None), jc_tid = 7\<rparr>, no_stale = (\<lambda>i. i)\<rparr>"

theorem noise_shutdown_completes_witness:
  "\<exists>h. (noise_move demo_noise ''noise'' [4] 2)\<^sup>*\<^sup>* noise_handle_init h \<and> nh_pc h = O_Join 0 \<and>
     (\<forall>k h'. ((noise_move demo_noise ''noise'' [4] 2) ^^ k) h h' \<longrightarrow> k \<le> 777)"
proof -
  let ?m = "noise_move demo_noise ''noise'' [4] 2"
  let ?t = "\<lambda>i. noise_thread_of demo_noise i (Some 4)"
  let ?h = "\<lambda>p b ts. \<lparr>nh_pc = p, nh_stop = b, nh_threads = ts\<rparr>"
  have next_spawn: "spawn_next demo_noise [4] i (?h (O_Spawn i) False ts) = ?h (O_Spawn (Suc i)) False (ts @ [?t i])" for i ts
    by (simp add: spawn_next_def noise_pin_def demo_noise_def)
  have "?m (?h (O_Spawn 0) False []) (?h (O_Spawn 1) False [?t 0])"
    using spawn_one [of "?h (O_Spawn 0) False []" 0 2 demo_noise "''noise''" "[4]"] next_spawn [of 0 "[]"] by simp
  moreover have "?m (?h (O_Spawn 1) False [?t 0]) (?h (O_Spawn 2) False [?t 0, ?t 1])"
    using spawn_one [of "?h (O_Spawn 1) False [?t 0]" 1 2 demo_noise "''noise''" "[4]"] next_spawn [of 1 "[?t 0]"] by (simp add: numeral_2_eq_2)
  moreover have "?m (?h (O_Spawn 2) False [?t 0, ?t 1]) (?h O_Running False [?t 0, ?t 1])"
    using spawned_all [of "?h (O_Spawn 2) False [?t 0, ?t 1]" 2] by simp
  moreover have "?m (?h O_Running False [?t 0, ?t 1]) (?h (O_Join 0) True [?t 0, ?t 1])"
    using shutdown_store [of "?h O_Running False [?t 0, ?t 1]"] by simp
  ultimately have run: "?m\<^sup>*\<^sup>* noise_handle_init (?h (O_Join 0) True [?t 0, ?t 1])"
    by (simp add: noise_handle_init_def)
  have bound: "(\<Sum>i < 2. 258 * (no_stale demo_noise i + 1)) + 2 + 1 = 777"
    by (simp add: demo_noise_def numeral_2_eq_2)
  have "nh_pc (?h (O_Join 0) True [?t 0, ?t 1]) = O_Join 0" by simp
  from noise_shutdown_completes [OF run this, THEN conjunct1] this run show ?thesis unfolding bound by blast
qed

end
