(* ===== verification/Shm_Bus.thy ===== *)
theory Shm_Bus
  imports Ring Text
begin

text \<open>
  The shared-memory bus (\<open>shmbus/src/shm.rs\<close>): the layout of the file, \<open>open_or_create\<close>
  and the four ring handles. The file is its length and the \<open>BusLayout\<close> its first bytes
  denote, missing bytes counting as zero; a mapping is shared, so what one process stores in
  the layout is what the other loads. The system calls can fail, with the error as a
  parameter. \<open>open_or_create\<close> is modelled twice: as one call, where only the spin loop sees
  other processes, and as a step relation in which two processes open the same path at once.
\<close>

section \<open>Constants and layout\<close>

definition BUS_MAGIC :: u32 where "BUS_MAGIC = 0x53484D42"
definition BUS_VERSION :: u32 where "BUS_VERSION = 1"

record bus_header =
  hdr_magic :: u32
  hdr_version :: u32
  hdr_ready :: u32

record bus_layout =
  bl_header :: bus_header
  bl_ticks :: spsc_ring
  bl_orders :: spsc_ring

definition BusHeader_layout :: ctype where
  "BusHeader_layout = c_struct 64 [c_u32, c_u32, c_u32, c_array c_u8 (64 - 12)]"

definition BusLayout_layout :: ctype where
  "BusLayout_layout = c_struct 64 [BusHeader_layout, SpscRing_layout, SpscRing_layout]"

definition BUS_SIZE :: nat where "BUS_SIZE = fst BusLayout_layout"

lemma BUS_SIZE_eq: "BUS_SIZE = 4194624"
  by (simp add: BUS_SIZE_def BusLayout_layout_def BusHeader_layout_def layout_simps)

definition zero_bus :: bus_layout where
  "zero_bus =
     \<lparr>bl_header = \<lparr>hdr_magic = 0, hdr_version = 0, hdr_ready = 0\<rparr>,
      bl_ticks = zero_ring, bl_orders = zero_ring\<rparr>"

record bus_file =
  bf_len :: nat
  bf_layout :: bus_layout

definition empty_file :: bus_file where
  "empty_file = \<lparr>bf_len = 0, bf_layout = zero_bus\<rparr>"

section \<open>Opening the bus\<close>

datatype io_error = IO_Os nat | IO_InvalidData string

text \<open>What the system calls of one open answer: \<open>None\<close> for success, or the error.\<close>

record os_answers =
  os_open :: "io_error option"
  os_metadata :: "io_error option"
  os_set_len :: "io_error option"
  os_mmap :: "io_error option"

definition os_ok :: os_answers where
  "os_ok = \<lparr>os_open = None, os_metadata = None, os_set_len = None, os_mmap = None\<rparr>"

text \<open>The stores of the cold initialisation, one function each, in their order.\<close>

definition zero_region :: "bus_layout \<Rightarrow> bus_layout" where
  "zero_region l = zero_bus"

definition init_ticks :: "bus_layout \<Rightarrow> bus_layout" where
  "init_ticks l = l\<lparr>bl_ticks := init_in_place (bl_ticks l)\<rparr>"

definition init_orders :: "bus_layout \<Rightarrow> bus_layout" where
  "init_orders l = l\<lparr>bl_orders := init_in_place (bl_orders l)\<rparr>"

definition store_version :: "bus_layout \<Rightarrow> bus_layout" where
  "store_version l = l\<lparr>bl_header := (bl_header l)\<lparr>hdr_version := BUS_VERSION\<rparr>\<rparr>"

definition store_magic :: "bus_layout \<Rightarrow> bus_layout" where
  "store_magic l = l\<lparr>bl_header := (bl_header l)\<lparr>hdr_magic := BUS_MAGIC\<rparr>\<rparr>"

definition store_ready :: "bus_layout \<Rightarrow> bus_layout" where
  "store_ready l = l\<lparr>bl_header := (bl_header l)\<lparr>hdr_ready := 1\<rparr>\<rparr>"

definition cold_init :: "bus_layout \<Rightarrow> bus_layout" where
  "cold_init l =
     store_ready (store_magic (store_version (init_orders (init_ticks (zero_region l)))))"

definition version_mismatch :: "u32 \<Rightarrow> io_error" where
  "version_mismatch ver =
     IO_InvalidData (''shm bus version mismatch: file='' @ show_nat (unat ver) @ '', code='' @
       show_nat (unat BUS_VERSION))"

text \<open>The value a call returns; \<open>Opened\<close> is the handle, whose only content is the mapping.\<close>

datatype open_result = Opened | OpenError io_error

text \<open>
  \<open>readies\<close> are the values the spin loop loads, in order; with none of them 1 the call has
  not returned. The second component is the file afterwards.
\<close>

definition spin_ready :: "u32 list \<Rightarrow> open_result option" where
  "spin_ready readies = (if 1 \<in> set readies then Some Opened else None)"

definition map_and_init ::
  "os_answers \<Rightarrow> u32 list \<Rightarrow> bool \<Rightarrow> bus_file \<Rightarrow> open_result option \<times> bus_file" where
  "map_and_init os readies fresh f =
     (case os_mmap os of
        Some e \<Rightarrow> (Some (OpenError e), f)
      | None \<Rightarrow>
          let hdr = bl_header (bf_layout f)
          in if fresh \<or> hdr_magic hdr \<noteq> BUS_MAGIC
             then (Some Opened, f\<lparr>bf_layout := cold_init (bf_layout f)\<rparr>)
             else let ver = hdr_version hdr
                  in if ver \<noteq> BUS_VERSION then (Some (OpenError (version_mismatch ver)), f)
                     else (spin_ready readies, f))"

definition size_file ::
  "os_answers \<Rightarrow> u32 list \<Rightarrow> bus_file \<Rightarrow> open_result option \<times> bus_file" where
  "size_file os readies f =
     (case os_metadata os of
        Some e \<Rightarrow> (Some (OpenError e), f)
      | None \<Rightarrow>
          let fresh = bf_len f < BUS_SIZE
          in if fresh
             then (case os_set_len os of
                     Some e \<Rightarrow> (Some (OpenError e), f)
                   | None \<Rightarrow> map_and_init os readies fresh (f\<lparr>bf_len := BUS_SIZE\<rparr>))
             else map_and_init os readies fresh f)"

definition open_or_create ::
  "os_answers \<Rightarrow> u32 list \<Rightarrow> bus_file option \<Rightarrow> open_result option \<times> bus_file option" where
  "open_or_create os readies file =
     (case os_open os of
        Some e \<Rightarrow> (Some (OpenError e), file)
      | None \<Rightarrow>
          let (r, f) = size_file os readies (case file of None \<Rightarrow> empty_file | Some f \<Rightarrow> f)
          in (r, Some f))"

definition ticks_producer :: "bus_layout \<Rightarrow> ring_producer" where
  "ticks_producer l = RingProducer_new (bl_ticks l)"

definition ticks_consumer :: "bus_layout \<Rightarrow> ring_consumer" where
  "ticks_consumer l = RingConsumer_new (bl_ticks l)"

definition orders_producer :: "bus_layout \<Rightarrow> ring_producer" where
  "orders_producer l = RingProducer_new (bl_orders l)"

definition orders_consumer :: "bus_layout \<Rightarrow> ring_consumer" where
  "orders_consumer l = RingConsumer_new (bl_orders l)"

section \<open>Two processes opening at once\<close>

text \<open>Where a process is in \<open>open_or_create\<close>, with the value of \<open>fresh\<close> while it is live.\<close>

datatype open_pc =
    At_Open | At_Metadata | At_SetLen | At_Magic bool | At_Zero | At_Ticks | At_Orders
  | At_StoreVersion | At_StoreMagic | At_StoreReady | At_Version | At_Spin
  | At_Done | At_Failed io_error

type_synonym openers = "bus_file option \<times> open_pc \<times> open_pc"

text \<open>One system call, load or store of one process.\<close>

fun open_step :: "bus_file option \<Rightarrow> open_pc \<Rightarrow> (bus_file option \<times> open_pc) option" where
  "open_step None At_Open = Some (Some empty_file, At_Metadata)"
| "open_step (Some f) At_Open = Some (Some f, At_Metadata)"
| "open_step (Some f) At_Metadata =
     Some (Some f, if bf_len f < BUS_SIZE then At_SetLen else At_Magic False)"
| "open_step (Some f) At_SetLen = Some (Some (f\<lparr>bf_len := BUS_SIZE\<rparr>), At_Magic True)"
| "open_step (Some f) (At_Magic fresh) =
     Some (Some f, if fresh \<or> hdr_magic (bl_header (bf_layout f)) \<noteq> BUS_MAGIC then At_Zero else At_Version)"
| "open_step (Some f) At_Zero = Some (Some (f\<lparr>bf_layout := zero_region (bf_layout f)\<rparr>), At_Ticks)"
| "open_step (Some f) At_Ticks = Some (Some (f\<lparr>bf_layout := init_ticks (bf_layout f)\<rparr>), At_Orders)"
| "open_step (Some f) At_Orders =
     Some (Some (f\<lparr>bf_layout := init_orders (bf_layout f)\<rparr>), At_StoreVersion)"
| "open_step (Some f) At_StoreVersion =
     Some (Some (f\<lparr>bf_layout := store_version (bf_layout f)\<rparr>), At_StoreMagic)"
| "open_step (Some f) At_StoreMagic =
     Some (Some (f\<lparr>bf_layout := store_magic (bf_layout f)\<rparr>), At_StoreReady)"
| "open_step (Some f) At_StoreReady =
     Some (Some (f\<lparr>bf_layout := store_ready (bf_layout f)\<rparr>), At_Done)"
| "open_step (Some f) At_Version =
     (let ver = hdr_version (bl_header (bf_layout f))
      in Some (Some f, if ver \<noteq> BUS_VERSION then At_Failed (version_mismatch ver) else At_Spin))"
| "open_step (Some f) At_Spin =
     Some (Some f, if hdr_ready (bl_header (bf_layout f)) \<noteq> 1 then At_Spin else At_Done)"
| "open_step f pc = None"

text \<open>A step of either process.\<close>

inductive openers_step :: "openers \<Rightarrow> openers \<Rightarrow> bool" where
  first: "open_step f a = Some (f', a') \<Longrightarrow> openers_step (f, a, b) (f', a', b)"
| second: "open_step f b = Some (f', b') \<Longrightarrow> openers_step (f, a, b) (f', a, b')"

inductive openers_reach :: "openers \<Rightarrow> openers \<Rightarrow> bool" where
  refl: "openers_reach s s"
| step: "openers_reach s t \<Longrightarrow> openers_step t u \<Longrightarrow> openers_reach s u"

inductive_cases openers_stepE: "openers_step (f, a, b) t"

section \<open>The initialised bus\<close>

lemmas cold_stores =
  zero_region_def init_ticks_def init_orders_def store_version_def store_magic_def store_ready_def

definition fresh_bus :: bus_layout where
  "fresh_bus =
     \<lparr>bl_header = \<lparr>hdr_magic = BUS_MAGIC, hdr_version = BUS_VERSION, hdr_ready = 1\<rparr>,
      bl_ticks = zero_ring, bl_orders = zero_ring\<rparr>"

lemma cold_init_fresh [simp]: "cold_init l = fresh_bus"
  by (simp add: cold_init_def cold_stores zero_bus_def fresh_bus_def init_zero_ring)

definition bus_wf :: "bus_layout \<Rightarrow> bool" where
  "bus_wf l \<longleftrightarrow>
     hdr_magic (bl_header l) = BUS_MAGIC \<and> hdr_version (bl_header l) = BUS_VERSION \<and>
     hdr_ready (bl_header l) = 1 \<and> ring_wf (bl_ticks l) \<and> ring_wf (bl_orders l)"

lemma fresh_bus_wf: "bus_wf fresh_bus"
  by (simp add: bus_wf_def fresh_bus_def zero_ring_wf)

text \<open>The handles the two programs take on an opened bus.\<close>

definition bus_ticks :: "bus_layout \<Rightarrow> ring_ends" where
  "bus_ticks l = (bl_ticks l, ticks_producer l, ticks_consumer l)"

definition bus_orders :: "bus_layout \<Rightarrow> ring_ends" where
  "bus_orders l = (bl_orders l, orders_producer l, orders_consumer l)"

lemma fresh_bus_handles: "bus_ticks fresh_bus = fresh_ends" "bus_orders fresh_bus = fresh_ends"
  by (simp_all add: bus_ticks_def bus_orders_def fresh_ends_def Let_def fresh_bus_def init_zero_ring
      ticks_producer_def ticks_consumer_def orders_producer_def orders_consumer_def)

text \<open>C22. What one open does when no system call fails. A missing or too short file, or one
  without the magic number, is initialised: afterwards the header is complete and both rings
  are well formed and empty, with any earlier contents gone. A file of the right size and
  magic number but another version is refused with an error that names both versions, and is
  not touched. Otherwise the call attaches: the file, with any unread messages in its rings, is
  unchanged, and the call returns once it has seen the ready flag.\<close>

theorem open_or_create_spec:
  "(let (result, file') = open_or_create os_ok readies file
    in case file of
         Some f \<Rightarrow>
           if BUS_SIZE \<le> bf_len f \<and> hdr_magic (bl_header (bf_layout f)) = BUS_MAGIC
           then (if hdr_version (bl_header (bf_layout f)) = BUS_VERSION
                 then result = (if 1 \<in> set readies then Some Opened else None) \<and> file' = Some f
                 else result = Some (OpenError (version_mismatch (hdr_version (bl_header (bf_layout f))))) \<and>
                   file' = Some f)
           else result = Some Opened \<and>
             file' = Some \<lparr>bf_len = max (bf_len f) BUS_SIZE, bf_layout = fresh_bus\<rparr>
       | None \<Rightarrow> result = Some Opened \<and> file' = Some \<lparr>bf_len = BUS_SIZE, bf_layout = fresh_bus\<rparr>) \<and>
   bus_wf fresh_bus \<and> ring_queue (bl_ticks fresh_bus) = [] \<and> ring_queue (bl_orders fresh_bus) = []"
  by (auto simp: open_or_create_def size_file_def map_and_init_def spin_ready_def os_ok_def
      Let_def empty_file_def BUS_SIZE_eq fresh_bus_wf max_def split: option.splits)
    (simp_all add: fresh_bus_def zero_ring_wf)

text \<open>A failed open never harms a bus in use: whichever system call fails, or on a
  version mismatch, everything the file holds is as before; the file may at most have been
  created or extended.\<close>

theorem open_error_keeps_bus:
  assumes "open_or_create os readies (Some f) = (Some (OpenError e), file')"
  shows "\<exists>n. file' = Some (f\<lparr>bf_len := n\<rparr>) \<and> (n = bf_len f \<or> n = BUS_SIZE \<and> bf_len f < BUS_SIZE)"
proof -
  have "\<exists>n. f = f\<lparr>bf_len := n\<rparr> \<and> (n = bf_len f \<or> n = BUS_SIZE \<and> bf_len f < BUS_SIZE)"
    by (rule exI [of _ "bf_len f"]) simp
  then show ?thesis
    using assms
    by (auto simp: open_or_create_def size_file_def map_and_init_def spin_ready_def Let_def
        split: option.splits if_splits)
qed

theorem open_error_keeps_bus_witness:
  "\<exists>n. snd (open_or_create os_ok [] (Some \<lparr>bf_len = BUS_SIZE, bf_layout =
       fresh_bus\<lparr>bl_header := \<lparr>hdr_magic = BUS_MAGIC, hdr_version = 7, hdr_ready = 1\<rparr>\<rparr>\<rparr>)) =
     Some \<lparr>bf_len = n, bf_layout =
       fresh_bus\<lparr>bl_header := \<lparr>hdr_magic = BUS_MAGIC, hdr_version = 7, hdr_ready = 1\<rparr>\<rparr>\<rparr>"
proof -
  let ?f = "\<lparr>bf_len = BUS_SIZE, bf_layout =
      fresh_bus\<lparr>bl_header := \<lparr>hdr_magic = BUS_MAGIC, hdr_version = 7, hdr_ready = 1\<rparr>\<rparr>\<rparr>"
  have "open_or_create os_ok [] (Some ?f) = (Some (OpenError (version_mismatch 7)), Some ?f)"
    using open_or_create_spec [of "[]" "Some ?f"] by (simp add: Let_def BUS_VERSION_def split: prod.splits)
  with open_error_keeps_bus [OF this] show ?thesis by auto
qed

section \<open>Racing opens\<close>

lemma openers_reach_trans: "openers_reach t u \<Longrightarrow> openers_reach s t \<Longrightarrow> openers_reach s u"
  by (induction rule: openers_reach.induct) (auto intro: openers_reach.intros)

lemma openers_first:
  "open_step f a = Some (f', a') \<Longrightarrow> openers_reach (f', a', b) u \<Longrightarrow> openers_reach (f, a, b) u"
  by (meson openers_reach.intros openers_reach_trans openers_step.first)

lemma openers_second:
  "open_step f b = Some (f', b') \<Longrightarrow> openers_reach (f', a, b') u \<Longrightarrow> openers_reach (f, a, b) u"
  by (meson openers_reach.intros openers_reach_trans openers_step.second)

text \<open>A process that runs its cold initialisation to the end.\<close>

lemma cold_path_first:
  "openers_reach (Some f, At_Zero, b) (Some (f\<lparr>bf_layout := fresh_bus\<rparr>), At_Done, b)"
proof -
  have "store_ready (store_magic (store_version (init_orders (init_ticks (zero_region (bf_layout f)))))) =
      fresh_bus"
    using cold_init_fresh [of "bf_layout f"] by (simp only: cold_init_def)
  then show ?thesis
    by - (rule openers_first [OF open_step.simps(6)], rule openers_first [OF open_step.simps(7)],
      rule openers_first [OF open_step.simps(8)], rule openers_first [OF open_step.simps(9)],
      rule openers_first [OF open_step.simps(10)], rule openers_first [OF open_step.simps(11)],
      simp add: openers_reach.refl)
qed

lemma cold_path_second:
  "openers_reach (Some f, a, At_Zero) (Some (f\<lparr>bf_layout := fresh_bus\<rparr>), a, At_Done)"
proof -
  have "store_ready (store_magic (store_version (init_orders (init_ticks (zero_region (bf_layout f)))))) =
      fresh_bus"
    using cold_init_fresh [of "bf_layout f"] by (simp only: cold_init_def)
  then show ?thesis
    by - (rule openers_second [OF open_step.simps(6)], rule openers_second [OF open_step.simps(7)],
      rule openers_second [OF open_step.simps(8)], rule openers_second [OF open_step.simps(9)],
      rule openers_second [OF open_step.simps(10)], rule openers_second [OF open_step.simps(11)],
      simp add: openers_reach.refl)
qed

text \<open>
  What the header holds once a process is past its own zeroing, if nobody has zeroed the
  region after it.
\<close>

fun stored_by :: "open_pc \<Rightarrow> bus_header \<Rightarrow> bool" where
  "stored_by At_Ticks h = True"
| "stored_by At_Orders h = True"
| "stored_by At_StoreVersion h = True"
| "stored_by At_StoreMagic h = (hdr_version h = BUS_VERSION)"
| "stored_by At_StoreReady h = (hdr_version h = BUS_VERSION \<and> hdr_magic h = BUS_MAGIC)"
| "stored_by At_Done h =
     (hdr_version h = BUS_VERSION \<and> hdr_magic h = BUS_MAGIC \<and> hdr_ready h = 1)"
| "stored_by pc h = False"

fun before_zero :: "open_pc \<Rightarrow> bool" where
  "before_zero At_Open = True"
| "before_zero At_Metadata = True"
| "before_zero At_SetLen = True"
| "before_zero (At_Magic fresh) = True"
| "before_zero At_Zero = True"
| "before_zero pc = False"

fun progress :: "open_pc \<Rightarrow> nat" where
  "progress At_Ticks = 1"
| "progress At_Orders = 1"
| "progress At_StoreVersion = 1"
| "progress At_StoreMagic = 2"
| "progress At_StoreReady = 3"
| "progress At_Done = 4"
| "progress pc = 0"

fun attaching :: "open_pc \<Rightarrow> bool" where
  "attaching At_Version = True"
| "attaching At_Spin = True"
| "attaching pc = False"

fun failed :: "open_pc \<Rightarrow> bool" where
  "failed (At_Failed e) = True"
| "failed pc = False"

text \<open>
  The invariant of two processes that open a path where there was no file: the rings are
  never anything but empty, a header field is zero or final, and once a process is past its
  zeroing, one of the two has zeroed last and the header holds what it stored since. A
  process attaches only behind one that has stored the magic number.
\<close>

definition header_inv :: "bus_header \<Rightarrow> open_pc \<Rightarrow> open_pc \<Rightarrow> bool" where
  "header_inv h a b \<longleftrightarrow>
     (hdr_version h = BUS_VERSION \<and> (2 \<le> progress a \<or> 2 \<le> progress b) \<or> hdr_version h = 0) \<and>
     (hdr_magic h = BUS_MAGIC \<and> (3 \<le> progress a \<or> 3 \<le> progress b) \<or> hdr_magic h = 0) \<and>
     (hdr_ready h = 1 \<and> (4 \<le> progress a \<or> 4 \<le> progress b) \<or> hdr_ready h = 0) \<and>
     (before_zero a \<and> before_zero b \<or> stored_by a h \<or> stored_by b h) \<and>
     (attaching a \<longrightarrow> 3 \<le> progress b \<and> stored_by b h) \<and>
     (attaching b \<longrightarrow> 3 \<le> progress a \<and> stored_by a h) \<and>
     \<not> failed a \<and> \<not> failed b"

fun openers_inv :: "openers \<Rightarrow> bool" where
  "openers_inv (None, a, b) = (a = At_Open \<and> b = At_Open)"
| "openers_inv (Some f, a, b) =
     (bl_ticks (bf_layout f) = zero_ring \<and> bl_orders (bf_layout f) = zero_ring \<and>
      header_inv (bl_header (bf_layout f)) a b)"

lemma header_inv_sym: "header_inv h a b \<longleftrightarrow> header_inv h b a"
  unfolding header_inv_def by blast

lemma BUS_consts: "BUS_MAGIC \<noteq> 0" "BUS_VERSION \<noteq> 0"
  by (simp_all add: BUS_MAGIC_def BUS_VERSION_def)

lemma open_step_inv:
  assumes "openers_inv (file, a, b)" "open_step file a = Some (file', a')"
  shows "openers_inv (file', a', b)"
proof (cases "file")
  case None
  with assms show ?thesis
    by (cases a) (auto simp: empty_file_def zero_bus_def header_inv_def)
next
  case (Some f)
  have inv: "bl_ticks (bf_layout f) = zero_ring" "bl_orders (bf_layout f) = zero_ring"
    "header_inv (bl_header (bf_layout f)) a b"
    using assms(1) by (simp_all add: Some)
  show ?thesis
    using inv assms(2)
    by (cases a; cases b)
      (auto simp: Some header_inv_def BUS_consts cold_stores zero_bus_def init_zero_ring Let_def
        split: if_splits)
qed

lemma openers_inv_reach:
  assumes "openers_reach s t" "openers_inv s"
  shows "openers_inv t"
  using assms
proof (induction rule: openers_reach.induct)
  case (refl s)
  then show ?case .
next
  case (step s t u)
  have sym: "openers_inv (f, a, b) \<longleftrightarrow> openers_inv (f, b, a)" for f a b
    by (cases f) (auto simp: header_inv_sym)
  from step(2) step.IH [OF step.prems] show ?case
    by cases (use open_step_inv sym in blast)+
qed

text \<open>Two processes that open the same path at the same time, in any interleaving of
  their system calls, loads and stores: neither ever reports a version mismatch, and when
  both have returned the file is a complete bus with empty rings, whichever of them
  initialised it.\<close>

theorem racing_opens_complete:
  assumes "openers_reach (None, At_Open, At_Open) (file, a, b)"
  shows "(\<forall>e. a \<noteq> At_Failed e \<and> b \<noteq> At_Failed e) \<and>
    (a = At_Done \<and> b = At_Done \<longrightarrow> (\<exists>f. file = Some f \<and> bf_layout f = fresh_bus))"
proof -
  have inv: "openers_inv (file, a, b)" by (rule openers_inv_reach [OF assms]) simp
  show ?thesis
  proof (cases "file")
    case None
    with inv show ?thesis by simp
  next
    case (Some f)
    with inv have h: "header_inv (bl_header (bf_layout f)) a b"
      and rings: "bl_ticks (bf_layout f) = zero_ring" "bl_orders (bf_layout f) = zero_ring"
      by simp_all
    have "\<not> failed a" "\<not> failed b" using h by (simp_all add: header_inv_def)
    moreover have "bf_layout f = fresh_bus" if "a = At_Done" "b = At_Done"
    proof -
      have "stored_by At_Done (bl_header (bf_layout f))" using h that by (simp add: header_inv_def)
      then show ?thesis using rings by (intro bus_layout.equality bus_header.equality) (simp_all add: fresh_bus_def)
    qed
    ultimately show ?thesis using Some by auto
  qed
qed

lemma racing_run:
  "openers_reach (None, At_Open, At_Open)
     (Some \<lparr>bf_len = BUS_SIZE, bf_layout = fresh_bus\<rparr>, At_Done, At_Zero)"
proof -
  let ?z = "\<lparr>bf_len = BUS_SIZE, bf_layout = zero_bus\<rparr>"
  have len: "bf_len empty_file < BUS_SIZE" "empty_file\<lparr>bf_len := BUS_SIZE\<rparr> = ?z"
    by (simp_all add: empty_file_def BUS_SIZE_eq)
  have "openers_reach (Some ?z, At_Zero, At_Zero)
      (Some \<lparr>bf_len = BUS_SIZE, bf_layout = fresh_bus\<rparr>, At_Done, At_Zero)"
    using cold_path_first [of ?z At_Zero] by simp
  then have "openers_reach (Some ?z, At_Magic True, At_Magic True)
      (Some \<lparr>bf_len = BUS_SIZE, bf_layout = fresh_bus\<rparr>, At_Done, At_Zero)"
    by (intro openers_first [of "Some ?z" "At_Magic True" "Some ?z" At_Zero]
        openers_second [of "Some ?z" "At_Magic True" "Some ?z" At_Zero]) simp_all
  then have "openers_reach (Some empty_file, At_SetLen, At_SetLen)
      (Some \<lparr>bf_len = BUS_SIZE, bf_layout = fresh_bus\<rparr>, At_Done, At_Zero)"
    by (intro openers_first [of "Some empty_file" At_SetLen "Some ?z" "At_Magic True"]
        openers_second [of "Some ?z" At_SetLen "Some ?z" "At_Magic True"]) (simp_all add: len)
  then show ?thesis
    by (intro openers_first [of None At_Open "Some empty_file" At_Metadata]
        openers_second [of "Some empty_file" At_Open "Some empty_file" At_Metadata]
        openers_first [of "Some empty_file" At_Metadata "Some empty_file" At_SetLen]
        openers_second [of "Some empty_file" At_Metadata "Some empty_file" At_SetLen])
      (simp_all add: len(1))
qed

theorem racing_opens_complete_witness:
  "\<exists>f. openers_reach (None, At_Open, At_Open) (Some f, At_Done, At_Done) \<and> bf_layout f = fresh_bus"
proof -
  let ?f = "\<lparr>bf_len = BUS_SIZE, bf_layout = fresh_bus\<rparr>"
  have "openers_reach (None, At_Open, At_Open) (Some ?f, At_Done, At_Done)"
    using openers_reach_trans [OF cold_path_second [of ?f At_Done] racing_run] by simp
  then show ?thesis using racing_opens_complete [of "Some ?f" At_Done At_Done] by blast
qed

text \<open>C21. The same race lets the second process wipe a bus that is already in use, though the
  module says that only the one who observes a fresh file initialises it. Both processes read
  the length before either extends the file; the first returns and publishes any message; the
  second, still on its initialisation path, zeroes the region and returns. The message is
  gone, and since the first process's cursor is ahead of the new ring by one slot, the next
  message it publishes is not seen by the consumer either: it waits for the slot before.\<close>

theorem racing_opens_lose_messages:
  assumes "length m \<le> SLOT_PAYLOAD" "length m' \<le> SLOT_PAYLOAD"
  shows "\<exists>f f' p r r' p'.
    openers_reach (None, At_Open, At_Open) (Some f, At_Done, At_Zero) \<and>
    p = ticks_producer (bf_layout f) \<and>
    try_publish m (bl_ticks (bf_layout f)) p = Inr (True, r, p') \<and>
    ring_queue r = [pad_payload m] \<and>
    openers_reach (Some (f\<lparr>bf_layout := (bf_layout f)\<lparr>bl_ticks := r\<rparr>\<rparr>), At_Done, At_Zero)
      (Some f', At_Done, At_Done) \<and>
    ring_queue (bl_ticks (bf_layout f')) = [] \<and>
    (\<exists>p''. try_publish m' (bl_ticks (bf_layout f')) p' = Inr (True, r', p'')) \<and>
    (\<forall>out. SLOT_PAYLOAD \<le> length out \<longrightarrow>
       (\<exists>c. try_consume out r' (ticks_consumer (bf_layout f')) = Inr (None, out, r', c)))"
proof -
  let ?f = "\<lparr>bf_len = BUS_SIZE, bf_layout = fresh_bus\<rparr>"
  let ?r = "published_ring m zero_ring"
  let ?i = "slot_index 1"
  let ?r' = "zero_ring\<lparr>ring_slots := (ring_slots zero_ring)
      [?i := (ring_slots zero_ring ! ?i)\<lparr>slot_payload := pad_payload m', slot_seq := 2\<rparr>], ring_head := 2\<rparr>"
  have q: "queue_len zero_ring < RING_CAPACITY" "ring_queue zero_ring = []"
    using zero_ring_wf(2) length_ring_queue [of zero_ring] by (simp_all add: RING_CAPACITY_def)
  have pub: "try_publish m zero_ring \<lparr>prod_next_seq = 0\<rparr> = Inr (True, ?r, \<lparr>prod_next_seq = 1\<rparr>)"
    using try_publish_room [of "\<lparr>prod_next_seq = 0\<rparr>" zero_ring m] q(1) assms(1)
    by (simp add: zero_ring_def)
  have "bl_ticks fresh_bus = zero_ring" "ticks_producer fresh_bus = \<lparr>prod_next_seq = 0\<rparr>"
    "ticks_consumer fresh_bus = \<lparr>cons_next_seq = 0\<rparr>"
    by (simp_all add: fresh_bus_def ticks_producer_def ticks_consumer_def RingProducer_new_def
        RingConsumer_new_def zero_ring_def)
  note B = this
  have pub2: "try_publish m' zero_ring \<lparr>prod_next_seq = 1\<rparr> = Inr (True, ?r', \<lparr>prod_next_seq = 2\<rparr>)"
    using assms(2) by (simp add: try_publish_def Let_def zero_ring_def RING_CAPACITY_def word_le_nat_alt)
  have idx: "slot_index 0 = 0" "slot_index 1 = 1"
    by (simp_all add: slot_index_def RING_MASK_def RING_CAPACITY_def)
  have seq0: "slot_seq (ring_slots ?r' ! 0) = 0"
    by (simp add: idx zero_ring_def RING_CAPACITY_def zero_slot_def)
  have cons: "try_consume out ?r' \<lparr>cons_next_seq = 0\<rparr> = Inr (None, out, ?r', \<lparr>cons_next_seq = 0\<rparr>)"
    if "SLOT_PAYLOAD \<le> length out" for out
    unfolding try_consume_def Let_def ring_consumer.simps idx using that seq0
    by (simp add: idx zero_ring_def RING_CAPACITY_def zero_slot_def)
  have wipe: "openers_reach (Some (?f\<lparr>bf_layout := fresh_bus\<lparr>bl_ticks := ?r\<rparr>\<rparr>), At_Done, At_Zero)
      (Some ?f, At_Done, At_Done)"
    using cold_path_second [of "?f\<lparr>bf_layout := fresh_bus\<lparr>bl_ticks := ?r\<rparr>\<rparr>" At_Done] by simp
  have rq: "ring_queue ?r = [pad_payload m]"
    using published_ring_queue [OF zero_ring_wf(1) q(1), of m] q(2) by simp
  show ?thesis
    apply (rule exI [of _ ?f], rule exI [of _ ?f], rule exI [of _ "\<lparr>prod_next_seq = 0\<rparr>"],
        rule exI [of _ ?r], rule exI [of _ ?r'], rule exI [of _ "\<lparr>prod_next_seq = 1\<rparr>"])
    using racing_run pub pub2 cons wipe rq q(2) by (auto simp: B)
qed

theorem racing_opens_lose_messages_witness:
  "\<exists>f f'. openers_reach (None, At_Open, At_Open) (Some f, At_Done, At_Zero) \<and>
     ring_queue (bl_ticks (bf_layout f')) = [] \<and>
     (\<exists>r. ring_queue r = [pad_payload [1]] \<and>
        openers_reach (Some (f\<lparr>bf_layout := (bf_layout f)\<lparr>bl_ticks := r\<rparr>\<rparr>), At_Done, At_Zero)
          (Some f', At_Done, At_Done))"
  using racing_opens_lose_messages [of "[1]" "[2]"] by (auto simp: SLOT_PAYLOAD_def)

section \<open>The memory layout\<close>

text \<open>The layout both processes agree on: a slot takes 128 bytes, not the 96 of its fields,
  so a ring takes \<open>2097280\<close> bytes; the rings lie at offsets 64 and \<open>2097344\<close> of a file of \<open>4194624\<close>
  bytes, each on a cache line; the capacity is the power of two the index mask needs; and both
  messages fit the payload of a slot, as the compile-time assertions say.\<close>

theorem bus_memory_layout:
  "Slot_layout = (128, 64) \<and> SpscRing_layout = (2097280, 64) \<and>
   c_offsets 0 [BusHeader_layout, SpscRing_layout, SpscRing_layout] = [0, 64, 2097344] \<and>
   BUS_SIZE = 4194624 \<and> RING_CAPACITY = 2 ^ 14 \<and> unat RING_MASK = RING_CAPACITY - 1 \<and>
   MarketTick_SIZE \<le> SLOT_PAYLOAD \<and> OrderMsg_SIZE \<le> SLOT_PAYLOAD"
  by (simp add: layout_simps BUS_SIZE_eq BusHeader_layout_def RING_CAPACITY_def RING_MASK_def
      SLOT_PAYLOAD_def)

end
