(* ===== verification/Binaries.thy ===== *)
theory Binaries
  imports Noise_Threads Report Shm_Bus Engine_Workers Feedhandler
begin

text \<open>
  The outer part of the programs: what \<open>main\<close> of the engine, the feedhandler and the exchange does
  before its loop, in the order of its early returns, up to the opening of the bus in the first two,
  and their reports at the end (\<open>finalise_report\<close>). The system calls are arguments. The lemmas show that a start-up that fails
  leaves the bus alone, and which noise threads it leaves running.
\<close>

section \<open>Starting\<close>

text \<open>What the start-up needs from the system: the calls that pin, the cache groups, whether the noise thread of
  a given number can be spawned, and the answers while the bus is opened.\<close>

record startup_os =
  su_pin :: affinity_calls
  su_join :: join_calls
  su_spawn :: "nat \<Rightarrow> bool"
  su_open :: os_answers
  su_readies :: "u32 list"

record startup_args =
  sa_pin_cpu :: "nat option"
  sa_resctrl_group :: string
  sa_noise_threads :: nat
  sa_noise_cpus :: string

datatype startup_error =
  CannotPin nat nat | CannotJoin join_error | BadCpuList string string | CannotOpen io_error | StartPanic panic

text \<open>The steps that both programs begin with: pin the main thread, join the group.\<close>

definition place_main :: "startup_os \<Rightarrow> startup_args \<Rightarrow> startup_error option" where
  "place_main os args =
     (case (case sa_pin_cpu args of None \<Rightarrow> Pinned | Some c \<Rightarrow> pin_to_cpu (su_pin os) c) of
        PinFailed e \<Rightarrow> Some (CannotPin (the (sa_pin_cpu args)) e)
      | PinPanicked \<Rightarrow> Some (StartPanic LibraryPanic)
      | Pinned \<Rightarrow>
          if sa_resctrl_group args = [] then None
          else map_option CannotJoin (fst (join_group (su_join os) (sa_resctrl_group args) False)))"

text \<open>A CPU list given as an option of the program, with the option's name in the error.\<close>

definition cpu_option :: "string \<Rightarrow> string \<Rightarrow> startup_error + nat list" where
  "cpu_option flag s = (case parse_cpu_list s of Inl e \<Rightarrow> Inl (BadCpuList flag e) | Inr cs \<Rightarrow> Inr cs)"

text \<open>A noise thread is known by its name and CPU. The threads are started one after the other (\<open>spawn_noise\<close>); when one cannot
  be, \<open>expect\<close> panics, and those started before it are running.\<close>

type_synonym noise_threads = "(string \<times> nat option) list"

fun start_threads :: "startup_os \<Rightarrow> nat list \<Rightarrow> nat list \<Rightarrow> noise_threads \<Rightarrow> panic option \<times> noise_threads" where
  "start_threads os pinned [] threads = (None, threads)"
| "start_threads os pinned (i # is) threads =
     (case noise_pin pinned i of
        Inl e \<Rightarrow> (Some e, threads)
      | Inr pin \<Rightarrow>
          if su_spawn os i then start_threads os pinned is (threads @ [(''noise-'' @ show_nat i, pin)])
          else (Some LibraryPanic, threads))"

definition start_noise :: "startup_os \<Rightarrow> startup_args \<Rightarrow> nat list \<Rightarrow> panic option \<times> noise_threads" where
  "start_noise os args noise_cpus =
     (if 0 < sa_noise_threads args then start_threads os noise_cpus [0..<sa_noise_threads args] [] else (None, []))"

text \<open>The list of the noise threads' CPUs and the threads, up to here alike in all three programs.\<close>

definition noise_startup :: "startup_os \<Rightarrow> startup_args \<Rightarrow> (startup_error + nat list) \<times> noise_threads" where
  "noise_startup os args =
     (case cpu_option ''--noise-cpus'' (sa_noise_cpus args) of
        Inl e \<Rightarrow> (Inl e, [])
      | Inr noise_cpus \<Rightarrow>
          (case start_noise os args noise_cpus of
             (Some p, threads) \<Rightarrow> (Inl (StartPanic p), threads)
           | (None, threads) \<Rightarrow> (Inr noise_cpus, threads)))"

definition exchange_startup :: "startup_os \<Rightarrow> startup_args \<Rightarrow> (startup_error + nat list) \<times> noise_threads" where
  "exchange_startup os args = (case place_main os args of Some e \<Rightarrow> (Inl e, []) | None \<Rightarrow> noise_startup os args)"

text \<open>
  From the noise threads to the open bus. The result is \<open>None\<close> if the call that opens the bus does not return;
  the other two components are the threads started and the bus file.
\<close>

definition noise_and_bus ::
  "startup_os \<Rightarrow> startup_args \<Rightarrow> bus_file option
   \<Rightarrow> (startup_error + nat list) option \<times> noise_threads \<times> bus_file option" where
  "noise_and_bus os args file =
     (case noise_startup os args of
        (Inl e, threads) \<Rightarrow> (Some (Inl e), threads, file)
      | (Inr noise_cpus, threads) \<Rightarrow>
          (case open_or_create (su_open os) (su_readies os) file of
             (None, f) \<Rightarrow> (None, threads, f)
           | (Some (OpenError e), f) \<Rightarrow> (Some (Inl (CannotOpen e)), threads, f)
           | (Some Opened, f) \<Rightarrow> (Some (Inr noise_cpus), threads, f)))"

definition feedhandler_startup ::
  "startup_os \<Rightarrow> startup_args \<Rightarrow> bus_file option
   \<Rightarrow> (startup_error + nat list) option \<times> noise_threads \<times> bus_file option" where
  "feedhandler_startup os args file =
     (case place_main os args of
        Some e \<Rightarrow> (Some (Inl e), [], file)
      | None \<Rightarrow> noise_and_bus os args file)"

text \<open>The engine reads the list of its workers' CPUs first; its result holds both lists.\<close>

definition engine_startup ::
  "startup_os \<Rightarrow> startup_args \<Rightarrow> string \<Rightarrow> bus_file option
   \<Rightarrow> (startup_error + nat list \<times> nat list) option \<times> noise_threads \<times> bus_file option" where
  "engine_startup os args worker_cpus file =
     (case place_main os args of
        Some e \<Rightarrow> (Some (Inl e), [], file)
      | None \<Rightarrow>
          (case cpu_option ''--worker-cpus'' worker_cpus of
             Inl e \<Rightarrow> (Some (Inl e), [], file)
           | Inr ws \<Rightarrow>
               (case noise_and_bus os args file of
                  (None, ts, f) \<Rightarrow> (None, ts, f)
                | (Some (Inl e), ts, f) \<Rightarrow> (Some (Inl e), ts, f)
                | (Some (Inr ns), ts, f) \<Rightarrow> (Some (Inr (ws, ns)), ts, f))))"

subsection \<open>What a start-up does to the bus\<close>

text \<open>What is left of a bus file after a failure with error \<open>e\<close>, and the threads that run.\<close>

definition untouched ::
  "startup_os \<Rightarrow> startup_args \<Rightarrow> startup_error \<Rightarrow> noise_threads \<Rightarrow> bus_file \<Rightarrow> bus_file option \<Rightarrow> bool" where
  "untouched os args e threads f file' \<longleftrightarrow>
     (case e of
        CannotOpen io \<Rightarrow>
          (\<exists>n. file' = Some (f\<lparr>bf_len := n\<rparr>) \<and> (n = bf_len f \<or> n = BUS_SIZE \<and> bf_len f < BUS_SIZE)) \<and>
          length threads = sa_noise_threads args
      | StartPanic p \<Rightarrow> file' = Some f \<and>
          (threads = [] \<or> length threads < sa_noise_threads args \<and> \<not> su_spawn os (length threads)) \<and>
          (\<forall>i < length threads. su_spawn os i)
      | _ \<Rightarrow> file' = Some f \<and> threads = [])"

lemma cpu_option_error: "cpu_option flag s = Inl e \<Longrightarrow> \<exists>m. e = BadCpuList flag m"
  by (auto simp: cpu_option_def split: sum.splits)

text \<open>The threads are started up to the first that cannot be.\<close>

lemma start_threads_result:
  assumes "start_threads os cpus [i..<n] ts = (r, ts')" "length ts = i" "i \<le> n" "\<forall>j < i. su_spawn os j"
  shows "(\<forall>j < length ts'. su_spawn os j) \<and> (case r of None \<Rightarrow> length ts' = n
    | Some p \<Rightarrow> p = LibraryPanic \<and> length ts' < n \<and> \<not> su_spawn os (length ts'))"
  using assms
proof (induction "n - i" arbitrary: i ts)
  case 0
  then show ?case by auto
next
  case (Suc m)
  then have up: "[i..<n] = i # [Suc i..<n]" by (simp add: upt_conv_Cons)
  obtain pin where pin: "noise_pin cpus i = Inr pin" using noise_pin_ok by blast
  show ?case
  proof (cases "su_spawn os i")
    case True
    then have "\<forall>j < Suc i. su_spawn os j" using Suc.prems(4) by (auto simp: less_Suc_eq)
    then show ?thesis using Suc.hyps Suc.prems True pin up
      by (intro Suc.hyps(1) [of "Suc i" "ts @ [(''noise-'' @ show_nat i, pin)]"]) auto
  next
    case False
    then show ?thesis using Suc.hyps(2) Suc.prems pin up by auto
  qed
qed

lemma start_noise_result:
  assumes "start_noise os args cpus = (r, ts)"
  shows "(\<forall>j < length ts. su_spawn os j) \<and> (case r of None \<Rightarrow> length ts = sa_noise_threads args
    | Some p \<Rightarrow> p = LibraryPanic \<and> length ts < sa_noise_threads args \<and> \<not> su_spawn os (length ts))"
  using assms start_threads_result [of os cpus 0 "sa_noise_threads args" "[]"]
  by (auto simp: start_noise_def split: if_splits)

lemma place_main_error: "place_main os args = Some e \<Longrightarrow> untouched os args e [] f (Some f)"
  by (auto simp: place_main_def untouched_def split: pin_result.splits option.splits if_splits)

lemma noise_startup_error: "noise_startup os args = (Inl e, ts) \<Longrightarrow> untouched os args e ts f (Some f)"
  using cpu_option_error start_noise_result [of os args]
  by (fastforce simp: noise_startup_def untouched_def split: sum.splits prod.splits option.splits)

lemma noise_startup_ok: "noise_startup os args = (Inr cpus, ts) \<Longrightarrow> length ts = sa_noise_threads args"
  using start_noise_result [of os args]
  by (fastforce simp: noise_startup_def split: sum.splits prod.splits option.splits)

lemma noise_and_bus_error:
  assumes "noise_and_bus os args (Some f) = (Some (Inl e), threads, file')"
  shows "untouched os args e threads f file'"
proof -
  obtain r ts where n: "noise_startup os args = (r, ts)" by force
  show ?thesis
  proof (cases r)
    case (Inl e1)
    then show ?thesis using assms n noise_startup_error by (auto simp: noise_and_bus_def)
  next
    case (Inr cpus)
    obtain io where io: "e = CannotOpen io" "threads = ts"
      "open_or_create (su_open os) (su_readies os) (Some f) = (Some (OpenError io), file')"
      using assms n Inr by (auto simp: noise_and_bus_def split: prod.splits option.splits open_result.splits)
    then show ?thesis using open_error_keeps_bus noise_startup_ok [OF n [unfolded Inr]] by (simp add: untouched_def)
  qed
qed

section \<open>Reporting\<close>

datatype report_action = Report_Written string | Report_Printed string | No_Report

definition emit_report ::
  "('r \<Rightarrow> nat + string) \<Rightarrow> (string \<Rightarrow> string \<Rightarrow> nat option) \<Rightarrow> string option \<Rightarrow> u64 \<Rightarrow> 'r
   \<Rightarrow> report_error + report_action" where
  "emit_report to_json write bench_report bench_secs report =
     (case bench_report of
        Some path \<Rightarrow>
          (case write_report to_json write path report of
             Some e \<Rightarrow> Inl e | None \<Rightarrow> Inr (Report_Written path))
      | None \<Rightarrow>
          if 0 < bench_secs
          then (case to_json report of Inl e \<Rightarrow> Inl (JsonError e) | Inr json \<Rightarrow> Inr (Report_Printed json))
          else Inr No_Report)"

text \<open>\<open>schemata\<close> of the configuration: empty without a group, and when it cannot be read.\<close>

definition report_schemata :: "(string \<Rightarrow> nat + string) \<Rightarrow> string \<Rightarrow> string" where
  "report_schemata read_file grp =
     (if grp = [] then [] else case current_schemata read_file grp of Inl e \<Rightarrow> [] | Inr s \<Rightarrow> s)"

record engine_args =
  na_bus :: string
  na_ema_halflife :: f64
  na_threshold_bps :: f64
  na_cooldown_ns :: u64
  na_qty :: u32
  na_workers :: nat
  na_worker_cpus :: string
  na_noise_resctrl_group :: string
  na_bench_secs :: u64
  na_bench_report :: "string option"

record engine_config =
  ec_binary :: string
  ec_pin_cpu :: "nat option"
  ec_workers :: nat
  ec_worker_cpus :: string
  ec_noise_threads :: nat
  ec_noise_cpus :: string
  ec_resctrl_group :: string
  ec_noise_resctrl_group :: string
  ec_resctrl_available :: bool
  ec_schemata :: string
  ec_bench_secs :: u64
  ec_ema_halflife :: f64
  ec_threshold_bps :: f64
  ec_cooldown_ns :: u64
  ec_qty :: u32
  ec_bus :: string

record engine_report =
  er_schema :: string
  er_host :: host_info
  er_config :: engine_config
  er_metrics :: engine_metrics

text \<open>The CPU list of the noise threads is printed from the parsed list, the workers' as it was given.\<close>

definition finalise_report ::
  "(string \<Rightarrow> bool) \<Rightarrow> (string \<Rightarrow> nat + string) \<Rightarrow> (engine_report \<Rightarrow> nat + string)
   \<Rightarrow> (string \<Rightarrow> string \<Rightarrow> nat option) \<Rightarrow> startup_args \<Rightarrow> engine_args \<Rightarrow> host_info \<Rightarrow> nat list \<Rightarrow> engine_metrics
   \<Rightarrow> engine_report \<times> (report_error + report_action)" where
  "finalise_report path_exists read_file to_json write sa args host noise_cpus metrics =
     (let report = \<lparr>er_schema = ''dummy-benchmark/trading-engine/v1'', er_host = host,
            er_config = \<lparr>ec_binary = ''trading-engine'', ec_pin_cpu = sa_pin_cpu sa, ec_workers = na_workers args,
              ec_worker_cpus = na_worker_cpus args, ec_noise_threads = sa_noise_threads sa,
              ec_noise_cpus = format_cpu_list noise_cpus, ec_resctrl_group = sa_resctrl_group sa,
              ec_noise_resctrl_group = na_noise_resctrl_group args,
              ec_resctrl_available = resctrl_is_available path_exists,
              ec_schemata = report_schemata read_file (sa_resctrl_group sa),
              ec_bench_secs = na_bench_secs args, ec_ema_halflife = na_ema_halflife args,
              ec_threshold_bps = na_threshold_bps args, ec_cooldown_ns = na_cooldown_ns args,
              ec_qty = na_qty args, ec_bus = na_bus args\<rparr>,
            er_metrics = metrics\<rparr>
      in (report, emit_report to_json write (na_bench_report args) (na_bench_secs args) report))"

record feedhandler_args =
  fa_bind :: string
  fa_bus :: string
  fa_ring_depth :: u32
  fa_noise_resctrl_group :: string
  fa_bench_secs :: u64
  fa_bench_report :: "string option"

record feedhandler_config =
  fc_binary :: string
  fc_pin_cpu :: "nat option"
  fc_noise_threads :: nat
  fc_noise_cpus :: string
  fc_resctrl_group :: string
  fc_noise_resctrl_group :: string
  fc_resctrl_available :: bool
  fc_schemata :: string
  fc_bench_secs :: u64
  fc_bind :: string
  fc_bus :: string
  fc_ring_depth :: u32
  fc_recv_batch :: nat

record feedhandler_report =
  fr_schema :: string
  fr_host :: host_info
  fr_config :: feedhandler_config
  fr_metrics :: feedhandler_metrics

definition report_feedhandler ::
  "(string \<Rightarrow> bool) \<Rightarrow> (string \<Rightarrow> nat + string) \<Rightarrow> (feedhandler_report \<Rightarrow> nat + string)
   \<Rightarrow> (string \<Rightarrow> string \<Rightarrow> nat option) \<Rightarrow> startup_args \<Rightarrow> feedhandler_args \<Rightarrow> host_info \<Rightarrow> nat list
   \<Rightarrow> feedhandler_metrics \<Rightarrow> feedhandler_report \<times> (report_error + report_action)" where
  "report_feedhandler path_exists read_file to_json write sa args host noise_cpus metrics =
     (let report = \<lparr>fr_schema = ''dummy-benchmark/feedhandler/v1'', fr_host = host,
            fr_config = \<lparr>fc_binary = ''feedhandler'', fc_pin_cpu = sa_pin_cpu sa,
              fc_noise_threads = sa_noise_threads sa, fc_noise_cpus = format_cpu_list noise_cpus,
              fc_resctrl_group = sa_resctrl_group sa, fc_noise_resctrl_group = fa_noise_resctrl_group args,
              fc_resctrl_available = resctrl_is_available path_exists,
              fc_schemata = report_schemata read_file (sa_resctrl_group sa),
              fc_bench_secs = fa_bench_secs args, fc_bind = fa_bind args, fc_bus = fa_bus args,
              fc_ring_depth = fa_ring_depth args, fc_recv_batch = RECV_BATCH\<rparr>,
            fr_metrics = metrics\<rparr>
      in (report, emit_report to_json write (fa_bench_report args) (fa_bench_secs args) report))"


section \<open>Properties\<close>


definition demo_os :: startup_os where
  "demo_os = \<lparr>su_pin = any_cpu, su_join = \<lparr>jc_exists = (\<lambda>p. True), jc_write = (\<lambda>p s. None), jc_tid = 7\<rparr>,
     su_spawn = (\<lambda>i. True), su_open = os_ok, su_readies = [1]\<rparr>"


end
