(* ===== verification/Exchange.thy ===== *)
theory Exchange
  imports Message Text Strategy
begin

text \<open>
  The synthetic market of \<open>mock-exchange/src/main.rs\<close>: the packing of symbols, the random walk
  of one symbol and the tick made of it, the publishing loop with its sequence numbers and its
  exits, and the pacing. The random draws, the clocks, the stop flag and the result of the
  socket are arguments; a draw of \<open>gen::<f64>()\<close> lies between 0 and 1, one of
  \<open>gen_range(0..900)\<close> below 900, as the \<open>rand\<close> crate documents.
\<close>

section \<open>Symbols\<close>

definition pack_symbol :: "string \<Rightarrow> u8 list" where
  "pack_symbol s =
     (let bytes = utf8_bytes s; n = min (length bytes) SYMBOL_LEN
      in take n bytes @ replicate (SYMBOL_LEN - n) 0)"

record sym_state =
  sy_name :: "u8 list"
  sy_anchor :: f64
  sy_mid :: f64

definition new_anchor :: "f64 \<Rightarrow> f64" where
  "new_anchor r = f64_add (f64_lit 50 1) (f64_mul r (f64_lit 450 1))"

definition new_symbol :: "string \<Rightarrow> f64 \<Rightarrow> sym_state" where
  "new_symbol s r = \<lparr>sy_name = pack_symbol (trim s), sy_anchor = new_anchor r, sy_mid = new_anchor r\<rparr>"

text \<open>The symbols of the command line, one draw for each; \<open>None\<close> is the error
  \<open>no symbols specified\<close>.\<close>

definition parse_symbols :: "string \<Rightarrow> (nat \<Rightarrow> f64) \<Rightarrow> sym_state list option" where
  "parse_symbols arg draws =
     (let names = filter (\<lambda>s. s \<noteq> []) (split_on CHR '','' arg);
          symbols = map (\<lambda>(i, s). new_symbol s (draws i)) (enumerate 0 names)
      in if symbols = [] then None else Some symbols)"

section \<open>One tick\<close>

definition sym_drift :: "f64 \<Rightarrow> f64 \<Rightarrow> f64" where
  "sym_drift anchor mid = f64_mul (f64_sub anchor mid) (f64_lit 1 1000)"

definition sym_jitter :: "f64 \<Rightarrow> f64" where
  "sym_jitter r = f64_mul (f64_sub r (f64_lit 1 2)) (f64_lit 5 100)"

definition next_mid :: "f64 \<Rightarrow> f64 \<Rightarrow> f64 \<Rightarrow> f64" where
  "next_mid anchor mid r =
     f64_max (f64_add (f64_add mid (sym_drift anchor mid)) (sym_jitter r)) (f64_lit 1 100)"

definition spread_half :: "f64 \<Rightarrow> f64" where
  "spread_half mid = f64_max (f64_mul mid (f64_lit 5 100000)) (f64_lit 5 1000)"

definition to_px :: "f64 \<Rightarrow> i64" where
  "to_px x = f64_to_i64 (f64_mul x (f64_lit 1000000 1))"

text \<open>What a tick needs from outside: the clock and three draws.\<close>

record tick_env =
  te_ts :: u64
  te_jitter :: f64
  te_bid_sz :: u32
  te_ask_sz :: u32

definition exchange_tick :: "u64 \<Rightarrow> tick_env \<Rightarrow> sym_state \<Rightarrow> market_tick \<times> sym_state" where
  "exchange_tick seq env sy =
     (let mid = next_mid (sy_anchor sy) (sy_mid sy) (te_jitter env);
          h = spread_half mid; bid = f64_sub mid h; ask = f64_add mid h
      in (\<lparr>mt_seq_num = seq, mt_exch_ts_ns = te_ts env, mt_recv_ts_ns = 0, mt_symbol = sy_name sy,
           mt_bid_px = to_px bid, mt_ask_px = to_px ask,
           mt_bid_sz = 100 + te_bid_sz env, mt_ask_sz = 100 + te_ask_sz env, mt_pad = 0\<rparr>,
          sy\<lparr>sy_mid := mid\<rparr>))"

section \<open>The publishing loop\<close>

text \<open>
  One pass over the symbols. The fields are sent whether or not the socket takes them, so its
  result does not appear. The flag says that the requested number of ticks is reached, on
  which \<open>main\<close> returns at once.
\<close>

fun publish_round ::
  "u64 \<Rightarrow> (nat \<Rightarrow> tick_env) \<Rightarrow> nat \<Rightarrow> sym_state list \<Rightarrow> u64 \<Rightarrow> u64
   \<Rightarrow> market_tick list \<times> sym_state list \<times> u64 \<times> u64 \<times> bool" where
  "publish_round count env i [] seq sent = ([], [], seq, sent, False)"
| "publish_round count env i (sy # ss) seq sent =
     (let (t, sy1) = exchange_tick (seq + 1) (env i) sy
      in if 0 < count \<and> count \<le> sent + 1 then ([t], sy1 # ss, seq + 1, sent + 1, True)
         else let (ts, ss1, seq1, sent1, fin) = publish_round count env (Suc i) ss (seq + 1) (sent + 1)
              in (t # ts, sy1 # ss1, seq1, sent1, fin))"

text \<open>\<open>Duration::from_secs_f64\<close>, in nanoseconds: it panics on a negative number, on NaN and
  on what does not fit, and rounds to the nearest nanosecond.\<close>

fun duration_from_secs_f64 :: "f64 \<Rightarrow> nat option" where
  "duration_from_secs_f64 (F_Fin s m e) =
     (if s \<and> m \<noteq> 0 then None
      else let n = rne_div (m * 1000000000 * 2 ^ nat e) (2 ^ nat (- e))
           in if n < 2 ^ 64 * 1000000000 then Some (nat n) else None)"
| "duration_from_secs_f64 a = None"

definition per_tick_dur :: "u32 \<Rightarrow> nat option" where
  "per_tick_dur rate = duration_from_secs_f64 (f64_div (f64_lit 1 1) (f64_of_int (uint rate)))"

text \<open>The end of a pass: the next due time and how long the thread sleeps, in nanoseconds.\<close>

definition pace :: "nat \<Rightarrow> nat \<Rightarrow> nat \<Rightarrow> nat \<times> nat" where
  "pace per_tick next_due now =
     (let due = next_due + per_tick
      in if now < due then (due, due - now)
         else if 50000000 < now - due then (now, 0) else (due, 0))"

record pub_state =
  pb_syms :: "sym_state list"
  pb_seq :: u64
  pb_sent :: u64
  pb_due :: nat

text \<open>What a pass sees: the stop flag and the clock at its top, the draws, the clock at its end.\<close>

record round_env =
  rd_stop :: bool
  rd_top :: nat
  rd_ticks :: "nat \<Rightarrow> tick_env"
  rd_now :: nat

datatype loop_exit = P_Running | P_Stopped | P_Deadline | P_Count

fun publish_loop ::
  "u64 \<Rightarrow> nat option \<Rightarrow> nat \<Rightarrow> round_env list \<Rightarrow> pub_state
   \<Rightarrow> market_tick list \<times> pub_state \<times> loop_exit" where
  "publish_loop count deadline per_tick [] st = ([], st, P_Running)"
| "publish_loop count deadline per_tick (r # rs) st =
     (if rd_stop r then ([], st, P_Stopped)
      else if (case deadline of None \<Rightarrow> False | Some d \<Rightarrow> d \<le> rd_top r) then ([], st, P_Deadline)
      else let (ts, ss, seq, sent, fin) =
                 publish_round count (rd_ticks r) 0 (pb_syms st) (pb_seq st) (pb_sent st)
           in if fin then (ts, \<lparr>pb_syms = ss, pb_seq = seq, pb_sent = sent, pb_due = pb_due st\<rparr>, P_Count)
              else let st1 = \<lparr>pb_syms = ss, pb_seq = seq, pb_sent = sent,
                              pb_due = fst (pace per_tick (pb_due st) (rd_now r))\<rparr>;
                       (ts1, st2, x) = publish_loop count deadline per_tick rs st1
                   in (ts @ ts1, st2, x))"

record exchange_args =
  ea_symbols :: string
  ea_rate :: u32
  ea_count :: u64
  ea_bench_secs :: u64

text \<open>
  \<open>main\<close> from the parsing of the symbols to the end of the loop: the error of no symbols, the
  panic of \<open>from_secs_f64\<close> or of the deadline, or a run. \<open>start\<close> and \<open>due\<close> are the readings of the clock before it.
\<close>

definition exchange_main ::
  "exchange_args \<Rightarrow> (nat \<Rightarrow> f64) \<Rightarrow> nat \<Rightarrow> nat \<Rightarrow> round_env list
   \<Rightarrow> (market_tick list \<times> pub_state \<times> loop_exit) option result" where
  "exchange_main args draws start due rounds =
     (case parse_symbols (ea_symbols args) draws of
        None \<Rightarrow> Inr None
      | Some symbols \<Rightarrow>
          (case per_tick_dur (ea_rate args) of
             None \<Rightarrow> Inl LibraryPanic
           | Some per_tick \<Rightarrow>
               (case bench_deadline start (ea_bench_secs args) of
                  Inl e \<Rightarrow> Inl e
                | Inr deadline \<Rightarrow>
                    Inr (Some (publish_loop (ea_count args) deadline per_tick rounds
                      \<lparr>pb_syms = symbols, pb_seq = 0, pb_sent = 0, pb_due = due\<rparr>)))))"

section \<open>The walk stays near its anchor\<close>

definition sym_ok :: "sym_state \<Rightarrow> bool" where
  "sym_ok s \<longleftrightarrow> length (sy_name s) = SYMBOL_LEN \<and>
     (\<exists>A M. f64_is (sy_anchor s) A \<and> f64_is (sy_mid s) M \<and> 50 \<le> A \<and> A \<le> 500 \<and> \<bar>M - A\<bar> \<le> 26)"

definition unit_draw :: "f64 \<Rightarrow> bool" where
  "unit_draw r \<longleftrightarrow> (\<exists>x. f64_is r x \<and> 0 \<le> x \<and> x < 1)"

lemma length_pack_symbol [simp]: "length (pack_symbol s) = SYMBOL_LEN"
  by (simp add: pack_symbol_def Let_def)

lemma rnds_between: "f64_is a x \<Longrightarrow> f64_is b y \<Longrightarrow> x \<le> z \<Longrightarrow> z \<le> y \<Longrightarrow> x \<le> rnds z \<and> rnds z \<le> y"
  using rnds_mono [of x z] rnds_mono [of z y] rnds_of_f64 by fastforce

lemma new_symbol_ok:
  assumes "unit_draw r"
  shows "sym_ok (new_symbol s r)"
proof -
  obtain x where x: "f64_is r x" "0 \<le> x" "x < 1" using assms by (auto simp: unit_draw_def)
  have lit: "f64_is (f64_lit 450 1) 450" "f64_is (f64_lit 50 1) 50" "f64_is (f64_lit 0 1) 0"
    "f64_is (f64_lit 500 1) 500"
    using f64_lit_small_is [of 450] f64_lit_small_is [of 50] f64_lit_small_is [of 0]
      f64_lit_small_is [of 500] by simp_all
  have p: "450 \<le> pw 1000" "500 \<le> pw 1000" using pw_trans [of _ 10 1000] by (simp_all add: pw_nat [of 10])
  have "f64_is (f64_mul r (f64_lit 450 1)) (rnds (x * 450))"
    using f64_mul_is [OF x(1) lit(1)] x(2,3) p(1) by simp
  moreover have m: "0 \<le> rnds (x * 450) \<and> rnds (x * 450) \<le> 450"
    by (rule rnds_between [OF lit(3,1)]) (use x in simp_all)
  ultimately have "f64_is (new_anchor r) (rnds (50 + rnds (x * 450)))"
    unfolding new_anchor_def using f64_add_is [OF lit(2)] p(2) by simp
  moreover have "50 \<le> rnds (50 + rnds (x * 450)) \<and> rnds (50 + rnds (x * 450)) \<le> 500"
    by (rule rnds_between [OF lit(2,4)]) (use m in simp_all)
  ultimately show ?thesis by (force simp: sym_ok_def new_symbol_def)
qed

text \<open>The rounding errors of one step, with all numbers below \<open>2\<^sup>1\<^sup>0\<close>.\<close>

lemma next_mid_near:
  assumes A: "f64_is anchor A" "50 \<le> A" "A \<le> 500" and M: "f64_is mid M" "\<bar>M - A\<bar> \<le> 26"
    and r: "f64_is r x" "0 \<le> x" "x < 1"
  obtains M' where "f64_is (next_mid anchor mid r) M'" "\<bar>M' - A\<bar> \<le> 26"
proof -
  have eps: "pw (10 - 53) = 1 / 8796093022208" "pw (0 - 53) = 1 / 9007199254740992"
    "pw (- 53) = 1 / 9007199254740992" "pw (5 - 53) = 1 / 281474976710656"
    by (simp_all add: pw_uminus pw_nat)
  have p: "pw 0 = 1" "pw 5 = 32" "pw 10 = 1024" by (simp_all add: pw_nat)
  obtain d where d: "f64_is (f64_sub anchor mid) d" "\<bar>d - (A - M)\<bar> \<le> pw (5 - 53)"
    by (rule f64_sub_approx [OF A(1) M(1), of 5]) (use M(2) p in auto)
  have dn: "\<bar>d\<bar> \<le> 27" using d(2) M(2) unfolding eps by linarith
  obtain c where c: "f64_is (f64_lit 1 1000) c" "\<bar>c - 1 / 1000\<bar> \<le> pw (0 - 53)"
    by (rule f64_lit_approx [of 1000 1 0]) auto
  have dc: "\<bar>d * c - d * (1 / 1000)\<bar> \<le> 27 * pw (- 53)"
  proof -
    have "\<bar>d * c - d * (1 / 1000)\<bar> = \<bar>d\<bar> * \<bar>c - 1 / 1000\<bar>"
      by (simp only: right_diff_distrib [symmetric] abs_mult)
    also have "\<dots> \<le> 27 * pw (- 53)" using dn c(2) unfolding eps by (intro mult_mono) simp_all
    finally show ?thesis .
  qed
  have dcn: "\<bar>d * c\<bar> \<le> 1" using dc dn unfolding eps by linarith
  obtain f where f: "f64_is (sym_drift anchor mid) f" "\<bar>f - d * c\<bar> \<le> pw (0 - 53)"
    unfolding sym_drift_def
    by (rule f64_mul_approx [OF d(1) c(1), of 0]) (use dcn p in simp_all)
  have half: "f64_is (f64_lit 1 2) (1 / 2)"
  proof -
    have "f64_lit 1 2 = F_Fin False (2 ^ 52) (- 53)" by code_simp
    then show ?thesis by (simp add: f64_is_def eps)
  qed
  obtain j where j: "f64_is (f64_sub r (f64_lit 1 2)) j" "\<bar>j - (x - 1 / 2)\<bar> \<le> pw (0 - 53)"
    by (rule f64_sub_approx [OF r(1) half, of 0]) (use r(2,3) in auto)
  have jn: "\<bar>j\<bar> \<le> 1 / 2 + pw (- 53)" using j(2) r(2,3) unfolding eps by linarith
  obtain c2 where c2: "f64_is (f64_lit 5 100) c2" "\<bar>c2 - 5 / 100\<bar> \<le> pw (0 - 53)"
    by (rule f64_lit_approx [of 100 5 0]) auto
  have c2n: "\<bar>c2\<bar> \<le> 5 / 100 + pw (- 53)" using c2(2) unfolding eps by linarith
  have jc: "\<bar>j * c2\<bar> \<le> 2501 / 100000"
  proof -
    have "\<bar>j * c2\<bar> \<le> (1 / 2 + pw (- 53)) * (5 / 100 + pw (- 53))"
      unfolding abs_mult using jn c2n by (intro mult_mono) simp_all
    also have "\<dots> \<le> 2501 / 100000" by (simp add: eps)
    finally show ?thesis .
  qed
  obtain g where g: "f64_is (sym_jitter r) g" "\<bar>g - j * c2\<bar> \<le> pw (0 - 53)"
    unfolding sym_jitter_def by (rule f64_mul_approx [OF j(1) c2(1), of 0]) (use jc in auto)
  have fd: "\<bar>f - d / 1000\<bar> \<le> 1 / 2000000" using f(2) dc unfolding eps by linarith
  have fn: "\<bar>f - (A / 1000 - M / 1000)\<bar> \<le> 1 / 1000000"
    using fd d(2) unfolding eps by linarith
  have gn: "\<bar>g\<bar> \<le> 25011 / 1000000" using g(2) jc unfolding eps by linarith
  have uz: "\<bar>M + f\<bar> \<le> 1000" using fn M(2) A(2,3) by linarith
  obtain u where u: "f64_is (f64_add mid (sym_drift anchor mid)) u" "\<bar>u - (M + f)\<bar> \<le> pw (10 - 53)"
    by (rule f64_add_approx [OF M(1) f(1), of 10]) (use uz p in simp_all)
  have vz: "\<bar>u + g\<bar> \<le> 1000" using u(2) fn gn M(2) A(2,3) unfolding eps by linarith
  obtain v where v: "f64_is (f64_add (f64_add mid (sym_drift anchor mid)) (sym_jitter r)) v"
    "\<bar>v - (u + g)\<bar> \<le> pw (10 - 53)"
    by (rule f64_add_approx [OF u(1) g(1), of 10])
      (use vz p in simp_all)
  have near: "\<bar>v - A\<bar> \<le> 26"
    using v(2) u(2) fn gn M(2) unfolding eps by linarith
  obtain l where l: "f64_is (f64_lit 1 100) l" "\<bar>l - 1 / 100\<bar> \<le> pw (0 - 53)"
    by (rule f64_lit_approx [of 100 1 0]) auto
  have "max v l = v" using near A(2) l(2) unfolding eps by linarith
  then have "f64_is (next_mid anchor mid r) v"
    using f64_max_is [OF v(1) l(1)] by (simp add: next_mid_def)
  then show ?thesis using near that by blast
qed

text \<open>The quote around a mid price: its prices in micro-dollars, its spread about a basis point.\<close>

lemma to_px_floor:
  assumes "f64_is a x" "1 \<le> x" "x \<le> 1000"
  obtains p where "sint (to_px a) = \<lfloor>p\<rfloor>" "\<bar>p - x * 1000000\<bar> \<le> 1 / 8388608" "0 \<le> p"
proof -
  have lit: "f64_is (f64_lit 1000000 1) 1000000" using f64_lit_small_is [of 1000000] by simp
  have e: "pw (30 - 53) = 1 / 8388608" "pw 30 = 1073741824" by (simp_all add: pw_uminus pw_nat)
  obtain p where p: "f64_is (f64_mul a (f64_lit 1000000 1)) p" "\<bar>p - x * 1000000\<bar> \<le> pw (30 - 53)"
    by (rule f64_mul_approx [OF assms(1) lit, of 30]) (use assms e in simp_all)
  have "0 \<le> p" "p \<le> 1000000001" using p(2) assms(2,3) unfolding e by linarith+
  then have b: "0 \<le> p" "p \<le> 2 ^ 62" by simp_all
  show ?thesis
    by (rule that [of p]) (use p b f64_to_i64_floor [OF p(1) b] e in \<open>simp_all add: to_px_def\<close>)
qed

lemma spread_half_range:
  assumes "f64_is mid M" "20 \<le> M" "M \<le> 600"
  obtains H where "f64_is (spread_half mid) H" "4999999 / 1000000000 \<le> H" "H \<le> max (1 / 200) (M / 20000) + 1 / 1000000000"
proof -
  have e: "pw (0 - 53) = 1 / 9007199254740992" "pw 0 = 1" by (simp_all add: pw_uminus pw_nat)
  obtain c where c: "f64_is (f64_lit 5 100000) c" "\<bar>c - 5 / 100000\<bar> \<le> pw (0 - 53)"
    by (rule f64_lit_approx [of 100000 5 0]) auto
  obtain l where l: "f64_is (f64_lit 5 1000) l" "\<bar>l - 5 / 1000\<bar> \<le> pw (0 - 53)"
    by (rule f64_lit_approx [of 1000 5 0]) auto
  have "\<bar>M * c - M * (5 / 100000)\<bar> = M * \<bar>c - 5 / 100000\<bar>"
    using assms(2) by (simp only: right_diff_distrib [symmetric] abs_mult abs_of_nonneg)
  also have "\<dots> \<le> 600 * pw (0 - 53)" using assms(2,3) c(2) by (intro mult_mono) simp_all
  finally have mc: "\<bar>M * c - M * (5 / 100000)\<bar> \<le> 1 / 1000000000000" unfolding e by simp
  then have "\<bar>M * c\<bar> \<le> 1" using assms(2,3) by linarith
  then obtain w where w: "f64_is (f64_mul mid (f64_lit 5 100000)) w" "\<bar>w - M * c\<bar> \<le> pw (0 - 53)"
    using f64_mul_approx [OF assms(1) c(1), of 0] e(2) by auto
  have "f64_is (spread_half mid) (max w l)" unfolding spread_half_def by (rule f64_max_is [OF w(1) l(1)])
  moreover have "4999999 / 1000000000 \<le> max w l" using l(2) unfolding e by linarith
  moreover have "max w l \<le> max (1 / 200) (M / 20000) + 1 / 1000000000"
    using w(2) l(2) mc unfolding e by linarith
  ultimately show ?thesis by (rule that)
qed

lemma quote_range:
  assumes "f64_is mid M" "24 \<le> M" "M \<le> 526"
  defines "h \<equiv> spread_half mid"
  defines "b \<equiv> sint (to_px (f64_sub mid h))" and "a \<equiv> sint (to_px (f64_add mid h))"
  shows "23000000 \<le> b \<and> b + 9990 \<le> a \<and> a \<le> b + 52700 \<and> a \<le> 527000000"
proof -
  have e: "pw (10 - 53) = 1 / 8796093022208" "pw 10 = 1024" by (simp_all add: pw_uminus pw_nat)
  obtain H where H: "f64_is h H" "4999999 / 1000000000 \<le> H" "H \<le> max (1 / 200) (M / 20000) + 1 / 1000000000"
    unfolding h_def by (rule spread_half_range [OF assms(1)]) (use assms(2,3) in simp_all)
  have Hu: "H \<le> 2631 / 100000" using H(3) assms(3) by simp
  obtain x where x: "f64_is (f64_sub mid h) x" "\<bar>x - (M - H)\<bar> \<le> pw (10 - 53)"
    by (rule f64_sub_approx [OF assms(1) H(1), of 10]) (use H(2) Hu assms(2,3) e in simp_all)
  obtain y where y: "f64_is (f64_add mid h) y" "\<bar>y - (M + H)\<bar> \<le> pw (10 - 53)"
    by (rule f64_add_approx [OF assms(1) H(1), of 10]) (use H(2) Hu assms(2,3) e in simp_all)
  have xr: "1 \<le> x" "x \<le> 1000" and yr: "1 \<le> y" "y \<le> 1000"
    using x(2) y(2) H(2) Hu assms(2,3) unfolding e by linarith+
  obtain p where p: "b = \<lfloor>p\<rfloor>" "\<bar>p - x * 1000000\<bar> \<le> 1 / 8388608"
    unfolding b_def using to_px_floor [OF x(1) xr] by blast
  obtain q where q: "a = \<lfloor>q\<rfloor>" "\<bar>q - y * 1000000\<bar> \<le> 1 / 8388608"
    unfolding a_def using to_px_floor [OF y(1) yr] by blast
  have xl: "2397 / 100 \<le> x" "x \<le> M - H + 1 / 1000000000" and yl: "y \<le> 5261 / 10"
    and d: "9999 / 1000000 \<le> y - x" "y - x \<le> 52621 / 1000000"
    using x(2) y(2) H(2) Hu assms(2,3) unfolding e by linarith+
  have "23000000 \<le> p" "q \<le> 527000000" "9998 \<le> q - p" "q - p \<le> 52622"
    using p(2) q(2) xl yl d by linarith+
  then show ?thesis unfolding p(1) q(1) by linarith
qed

section \<open>What a pass and a run publish\<close>

definition tick_sane :: "market_tick \<Rightarrow> bool" where
  "tick_sane t \<longleftrightarrow> length (mt_symbol t) = SYMBOL_LEN \<and> mt_recv_ts_ns t = 0 \<and> mt_pad t = 0 \<and>
     23000000 \<le> sint (mt_bid_px t) \<and> sint (mt_bid_px t) + 9990 \<le> sint (mt_ask_px t) \<and>
     sint (mt_ask_px t) \<le> sint (mt_bid_px t) + 52700 \<and> sint (mt_ask_px t) \<le> 527000000 \<and>
     mt_bid_sz t \<in> {100..<1000} \<and> mt_ask_sz t \<in> {100..<1000}"

definition env_ok :: "tick_env \<Rightarrow> bool" where
  "env_ok e \<longleftrightarrow> unit_draw (te_jitter e) \<and> te_bid_sz e < 900 \<and> te_ask_sz e < 900"

lemma size_range: "x < 900 \<Longrightarrow> 100 + x \<in> {100..<1000}" for x :: u32
  by (simp add: word_le_nat_alt word_less_nat_alt unat_word_ariths)

lemma exchange_tick_sane:
  assumes "sym_ok sy" "env_ok e" "exchange_tick seq e sy = (t, sy1)"
  shows "tick_sane t" and "sym_ok sy1" and "sy_name sy1 = sy_name sy"
    and "mt_symbol t = sy_name sy" and "mt_seq_num t = seq"
proof -
  obtain A M where AM: "f64_is (sy_anchor sy) A" "f64_is (sy_mid sy) M" "50 \<le> A" "A \<le> 500" "\<bar>M - A\<bar> \<le> 26"
    and n: "length (sy_name sy) = SYMBOL_LEN" using assms(1) by (auto simp: sym_ok_def)
  obtain x where x: "f64_is (te_jitter e) x" "0 \<le> x" "x < 1" using assms(2) by (auto simp: env_ok_def unit_draw_def)
  obtain M1 where M1: "f64_is (next_mid (sy_anchor sy) (sy_mid sy) (te_jitter e)) M1" "\<bar>M1 - A\<bar> \<le> 26"
    by (rule next_mid_near [OF AM(1,3,4,2,5) x])
  have r: "24 \<le> M1" "M1 \<le> 526" using M1(2) AM(3,4) by linarith+
  show "sy_name sy1 = sy_name sy" "mt_symbol t = sy_name sy" "mt_seq_num t = seq"
    using assms(3) by (auto simp: exchange_tick_def Let_def)
  have "sy1 = sy\<lparr>sy_mid := next_mid (sy_anchor sy) (sy_mid sy) (te_jitter e)\<rparr>"
    using assms(3) by (auto simp: exchange_tick_def Let_def)
  then show "sym_ok sy1" unfolding sym_ok_def using n AM(1,3,4) M1 by (intro conjI exI [of _ A] exI [of _ M1]) simp_all
  show "tick_sane t" using assms(2,3) n quote_range [OF M1(1) r] size_range
    by (auto simp: exchange_tick_def Let_def tick_sane_def env_ok_def)
qed

lemma publish_round_sane:
  assumes "publish_round count env i ss seq sent = (ts, ss1, seq1, sent1, fin)"
    and "\<forall>k. env_ok (env k)" and "\<forall>s \<in> set ss. sym_ok s"
  shows "(\<forall>t \<in> set ts. tick_sane t) \<and> (\<forall>s \<in> set ss1. sym_ok s)"
  using assms
proof (induction count env i ss seq sent arbitrary: ts ss1 seq1 sent1 fin rule: publish_round.induct)
  case (1 count env i seq sent)
  then show ?case by simp
next
  case (2 count env i sy ss seq sent)
  obtain t sy1 where t: "exchange_tick (seq + 1) (env i) sy = (t, sy1)" by force
  have ok: "tick_sane t" "sym_ok sy1"
    using exchange_tick_sane [OF _ _ t] "2.prems"(2,3) by simp_all
  show ?case
  proof (cases "0 < count \<and> count \<le> sent + 1")
    case True
    then show ?thesis using "2.prems" t ok by auto
  next
    case False
    obtain ts' ss' where "publish_round count env (Suc i) ss (seq + 1) (sent + 1) = (ts', ss', seq1, sent1, fin)"
      "ts = t # ts'" "ss1 = sy1 # ss'"
      using "2.prems"(1) t False by (auto split: prod.splits simp: Let_def)
    then show ?thesis using "2.IH" [OF t [symmetric] refl False] "2.prems"(2,3) ok by simp
  qed
qed

lemma publish_loop_sane:
  assumes "publish_loop count deadline d rs st = (ts, st1, x)"
    and "\<forall>r \<in> set rs. \<forall>k. env_ok (rd_ticks r k)" and "\<forall>s \<in> set (pb_syms st). sym_ok s"
  shows "(\<forall>t \<in> set ts. tick_sane t) \<and> (\<forall>s \<in> set (pb_syms st1). sym_ok s)"
  using assms
proof (induction rs arbitrary: st ts)
  case Nil
  then show ?case by simp
next
  case (Cons r rs)
  obtain ts1 ss seq sent fin where
    round: "publish_round count (rd_ticks r) 0 (pb_syms st) (pb_seq st) (pb_sent st) = (ts1, ss, seq, sent, fin)"
    by (metis prod_cases5)
  have ok: "\<forall>t \<in> set ts1. tick_sane t" "\<forall>s \<in> set ss. sym_ok s"
    using publish_round_sane [OF round] Cons.prems(2,3) by simp_all
  let ?st = "\<lparr>pb_syms = ss, pb_seq = seq, pb_sent = sent, pb_due = fst (pace d (pb_due st) (rd_now r))\<rparr>"
  obtain ts2 st2 x2 where rest: "publish_loop count deadline d rs ?st = (ts2, st2, x2)" by (metis prod_cases3)
  have "(\<forall>t \<in> set ts2. tick_sane t) \<and> (\<forall>s \<in> set (pb_syms st2). sym_ok s)" if "x2 = x" "st2 = st1"
    using Cons.IH [of ?st ts2] rest that Cons.prems(2) ok(2) by simp
  then show ?case using Cons.prems round ok rest by (auto simp: Let_def split: if_splits)
qed

text \<open>The shape of what is published: numbers, symbols and the count.\<close>

lemma exchange_tick_shape [simp]:
  "mt_seq_num (fst (exchange_tick seq e sy)) = seq"
  "mt_symbol (fst (exchange_tick seq e sy)) = sy_name sy"
  "sy_name (snd (exchange_tick seq e sy)) = sy_name sy"
  by (simp_all add: exchange_tick_def Let_def)

definition seqs_from :: "u64 \<Rightarrow> nat \<Rightarrow> u64 list" where
  "seqs_from seq n = map (\<lambda>k. seq + of_nat (Suc k)) [0..<n]"

lemma seqs_from_0 [simp]: "seqs_from seq 0 = []"
  by (simp add: seqs_from_def)

lemma seqs_from_Suc: "seqs_from seq (Suc n) = (seq + 1) # seqs_from (seq + 1) n"
  unfolding seqs_from_def upt_conv_Cons [OF zero_less_Suc] map_Suc_upt [symmetric] by simp

lemma seqs_from_add: "seqs_from seq (m + n) = seqs_from seq m @ seqs_from (seq + of_nat m) n"
  by (induction m arbitrary: seq) (simp_all add: seqs_from_Suc add.assoc)

lemma publish_round_shape:
  assumes "publish_round count env i ss seq sent = (ts, ss1, seq1, sent1, fin)"
    and "count = 0 \<or> unat sent < unat count"
  shows "map mt_seq_num ts = seqs_from seq (length ts) \<and>
    map mt_symbol ts = take (length ts) (map sy_name ss) \<and> map sy_name ss1 = map sy_name ss \<and>
    seq1 = seq + of_nat (length ts) \<and> sent1 = sent + of_nat (length ts) \<and>
    length ts \<le> length ss \<and> (\<not> fin \<longrightarrow> length ts = length ss) \<and>
    (fin \<longleftrightarrow> 0 < count \<and> unat sent + length ts = unat count) \<and>
    (\<not> fin \<longrightarrow> count = 0 \<or> unat sent + length ts < unat count)"
  using assms
proof (induction count env i ss seq sent arbitrary: ts ss1 seq1 sent1 fin rule: publish_round.induct)
  case (1 count env i seq sent)
  then show ?case by auto
next
  case (2 count env i sy ss seq sent)
  obtain t sy1 where t: "exchange_tick (seq + 1) (env i) sy = (t, sy1)" by force
  then have ts: "mt_seq_num t = seq + 1" "mt_symbol t = sy_name sy" "sy_name sy1 = sy_name sy"
    using exchange_tick_shape [of "seq + 1" "env i" sy] by simp_all
  have s1: "unat (sent + 1) = unat sent + 1" if "0 < count"
  proof -
    have "unat sent < unat count" using that "2.prems"(2) by auto
    then show ?thesis using unat_lt64 [of count] by (simp add: unat_word_ariths)
  qed
  show ?case
  proof (cases "0 < count \<and> count \<le> sent + 1")
    case True
    then have "unat count = unat sent + 1"
      using s1 "2.prems"(2) by (auto simp: word_le_nat_alt)
    then show ?thesis using True "2.prems"(1) t ts by (auto simp: seqs_from_Suc)
  next
    case False
    then have c: "count = 0 \<or> unat (sent + 1) < unat count"
      by (auto simp: word_le_nat_alt word_gt_0)
    obtain ts' ss' where rest:
      "publish_round count env (Suc i) ss (seq + 1) (sent + 1) = (ts', ss', seq1, sent1, fin)"
      and eq: "ts = t # ts'" "ss1 = sy1 # ss'"
      using "2.prems"(1) t False by (auto split: prod.splits simp: Let_def)
    note ih = "2.IH" [OF t [symmetric] refl False rest c]
    have u: "unat (sent + 1) + n = unat sent + Suc n" if "0 < count" for n using s1 [OF that] by simp
    show ?thesis using ih ts unfolding eq
      by (cases "count = 0") (auto simp: seqs_from_Suc add.assoc u word_gt_0)
  qed
qed

lemma publish_loop_shape:
  assumes "publish_loop count deadline d rs st = (ts, st1, x)"
    and "count = 0 \<or> unat (pb_sent st) < unat count"
  shows "map mt_seq_num ts = seqs_from (pb_seq st) (length ts) \<and>
    (\<forall>i < length ts. mt_symbol (ts ! i) = map sy_name (pb_syms st) ! (i mod length (pb_syms st))) \<and>
    map sy_name (pb_syms st1) = map sy_name (pb_syms st) \<and>
    pb_sent st1 = pb_sent st + of_nat (length ts) \<and>
    length ts \<le> length rs * length (pb_syms st) \<and>
    (x = P_Count \<longleftrightarrow> 0 < count \<and> unat (pb_sent st) + length ts = unat count) \<and>
    (x \<noteq> P_Count \<longrightarrow> count = 0 \<or> unat (pb_sent st) + length ts < unat count)"
  using assms
proof (induction rs arbitrary: st ts)
  case Nil
  then show ?case by auto
next
  case (Cons r rs)
  show ?case
  proof (cases "rd_stop r \<or> (case deadline of None \<Rightarrow> False | Some d \<Rightarrow> d \<le> rd_top r)")
    case True
    then show ?thesis using Cons.prems by (auto split: if_splits)
  next
    case go: False
    obtain ts1 ss seq sent fin where
      round: "publish_round count (rd_ticks r) 0 (pb_syms st) (pb_seq st) (pb_sent st) = (ts1, ss, seq, sent, fin)"
      by (metis prod_cases5)
    note sh = publish_round_shape [OF round Cons.prems(2)]
    let ?n = "length (pb_syms st)"
    have sym1: "mt_symbol (ts1 ! i) = map sy_name (pb_syms st) ! (i mod ?n)" if "i < length ts1" for i
    proof -
      have "mt_symbol (ts1 ! i) = map mt_symbol ts1 ! i" using that by simp
      also have "\<dots> = map sy_name (pb_syms st) ! i" using sh that by simp
      finally show ?thesis using that sh by simp
    qed
    show ?thesis
    proof (cases fin)
      case True
      then show ?thesis using Cons.prems(1) go round sh sym1 by auto
    next
      case False
      let ?st = "\<lparr>pb_syms = ss, pb_seq = seq, pb_sent = sent, pb_due = fst (pace d (pb_due st) (rd_now r))\<rparr>"
      obtain ts2 where rest: "publish_loop count deadline d rs ?st = (ts2, st1, x)" and ts: "ts = ts1 @ ts2"
        using Cons.prems(1) go round False by (auto simp: Let_def split: prod.splits)
      have len: "length ts1 = ?n" "length ss = ?n" using sh False by (auto dest: map_eq_imp_length_eq)
      have u: "count \<noteq> 0 \<Longrightarrow> unat sent = unat (pb_sent st) + length ts1"
      proof -
        assume "count \<noteq> 0"
        then have "unat (pb_sent st) + length ts1 < unat count" using sh False by simp
        then show ?thesis using sh unat_lt64 [of count] by (simp add: unat_word_ariths unat_of_nat64)
      qed
      have c: "count = 0 \<or> unat (pb_sent ?st) < unat count"
        by (cases "count = 0") (use u sh False in simp_all)
      note ih = Cons.IH [OF rest c]
      have "mt_symbol (ts ! i) = map sy_name (pb_syms st) ! (i mod ?n)" if "i < length ts" for i
      proof (cases "i < ?n")
        case True
        then show ?thesis using sym1 [of i] len by (simp add: ts nth_append)
      next
        case ge: False
        have "mt_symbol (ts2 ! (i - ?n)) = map sy_name ss ! ((i - ?n) mod ?n)"
          using ih that ge len by (simp add: ts)
        moreover have "(i - ?n) mod ?n = i mod ?n" using ge by (simp add: le_mod_geq)
        ultimately show ?thesis using ge len sh by (simp add: ts nth_append)
      qed
      then show ?thesis using ih sh len u unfolding ts
        by (cases "count = 0") (auto simp: seqs_from_add word_gt_0)
    qed
  qed
qed

section \<open>Pacing\<close>

text \<open>Each pass begins after the sleep the previous one asked for, as \<open>thread::sleep\<close> promises.\<close>

fun slept :: "nat \<Rightarrow> nat \<Rightarrow> round_env list \<Rightarrow> bool" where
  "slept d due (r # r1 # rs) \<longleftrightarrow>
     rd_now r + snd (pace d due (rd_now r)) \<le> rd_top r1 \<and> slept d (fst (pace d due (rd_now r))) (r1 # rs)"
| "slept d due rs \<longleftrightarrow> True"

lemma pace_due: "due + d \<le> fst (pace d due now)" "fst (pace d due now) \<le> now + snd (pace d due now)"
  by (auto simp: pace_def Let_def)

lemma pace_lag: "now - fst (pace d due now) \<le> 50000000"
  by (auto simp: pace_def Let_def)

lemma slept_last: "slept d due (r # rs) \<Longrightarrow> due \<le> rd_top r \<Longrightarrow> due + length rs * d \<le> rd_top (List.last (r # rs))"
proof (induction rs arbitrary: due r)
  case Nil
  then show ?case by simp
next
  case (Cons r1 rs)
  let ?due = "fst (pace d due (rd_now r))"
  have "?due \<le> rd_top r1" using Cons.prems(1) pace_due(2) [of d due "rd_now r"] by simp
  then have "?due + length rs * d \<le> rd_top (List.last (r1 # rs))" using Cons by simp
  then show ?case using pace_due(1) [of due d "rd_now r"] by simp
qed

text \<open>Going round a list evenly.\<close>

lemma count_rounds: "count_list (map (\<lambda>i. xs ! (i mod length xs)) [0..<k * length xs]) x = k * count_list xs x"
proof (induction k)
  case (Suc k)
  let ?n = "length xs" and ?f = "\<lambda>i. xs ! (i mod length xs)"
  have "[0..<Suc k * ?n] = [0..<k * ?n] @ [k * ?n..<k * ?n + ?n]"
    by (simp only: mult_Suc add.commute [of ?n]) (rule upt_add_eq_append, simp)
  moreover have "map ?f [k * ?n..<k * ?n + ?n] = xs" by (rule nth_equalityI) simp_all
  ultimately show ?case using Suc.IH by simp
qed simp

lemma count_rotation:
  assumes "n \<le> k * length xs"
  shows "count_list (map (\<lambda>i. xs ! (i mod length xs)) [0..<n]) x \<le> k * count_list xs x"
proof -
  have "[0..<k * length xs] = [0..<n] @ [n..<k * length xs]"
    using upt_add_eq_append [of 0 n "k * length xs - n"] assms by simp
  then show ?thesis unfolding count_rounds [symmetric] by simp
qed

section \<open>The interval between passes\<close>

lemma duration_approx:
  assumes "f64_is a x" "0 \<le> x" "x \<le> 2 ^ 32"
  obtains n where "duration_from_secs_f64 a = Some n" "\<bar>real n - x * 1000000000\<bar> \<le> 1 / 2"
proof -
  obtain s m e where a: "a = F_Fin s m e" "0 \<le> m" "x = of_int (sgn_of s) * (of_int m * pw e)"
    using assms(1) by (rule f64_isE)
  have s: "\<not> s \<or> m = 0"
  proof (rule ccontr)
    assume "\<not> ?thesis"
    then have "s" "0 < m" using a(2) by auto
    then have "x = - (of_int m * pw e)" "0 < of_int m * pw e" by (simp_all add: a(3) sgn_of_def)
    then show False using assms(2) by linarith
  qed
  have x: "x = of_int m * pw e" using s a(3) by (auto simp: sgn_of_def)
  let ?n = "rne_div (m * 1000000000 * 2 ^ nat e) (2 ^ nat (- e))"
  have "real_of_int (m * 1000000000 * 2 ^ nat e) / of_int (2 ^ nat (- e)) =
      of_int m * 1000000000 * ((2 ^ nat e :: real) / 2 ^ nat (- e))" by simp
  also have "\<dots> = x * 1000000000" by (simp only: pow_split x mult.assoc mult.commute [of "1000000000"])
  finally have n: "?n = rne (x * 1000000000)" by (subst rne_div_rne) simp_all
  have err: "\<bar>of_int ?n - x * 1000000000\<bar> \<le> 1 / 2" unfolding n by (rule rne_error)
  have "x \<le> 4294967296" using assms(3) by simp
  then have "- 1 < real_of_int ?n" "real_of_int ?n \<le> 4294967297000000000"
    using err assms(2) by linarith+
  then have "0 \<le> ?n" "?n \<le> 4294967297000000000" by linarith+
  then have b: "0 \<le> ?n" "?n < 2 ^ 64 * 1000000000" by simp_all
  show ?thesis
  proof (rule that)
    show "duration_from_secs_f64 a = Some (nat ?n)" using s b(2) by (auto simp: a(1) Let_def)
    show "\<bar>real (nat ?n) - x * 1000000000\<bar> \<le> 1 / 2" using err b(1) by simp
  qed
qed

text \<open>The interval is the reciprocal of the rate, rounded in binary64 and then to whole nanoseconds.\<close>

lemma per_tick_rounded:
  assumes "rate \<noteq> 0"
  obtains n where "per_tick_dur rate = Some n"
    "\<bar>real n - rnds (1 / real (unat rate)) * 1000000000\<bar> \<le> 1 / 2"
proof -
  let ?r = "real (unat rate)"
  have "1 \<le> unat rate" using assms by (simp add: Suc_le_eq unat_gt_0)
  then have r: "1 \<le> ?r" by linarith
  have e: "pw (0 - 53) = 1 / 9007199254740992" "pw 0 = 1" by (simp_all add: pw_uminus pw_nat)
  have one: "f64_is (f64_lit 1 1) 1" using f64_lit_small_is [of 1] by simp
  have u: "uint rate = int (unat rate)" by simp
  have "\<bar>int k\<bar> < 2 ^ 64" if "k < 2 ^ 32" for k using that by simp
  then have "f64_is (f64_of_int (int (unat rate))) (rnds (real_of_int (int (unat rate))))"
    using unat_lt32 [of rate] by (intro f64_of_int_is)
  moreover have "rnds (real_of_int (int k)) = real k" if "k < 2 ^ 32" for k
    using rnd_of_int [of "int k"] that by (simp add: rnds_nonneg)
  then have "rnds (real_of_int (int (unat rate))) = ?r" using unat_lt32 by blast
  ultimately have ri: "f64_is (f64_of_int (uint rate)) ?r" unfolding u by simp
  have q: "0 < 1 / ?r" "1 / ?r \<le> 1" using r by simp_all
  have "1 \<le> pw 1000" using pw_mono [of 0 1000] e(2) by simp
  then have "\<bar>1 / ?r\<bar> \<le> pw 1000" using q by linarith
  then have "f64_is (f64_div (f64_lit 1 1) (f64_of_int (uint rate))) (rnds (1 / ?r))"
    using f64_div_is [OF one ri] r by simp
  moreover have "0 \<le> rnds (1 / ?r)" using rnds_mono [of 0 "1 / ?r"] q(1) by (simp del: of_nat_unat)
  moreover have "\<bar>rnds (1 / ?r) - 1 / ?r\<bar> \<le> pw (0 - 53)" by (rule rnds_err) (use q e in simp_all)
  then have "rnds (1 / ?r) \<le> 2" using q unfolding e by linarith
  then have "rnds (1 / ?r) \<le> 2 ^ 32" by simp
  ultimately show ?thesis using that unfolding per_tick_dur_def by (metis duration_approx)
qed

lemma per_tick_approx:
  assumes "rate \<noteq> 0"
  obtains n where "per_tick_dur rate = Some n"
    "\<bar>real n - 1000000000 / real (unat rate)\<bar> \<le> 1 / 2 + 1 / 1000000"
proof -
  let ?r = "real (unat rate)"
  have "1 \<le> unat rate" using assms by (simp add: Suc_le_eq unat_gt_0)
  then have "1 \<le> ?r" by linarith
  then have q: "0 < 1 / ?r" "1 / ?r \<le> 1" by simp_all
  have e: "pw (0 - 53) = 1 / 9007199254740992" "pw 0 = 1" by (simp_all add: pw_uminus pw_nat)
  obtain n where n: "per_tick_dur rate = Some n" "\<bar>real n - rnds (1 / ?r) * 1000000000\<bar> \<le> 1 / 2"
    by (rule per_tick_rounded [OF assms])
  have "\<bar>rnds (1 / ?r) - 1 / ?r\<bar> \<le> pw (0 - 53)" by (rule rnds_err) (use q e in simp_all)
  then have "\<bar>real n - 1 / ?r * 1000000000\<bar> \<le> 1 / 2 + 1 / 1000000"
    using n(2) unfolding e by linarith
  then show ?thesis using that [OF n(1)] by simp
qed

text \<open>Above two billion the reciprocal is below half a nanosecond, also after the rounding.\<close>

lemma per_tick_fast:
  assumes "2000000000 < unat rate"
  shows "per_tick_dur rate = Some 0"
proof -
  let ?r = "real (unat rate)"
  have "2000000001 \<le> unat rate" using assms by simp
  then have r: "2000000001 \<le> ?r" by linarith
  then have q: "0 < 1 / ?r" "1 / ?r \<le> 1 / 2000000001" by (simp_all add: frac_le)
  have e: "pw (- 30) = 1 / 1073741824" "pw (- 30 - 53) = 1 / 9671406556917033397649408"
    by (simp_all add: pw_uminus pw_nat)
  have "\<bar>rnds (1 / ?r) - 1 / ?r\<bar> \<le> pw (- 30 - 53)"
    by (rule rnds_err) (use q in \<open>simp_all add: e(1)\<close>)
  then have small: "rnds (1 / ?r) * 1000000000 < 4999999999 / 10000000000" using q(2) unfolding e by linarith
  have "rate \<noteq> 0" using assms by auto
  then obtain n where n: "per_tick_dur rate = Some n" "\<bar>real n - rnds (1 / ?r) * 1000000000\<bar> \<le> 1 / 2"
    by (rule per_tick_rounded)
  have "real n < 1" using n(2) small by linarith
  then show ?thesis using n(1) by simp
qed

lemma per_tick_zero: "per_tick_dur 0 = None"
proof -
  have "f64_div (f64_lit 1 1) (f64_of_int 0) = F_Inf False" by code_simp
  then show ?thesis by (simp add: per_tick_dur_def)
qed

section \<open>Properties\<close>

text \<open>The symbols on the command line, as they go into the ticks.\<close>

definition symbol_names :: "string \<Rightarrow> u8 list list" where
  "symbol_names arg = map (\<lambda>s. pack_symbol (trim s)) (filter (\<lambda>s. s \<noteq> []) (split_on CHR '','' arg))"

lemma parse_symbols_Some:
  assumes "parse_symbols arg draws = Some ss"
  shows "map sy_name ss = symbol_names arg" and "ss \<noteq> []"
    and "\<forall>i. unit_draw (draws i) \<Longrightarrow> \<forall>s \<in> set ss. sym_ok s"
proof -
  let ?names = "filter (\<lambda>s. s \<noteq> []) (split_on CHR '','' arg)"
  have ss: "ss = map (\<lambda>(i, s). new_symbol s (draws i)) (enumerate 0 ?names)" "ss \<noteq> []"
    using assms by (auto simp: parse_symbols_def Let_def split: if_splits)
  have "map sy_name ss = map (\<lambda>s. pack_symbol (trim s)) (map snd (enumerate 0 ?names))"
    unfolding ss(1) by (simp add: case_prod_beta new_symbol_def comp_def del: map_snd_enumerate)
  then show "map sy_name ss = symbol_names arg" by (simp only: map_snd_enumerate symbol_names_def)
  show "ss \<noteq> []" by (rule ss(2))
  show "\<forall>s \<in> set ss. sym_ok s" if "\<forall>i. unit_draw (draws i)"
    unfolding ss(1) using that by (auto intro: new_symbol_ok)
qed

lemma exchange_main_run:
  assumes "exchange_main args draws start due rounds = Inr (Some (ts, st, x))"
  obtains ss d dl where "parse_symbols (ea_symbols args) draws = Some ss"
    "per_tick_dur (ea_rate args) = Some d"
    "publish_loop (ea_count args) dl d rounds \<lparr>pb_syms = ss, pb_seq = 0, pb_sent = 0, pb_due = due\<rparr> = (ts, st, x)"
  using assms by (auto simp: exchange_main_def split: option.splits sum.splits)

definition demo_args :: exchange_args where
  "demo_args = \<lparr>ea_symbols = ''AAPL, MSFT,'', ea_rate = 1000, ea_count = 3, ea_bench_secs = 0\<rparr>"

definition demo_round :: "nat \<Rightarrow> round_env" where
  "demo_round t = \<lparr>rd_stop = False, rd_top = t,
     rd_ticks = (\<lambda>k. \<lparr>te_ts = of_nat t, te_jitter = f64_lit 0 1, te_bid_sz = 0, te_ask_sz = 899\<rparr>),
     rd_now = t\<rparr>"

lemma parse_symbols_None: "parse_symbols arg draws = None \<longleftrightarrow> symbol_names arg = []"
  by (simp add: parse_symbols_def symbol_names_def Let_def) (metis enumerate_simps(1) length_0_conv length_enumerate)

lemma demo_names: "symbol_names (ea_symbols demo_args) = [pack_symbol ''AAPL'', pack_symbol ''MSFT'']"
  by code_simp

lemma demo_symbols: "\<exists>ss. parse_symbols (ea_symbols demo_args) draws = Some ss"
proof -
  have "filter (\<lambda>s. s \<noteq> []) (split_on CHR '','' (ea_symbols demo_args)) = [''AAPL'', '' MSFT'']" by code_simp
  then show ?thesis by (simp add: parse_symbols_def)
qed

lemma demo_runs: "\<exists>ts st x. exchange_main demo_args draws start due rounds = Inr (Some (ts, st, x))"
proof -
  obtain ss where ss: "parse_symbols (ea_symbols demo_args) draws = Some ss" using demo_symbols by blast
  have "ea_rate demo_args \<noteq> 0" by (simp add: demo_args_def)
  then obtain d where "per_tick_dur (ea_rate demo_args) = Some d" by (rule per_tick_approx)
  then show ?thesis using ss by (simp add: exchange_main_def demo_args_def) (metis prod_cases3)
qed

lemma zero_draw: "unit_draw (f64_lit 0 1)"
  using f64_lit_small_is [of 0] by (auto simp: unit_draw_def)

lemma demo_env_ok: "env_ok (rd_ticks (demo_round t) k)"
  by (simp add: env_ok_def demo_round_def zero_draw)

text \<open>C24. What a run publishes: the ticks are numbered 1, 2, 3, and so on without a gap, they go
  round the symbols of the command line in order, and with a count given there are never more
  than that many, with the exit for it exactly when that many are sent.\<close>

theorem exchange_publishes:
  assumes "exchange_main args draws start due rounds = Inr (Some (ts, st, x))"
  shows "map mt_seq_num ts = seqs_from 0 (length ts) \<and>
    (\<forall>i < length ts. mt_symbol (ts ! i) =
        symbol_names (ea_symbols args) ! (i mod length (symbol_names (ea_symbols args)))) \<and>
    pb_sent st = of_nat (length ts) \<and>
    (x = P_Count \<longleftrightarrow> 0 < ea_count args \<and> length ts = unat (ea_count args)) \<and>
    (0 < ea_count args \<longrightarrow> length ts \<le> unat (ea_count args))"
proof -
  from assms obtain ss d dl where run: "parse_symbols (ea_symbols args) draws = Some ss"
    "publish_loop (ea_count args) dl d rounds \<lparr>pb_syms = ss, pb_seq = 0, pb_sent = 0, pb_due = due\<rparr> = (ts, st, x)"
    by (rule exchange_main_run)
  have names: "map sy_name ss = symbol_names (ea_symbols args)" by (rule parse_symbols_Some [OF run(1)])
  moreover have "length ss = length (symbol_names (ea_symbols args))" using arg_cong [OF names, of length] by simp
  moreover have "ea_count args = 0 \<or> 0 < unat (ea_count args)" by (simp add: unat_gt_0)
  ultimately show ?thesis using publish_loop_shape [OF run(2)] by (auto simp: word_gt_0)
qed

theorem exchange_publishes_witness:
  "\<exists>ts st x. exchange_main demo_args (\<lambda>i. f64_lit 0 1) 0 0 [demo_round 0, demo_round 1] = Inr (Some (ts, st, x)) \<and>
     map mt_seq_num ts = seqs_from 0 (length ts) \<and> length ts \<le> 3"
proof -
  obtain ts st x where r: "exchange_main demo_args (\<lambda>i. f64_lit 0 1) 0 0 [demo_round 0, demo_round 1] = Inr (Some (ts, st, x))"
    using demo_runs by blast
  show ?thesis using r exchange_publishes [OF r] by (auto simp: demo_args_def)
qed

text \<open>C25. Every published tick is a sane quote, for any draws the random generator can give: an
  uncrossed book with a spread of about one cent to a basis point, prices between 23 and 527
  dollars in micro-dollars, sizes from 100 to 999, an eight-byte symbol, and the fields the
  feedhandler fills left zero. The walk never leaves the neighbourhood of its anchor, so the
  floor of 0.01 on the mid price is never reached.\<close>

theorem published_ticks_sane:
  assumes "exchange_main args draws start due rounds = Inr (Some (ts, st, x))"
    and "\<forall>i. unit_draw (draws i)" and "\<forall>r \<in> set rounds. \<forall>k. env_ok (rd_ticks r k)"
  shows "(\<forall>t \<in> set ts. tick_sane t) \<and> (\<forall>sy \<in> set (pb_syms st). sym_ok sy)"
proof -
  from assms(1) obtain ss d dl where run: "parse_symbols (ea_symbols args) draws = Some ss"
    "publish_loop (ea_count args) dl d rounds \<lparr>pb_syms = ss, pb_seq = 0, pb_sent = 0, pb_due = due\<rparr> = (ts, st, x)"
    by (rule exchange_main_run)
  show ?thesis
    using publish_loop_sane [OF run(2) assms(3)] parse_symbols_Some(3) [OF run(1) assms(2)] by simp
qed

theorem published_ticks_sane_witness:
  "\<exists>ts st x. exchange_main demo_args (\<lambda>i. f64_lit 0 1) 0 0 [demo_round 0, demo_round 1] = Inr (Some (ts, st, x)) \<and>
     list_all tick_sane ts"
proof -
  obtain ts st x where r: "exchange_main demo_args (\<lambda>i. f64_lit 0 1) 0 0 [demo_round 0, demo_round 1] = Inr (Some (ts, st, x))"
    using demo_runs by blast
  show ?thesis using r published_ticks_sane [OF r] zero_draw demo_env_ok by (auto simp: list_all_iff)
qed

text \<open>C26. The rate is a bound, symbol by symbol: if each sleep lasts at least as long as asked, then by the time
  a pass begins no symbol has had more ticks than there are whole intervals since the start, and one
  more (times the number of times it stands on the command line). A late pass may be
  made up for, but the passes never run ahead of the schedule.\<close>

theorem publish_rate_bound:
  assumes "exchange_main args draws start due rounds = Inr (Some (ts, st, x))"
    and "per_tick_dur (ea_rate args) = Some d" and "0 < d"
    and "rounds \<noteq> []" and "due \<le> rd_top (hd rounds)" and "slept d due rounds"
  shows "count_list (map mt_symbol ts) symb \<le>
    (1 + (rd_top (List.last rounds) - due) div d) * count_list (symbol_names (ea_symbols args)) symb"
proof -
  from assms(1) obtain ss d' dl where run: "parse_symbols (ea_symbols args) draws = Some ss"
    "per_tick_dur (ea_rate args) = Some d'"
    "publish_loop (ea_count args) dl d' rounds \<lparr>pb_syms = ss, pb_seq = 0, pb_sent = 0, pb_due = due\<rparr> = (ts, st, x)"
    by (rule exchange_main_run)
  let ?names = "map sy_name ss"
  have "ea_count args = 0 \<or> 0 < unat (ea_count args)" by (simp add: unat_gt_0)
  then have shape: "\<forall>i < length ts. mt_symbol (ts ! i) = ?names ! (i mod length ?names)"
    "length ts \<le> length rounds * length ?names"
    using publish_loop_shape [OF run(3)] by simp_all
  have "map mt_symbol ts = map (\<lambda>i. ?names ! (i mod length ?names)) [0..<length ts]"
    using shape(1) by (intro nth_equalityI) simp_all
  then have len: "count_list (map mt_symbol ts) symb \<le> length rounds * count_list ?names symb"
    using count_rotation [OF shape(2), of symb] by (simp only:)
  obtain r rs where rs: "rounds = r # rs" using assms(4) by (cases rounds) auto
  have "due + length rs * d \<le> rd_top (List.last rounds)"
    using slept_last [of d due r rs] assms(5,6) unfolding rs by simp
  then have "length rs \<le> (rd_top (List.last rounds) - due) div d"
    using assms(3) by (simp add: less_eq_div_iff_mult_less_eq)
  then have "length rounds \<le> 1 + (rd_top (List.last rounds) - due) div d" by (simp add: rs)
  then show ?thesis using len unfolding parse_symbols_Some(1) [OF run(1)] by (meson le_trans mult_le_mono1)
qed

theorem publish_rate_bound_witness:
  "\<exists>ts st x. exchange_main demo_args (\<lambda>i. f64_lit 0 1) 0 0 [demo_round 0, demo_round 1000000] = Inr (Some (ts, st, x)) \<and>
     count_list (map mt_symbol ts) (pack_symbol ''AAPL'') \<le> 2"
proof -
  let ?rs = "[demo_round 0, demo_round 1000000]"
  obtain ts st x where r: "exchange_main demo_args (\<lambda>i. f64_lit 0 1) 0 0 ?rs = Inr (Some (ts, st, x))"
    using demo_runs by blast
  have d: "per_tick_dur (ea_rate demo_args) = Some 1000000" by code_simp
  have "pack_symbol ''MSFT'' \<noteq> pack_symbol ''AAPL''" by code_simp
  then have "count_list (symbol_names (ea_symbols demo_args)) (pack_symbol ''AAPL'') = 1" by (simp add: demo_names)
  then show ?thesis using r publish_rate_bound [OF r d, of "pack_symbol ''AAPL''"] by (auto simp: demo_round_def pace_def)
qed

text \<open>C35. The interval between passes: a rate of zero panics in \<open>Duration::from_secs_f64\<close>, any
  other gives the reciprocal of the rate to within a nanosecond, and every rate above two billion
  ticks a second gives zero, so that the passes are not paced at all.\<close>

theorem tick_interval:
  "per_tick_dur 0 = None \<and>
   (\<forall>rate. rate \<noteq> 0 \<longrightarrow>
      (\<exists>n. per_tick_dur rate = Some n \<and> \<bar>real n - 1000000000 / real (unat rate)\<bar> < 1)) \<and>
   (\<forall>rate. 2000000000 < unat rate \<longrightarrow> per_tick_dur rate = Some 0) \<and>
   per_tick_dur 1000 = Some 1000000"
proof -
  have "\<exists>n. per_tick_dur rate = Some n \<and> \<bar>real n - 1000000000 / real (unat rate)\<bar> < 1" if r: "rate \<noteq> 0" for rate
  proof -
    obtain n where "per_tick_dur rate = Some n" "\<bar>real n - 1000000000 / real (unat rate)\<bar> \<le> 1 / 2 + 1 / 1000000"
      by (rule per_tick_approx [OF r])
    then show ?thesis by (intro exI [of _ n] conjI) simp_all
  qed
  moreover have "per_tick_dur 1000 = Some 1000000" by code_simp
  ultimately show ?thesis using per_tick_zero per_tick_fast by simp
qed

theorem tick_interval_witness:
  "(\<exists>n. per_tick_dur 7 = Some n \<and> \<bar>real n - 1000000000 / 7\<bar> < 1) \<and> per_tick_dur 3000000000 = Some 0"
  using tick_interval [THEN conjunct2, THEN conjunct1, THEN spec, of 7]
    tick_interval [THEN conjunct2, THEN conjunct2, THEN conjunct1, THEN spec, of 3000000000] by simp

text \<open>A symbol of at most eight bytes without a zero byte comes back from \<open>symbol_str\<close>.\<close>

lemma pack_symbol_str:
  assumes "length (utf8_bytes s) \<le> SYMBOL_LEN" "0 \<notin> set (utf8_bytes s)" "utf8_valid (utf8_bytes s)"
  shows "symbol_str (pack_symbol s) = utf8_bytes s"
  using assms by (simp add: pack_symbol_def Let_def symbol_str_padded)

text \<open>A symbol whose ninth byte lies within a character does not: it is cut in the middle.\<close>

lemma pack_symbol_cut: "symbol_str (pack_symbol (''EURCHF-'' @ [CHR 0xE9])) = [0x3F]"
  by code_simp

end
