(* ===== verification/Mains.thy ===== *)
theory Mains
  imports Binaries Exchange Engine_Trace Pipeline
begin

text \<open>
  \<open>main\<close> of the three programs as a whole: the start-up of \<open>Binaries\<close>, what comes between it and the
  loop (sockets, the io_uring, the deadline, the choice of the engine's mode), the loop, the report, and
  what becomes of the noise threads. A result names how the program ended and the noise threads
  that nobody has joined; \<open>None\<close> is a program that is still running.
\<close>

section \<open>Ends\<close>

datatype main_error =
  StartupError startup_error | NoSymbols | BindError nat | ConnectError nat | NonblockingError nat |
  UringError nat | LoopError fh_error | SpawnWorker nat | ReportError report_error

datatype 'a exit = Finished 'a | Failed main_error | Crashed panic

definition startup_exit :: "startup_error \<Rightarrow> 'a exit" where
  "startup_exit e = (case e of StartPanic p \<Rightarrow> Crashed p | _ \<Rightarrow> Failed (StartupError e))"

text \<open>The end of a run with a report: an error in writing it returns before \<open>NoiseHandle::shutdown\<close>. The
  argument \<open>h\<close> is the state of the noise threads (\<open>Noise_Threads\<close>) in which the call of \<open>shutdown\<close>, where there is one, has returned.
  The result of a program names the threads that are still running at its end.\<close>

definition running_threads :: "noise_handle \<Rightarrow> noise_threads" where
  "running_threads h = map (\<lambda>t. (nt_name t, nt_pin t)) (filter (\<lambda>t. nt_pc t \<noteq> N_Done) (nh_threads h))"

definition after_shutdown :: "startup_args \<Rightarrow> noise_handle \<Rightarrow> noise_threads \<Rightarrow> noise_threads" where
  "after_shutdown sa h threads = (if 0 < sa_noise_threads sa then running_threads h else threads)"

definition end_run ::
  "startup_args \<Rightarrow> noise_handle \<Rightarrow> 'r \<times> (report_error + report_action) \<Rightarrow> noise_threads
   \<Rightarrow> ('r \<times> report_action) exit \<times> noise_threads" where
  "end_run sa h r threads =
     (case snd r of
        Inl e \<Rightarrow> (Failed (ReportError e), threads)
      | Inr a \<Rightarrow> (Finished (fst r, a), after_shutdown sa h threads))"

text \<open>The noise threads of a program from their start to the return of \<open>shutdown\<close>, interleaved in any way.\<close>

definition noise_os_of :: "startup_os \<Rightarrow> (nat \<Rightarrow> nat) \<Rightarrow> noise_os" where
  "noise_os_of os stale = \<lparr>no_spawn = su_spawn os, no_pin = su_pin os, no_join = su_join os, no_stale = stale\<rparr>"

definition shut_down :: "startup_os \<Rightarrow> string \<Rightarrow> startup_args \<Rightarrow> noise_handle \<Rightarrow> bool" where
  "shut_down os grp sa h \<longleftrightarrow>
     (\<exists>stale cpus. parse_cpu_list (sa_noise_cpus sa) = Inr cpus \<and>
        (noise_move (noise_os_of os stale) grp cpus (sa_noise_threads sa))\<^sup>*\<^sup>* noise_handle_init h \<and> nh_pc h = O_Returned)"

text \<open>After a start-up in which no thread failed to start there is always such a run.\<close>

lemma shut_down_ex:
  assumes "parse_cpu_list (sa_noise_cpus sa) = Inr cpus" "\<forall>i < sa_noise_threads sa. su_spawn os i"
  shows "\<exists>h. shut_down os grp sa h"
  using shutdown_possible [of "sa_noise_threads sa" "noise_os_of os (\<lambda>i. 0)"] assms
  by (fastforce simp: shut_down_def noise_os_of_def)

lemma shut_down_none_running: "shut_down os grp sa h \<Longrightarrow> running_threads h = []"
  using returned_threads [OF noise_runs_inv]
  by (fastforce simp: shut_down_def running_threads_def filter_empty_conv)

section \<open>The clock\<close>

text \<open>A latency between two readings of the clock (seconds and nanoseconds since the epoch) is exact until the year 2554,
  and zero when the clock was set back in between.\<close>

lemma unat_now_ns:
  assumes "unat s * 1000000000 + unat n < 2 ^ 64"
  shows "unat (now_ns (Some (s, n))) = unat s * 1000000000 + unat n"
proof -
  have "now_ns (Some (s, n)) = of_nat (unat s * 1000000000 + unat n)" by (simp add: now_ns_def)
  then show ?thesis using unat_of_nat64_small [OF assms] by simp
qed

lemma latency_measured:
  assumes "unat s * 1000000000 + unat n < 2 ^ 64" "unat s' * 1000000000 + unat n' < 2 ^ 64"
  shows "unat (saturating_sub (now_ns (Some (s', n'))) (now_ns (Some (s, n)))) =
    (unat s' * 1000000000 + unat n') - (unat s * 1000000000 + unat n)"
  by (simp add: unat_saturating_sub unat_now_ns [OF assms(1)] unat_now_ns [OF assms(2)])

section \<open>The feedhandler\<close>

text \<open>The socket and the io_uring, and the clock at the start of the run.\<close>

record 'q feedhandler_os =
  fo_start :: startup_os
  fo_bind :: "nat option"
  fo_nonblocking :: "nat option"
  fo_uring :: "nat + 'q"
  fo_started :: nat
  fo_elapsed :: f64

text \<open>From the socket to the posted receives and the deadline.\<close>

definition prepare_loop ::
  "'q uring_ops \<Rightarrow> 'q feedhandler_os \<Rightarrow> u64
   \<Rightarrow> ((feedhandler_report \<times> report_action) exit + 'q \<times> nat option) option" where
  "prepare_loop u os bench_secs =
     (case fo_bind os of
        Some e \<Rightarrow> Some (Inl (Failed (BindError e)))
      | None \<Rightarrow>
          (case fo_nonblocking os of
             Some e \<Rightarrow> Some (Inl (Failed (NonblockingError e)))
           | None \<Rightarrow>
               (case fo_uring os of
                  Inl e \<Rightarrow> Some (Inl (Failed (UringError e)))
                | Inr q0 \<Rightarrow>
                    (case post_receives u 0 RECV_BATCH q0 of
                       None \<Rightarrow> None
                     | Some (Inl e) \<Rightarrow> Some (Inl (Failed (LoopError e)))
                     | Some (Inr q) \<Rightarrow>
                         (case bench_deadline (fo_started os) bench_secs of
                            Inl p \<Rightarrow> Some (Inl (Crashed p))
                          | Inr deadline \<Rightarrow> Some (Inr (q, deadline)))))))"

definition loop_exit_of :: "fh_error \<Rightarrow> 'a exit" where
  "loop_exit_of e = (case e of Panicked p \<Rightarrow> Crashed p | _ \<Rightarrow> Failed (LoopError e))"

text \<open>How the report is written: what it asks of the file system, and the JSON library.\<close>

record 'r report_os =
  po_exists :: "string \<Rightarrow> bool"
  po_read :: "string \<Rightarrow> nat + string"
  po_json :: "'r \<Rightarrow> nat + string"
  po_write :: "string \<Rightarrow> string \<Rightarrow> nat option"
  po_host :: host_info

definition feedhandler_main ::
  "'q uring_ops \<Rightarrow> 'q feedhandler_os \<Rightarrow> feedhandler_report report_os \<Rightarrow> startup_args \<Rightarrow> feedhandler_args
   \<Rightarrow> fh_round list \<Rightarrow> noise_handle \<Rightarrow> bus_file option
   \<Rightarrow> ((feedhandler_report \<times> report_action) exit \<times> noise_threads) option" where
  "feedhandler_main u os ro sa args rounds h file =
     (case feedhandler_startup (fo_start os) sa file of
        (Some (Inl e), threads, f) \<Rightarrow> Some (startup_exit e, threads)
      | (Some (Inr noise_cpus), threads, Some f) \<Rightarrow>
          (case prepare_loop u os (fa_bench_secs args) of
             None \<Rightarrow> None
           | Some (Inl x) \<Rightarrow> Some (x, threads)
           | Some (Inr (q, deadline)) \<Rightarrow>
               (case fh_loop u deadline rounds q
                       (feedhandler_init (bus_ticks (bf_layout f)) (bus_orders (bf_layout f))) of
                  None \<Rightarrow> None
                | Some (Inl e) \<Rightarrow> Some (loop_exit_of e, threads)
                | Some (Inr (q1, fh, os1, ended)) \<Rightarrow>
                    if \<not> ended then None
                    else Some (end_run sa h (report_feedhandler (po_exists ro) (po_read ro) (po_json ro) (po_write ro)
                           sa args (po_host ro) noise_cpus (feedhandler_metrics_of (fo_elapsed os) fh)) threads)))
      | _ \<Rightarrow> None)"

section \<open>The exchange\<close>

record exchange_os =
  xo_start :: startup_os
  xo_bind :: "nat option"
  xo_connect :: "nat option"

text \<open>\<open>--count\<close> returns from inside the loop, without the shutdown of the noise threads.\<close>

definition exchange_end ::
  "startup_args \<Rightarrow> noise_handle \<Rightarrow> market_tick list \<times> pub_state \<times> loop_exit \<Rightarrow> noise_threads
   \<Rightarrow> ((market_tick list \<times> loop_exit) exit \<times> noise_threads) option" where
  "exchange_end sa h r threads =
     (case r of (ts, st, x) \<Rightarrow>
        (case x of
           P_Running \<Rightarrow> None
         | P_Count \<Rightarrow> Some (Finished (ts, x), threads)
         | _ \<Rightarrow> Some (Finished (ts, x), after_shutdown sa h threads)))"

definition exchange_program ::
  "exchange_os \<Rightarrow> startup_args \<Rightarrow> exchange_args \<Rightarrow> (nat \<Rightarrow> f64) \<Rightarrow> nat \<Rightarrow> nat \<Rightarrow> round_env list
   \<Rightarrow> noise_handle \<Rightarrow> ((market_tick list \<times> loop_exit) exit \<times> noise_threads) option" where
  "exchange_program os sa args draws start due rounds h =
     (case exchange_startup (xo_start os) sa of
        (Inl e, threads) \<Rightarrow> Some (startup_exit e, threads)
      | (Inr noise_cpus, threads) \<Rightarrow>
          if parse_symbols (ea_symbols args) draws = None then Some (Failed NoSymbols, threads)
          else
            (case xo_bind os of
               Some e \<Rightarrow> Some (Failed (BindError e), threads)
             | None \<Rightarrow>
                 (case xo_connect os of
                    Some e \<Rightarrow> Some (Failed (ConnectError e), threads)
                  | None \<Rightarrow>
                      (case exchange_main args draws start due rounds of
                         Inl p \<Rightarrow> Some (Crashed p, threads)
                       | Inr None \<Rightarrow> Some (Failed NoSymbols, threads)
                       | Inr (Some r) \<Rightarrow> exchange_end sa h r threads))))"

section \<open>The engine\<close>

record engine_os =
  eo_start :: startup_os
  eo_ln :: "f64 \<Rightarrow> f64"
  eo_exp :: "f64 \<Rightarrow> f64"
  eo_started :: nat
  eo_elapsed :: f64
  eo_spawn_worker :: "nat option"

definition engine_params :: "engine_os \<Rightarrow> engine_args \<Rightarrow> strategy_params" where
  "engine_params os args =
     \<lparr>sp_alpha = ema_alpha (eo_ln os) (eo_exp os) (na_ema_halflife args), sp_threshold_bps = na_threshold_bps args,
      sp_cooldown_ns = na_cooldown_ns args, sp_qty = na_qty args\<rparr>"

definition engine_end ::
  "engine_report report_os \<Rightarrow> startup_args \<Rightarrow> engine_args \<Rightarrow> nat list \<Rightarrow> engine_metrics \<Rightarrow> noise_handle \<Rightarrow> noise_threads
   \<Rightarrow> (engine_report \<times> report_action) exit \<times> noise_threads" where
  "engine_end ro sa args noise_cpus metrics h threads =
     end_run sa h (finalise_report (po_exists ro) (po_read ro) (po_json ro) (po_write ro) sa args (po_host ro) noise_cpus metrics)
       threads"

text \<open>
  A run of \<open>main\<close> to its end. The loops act on a bus that the feedhandler works on too: without workers
  as in \<open>Pipeline\<close>, with workers as in \<open>Engine_Workers\<close>; the stop flag may end either at any turn.
\<close>

inductive engine_main ::
  "('c, 'o) engine_ops \<Rightarrow> 'c \<Rightarrow> 'o \<Rightarrow> engine_os \<Rightarrow> engine_report report_os \<Rightarrow> startup_args \<Rightarrow> engine_args
   \<Rightarrow> bus_file option \<Rightarrow> noise_handle \<Rightarrow> (engine_report \<times> report_action) exit \<times> noise_threads \<Rightarrow> bool"
  for ops :: "('c, 'o) engine_ops" and c0 :: 'c and o0 :: 'o and os :: engine_os and ro :: "engine_report report_os"
    and sa :: startup_args and args :: engine_args and bus :: "bus_file option" and h :: noise_handle
where
  em_startup: "engine_startup (eo_start os) sa (na_worker_cpus args) bus = (Some (Inl e), threads, f) \<Longrightarrow>
    engine_main ops c0 o0 os ro sa args bus h (startup_exit e, threads)"
| em_deadline: "engine_startup (eo_start os) sa (na_worker_cpus args) bus = (Some (Inr (ws, ns)), threads, Some f) \<Longrightarrow>
    bench_deadline (eo_started os) (na_bench_secs args) = Inl p \<Longrightarrow>
    engine_main ops c0 o0 os ro sa args bus h (Crashed p, threads)"
| em_inline: "engine_startup (eo_start os) sa (na_worker_cpus args) bus = (Some (Inr (ws, ns)), threads, Some f) \<Longrightarrow>
    bench_deadline (eo_started os) (na_bench_secs args) = Inr d \<Longrightarrow> na_workers args = 0 \<Longrightarrow>
    (pipeline_step (engine_params os args))\<^sup>*\<^sup>* (pipeline_init (bus_ticks (bf_layout f)) (bus_orders (bf_layout f))) s \<Longrightarrow>
    pl_pending s = None \<Longrightarrow>
    engine_main ops c0 o0 os ro sa args bus h
      (engine_end ro sa args ns (inline_metrics (eo_elapsed os) (pl_en s)) h threads)"
| em_spawn: "engine_startup (eo_start os) sa (na_worker_cpus args) bus = (Some (Inr (ws, ns)), threads, Some f) \<Longrightarrow>
    bench_deadline (eo_started os) (na_bench_secs args) = Inr d \<Longrightarrow> 0 < na_workers args \<Longrightarrow>
    eo_spawn_worker os = Some e \<Longrightarrow>
    engine_main ops c0 o0 os ro sa args bus h (Failed (SpawnWorker e), threads)"
| em_workers: "engine_startup (eo_start os) sa (na_worker_cpus args) bus = (Some (Inr (ws, ns)), threads, Some f) \<Longrightarrow>
    bench_deadline (eo_started os) (na_bench_secs args) = Inr d \<Longrightarrow> 0 < na_workers args \<Longrightarrow>
    eo_spawn_worker os = None \<Longrightarrow>
    ops1 = ops\<lparr>en_params := engine_params os args, en_worker_cpus := ws, en_pin := su_pin (eo_start os),
      en_group := sa_resctrl_group sa, en_join := su_join (eo_start os), en_deadline := (d \<noteq> None)\<rparr> \<Longrightarrow>
    (engine_moves ops1)\<^sup>*\<^sup>*
      (engine_init (na_workers args) c0 o0 (bus_ticks (bf_layout f)) (bus_orders (bf_layout f))) s \<Longrightarrow>
    eg_pc s = M_Finished \<Longrightarrow>
    engine_main ops c0 o0 os ro sa args bus h
      (engine_end ro sa args ns (workers_metrics (eo_elapsed os) s) h threads)"

section \<open>What the reports say\<close>

lemma end_run_finished:
  "end_run sa h r threads = (Finished (rep, a), left) \<longleftrightarrow> left = after_shutdown sa h threads \<and> r = (rep, Inr a)"
  by (cases r) (auto simp: end_run_def split: sum.splits)

lemma startup_exit_not_finished [simp]: "startup_exit e \<noteq> Finished x"
  by (simp add: startup_exit_def split: startup_error.splits)

lemma loop_exit_not_finished [simp]: "loop_exit_of e \<noteq> Finished x"
  by (simp add: loop_exit_of_def split: fh_error.splits)

lemma prepare_not_finished [simp]: "prepare_loop u os secs \<noteq> Some (Inl (Finished x))"
  by (auto simp: prepare_loop_def split: option.splits sum.splits)

lemma feedhandler_main_finished:
  assumes "feedhandler_main u os ro sa args rounds h bus = Some (Finished (rep, a), left)"
  obtains noise_cpus threads f q d fh q1 os1 where
    "feedhandler_startup (fo_start os) sa bus = (Some (Inr noise_cpus), threads, Some f)"
    "prepare_loop u os (fa_bench_secs args) = Some (Inr (q, d))"
    "fh_loop u d rounds q (feedhandler_init (bus_ticks (bf_layout f)) (bus_orders (bf_layout f))) =
      Some (Inr (q1, fh, os1, True))"
    "report_feedhandler (po_exists ro) (po_read ro) (po_json ro) (po_write ro) sa args (po_host ro) noise_cpus
      (feedhandler_metrics_of (fo_elapsed os) fh) = (rep, Inr a)" "left = after_shutdown sa h threads"
proof -
  obtain r threads bf where start: "feedhandler_startup (fo_start os) sa bus = (r, threads, bf)" by (metis prod_cases3)
  then obtain noise_cpus f where r: "r = Some (Inr noise_cpus)" "bf = Some f"
    using assms by (auto simp: feedhandler_main_def split: option.splits sum.splits)
  let ?fh0 = "feedhandler_init (bus_ticks (bf_layout f)) (bus_orders (bf_layout f))"
  obtain q d where prep: "prepare_loop u os (fa_bench_secs args) = Some (Inr (q, d))"
    using assms start r by (auto simp: feedhandler_main_def split: option.splits sum.splits)
  obtain q1 fh os1 where loop: "fh_loop u d rounds q ?fh0 = Some (Inr (q1, fh, os1, True))"
    using assms start r prep by (auto simp: feedhandler_main_def split: option.splits sum.splits if_splits)
  let ?rep = "report_feedhandler (po_exists ro) (po_read ro) (po_json ro) (po_write ro) sa args (po_host ro) noise_cpus
      (feedhandler_metrics_of (fo_elapsed os) fh)"
  have "end_run sa h ?rep threads = (Finished (rep, a), left)"
    using assms start r prep loop by (simp add: feedhandler_main_def)
  then show ?thesis using that start r prep loop by (simp add: end_run_finished)
qed

text \<open>What was written: the report in the file that was named, else on the terminal in a run with a length.\<close>

definition delivered ::
  "('r \<Rightarrow> nat + string) \<Rightarrow> (string \<Rightarrow> string \<Rightarrow> nat option) \<Rightarrow> string option \<Rightarrow> u64 \<Rightarrow> 'r \<Rightarrow> report_action \<Rightarrow> bool" where
  "delivered to_json write path secs rep a \<longleftrightarrow>
     (case path of
        Some p \<Rightarrow> a = Report_Written p \<and> (\<exists>json. to_json rep = Inr json \<and> write p json = None)
      | None \<Rightarrow> if 0 < secs then \<exists>json. to_json rep = Inr json \<and> a = Report_Printed json else a = No_Report)"

lemma emit_report_delivered: "emit_report to_json write path secs rep = Inr a \<Longrightarrow> delivered to_json write path secs rep a"
  by (auto simp: emit_report_def delivered_def write_report_def split: option.splits sum.splits if_splits)

text \<open>The rings a start-up hands to the loop: new ones, or those of the bus it found.\<close>

lemma opened_layout:
  assumes "open_or_create os readies bus = (Some Opened, Some f)"
  shows "bf_layout f = fresh_bus \<or> (\<exists>f0. bus = Some f0 \<and> bf_layout f = bf_layout f0)"
  using assms
  by (auto simp: open_or_create_def size_file_def map_and_init_def spin_ready_def Let_def empty_file_def BUS_SIZE_eq
      split: option.splits if_splits prod.splits)

lemma noise_and_bus_layout:
  "noise_and_bus os sa bus = (Some (Inr cs), ts, Some f) \<Longrightarrow>
    bf_layout f = fresh_bus \<or> (\<exists>f0. bus = Some f0 \<and> bf_layout f = bf_layout f0)"
  by (rule opened_layout [of "su_open os" "su_readies os"])
    (auto simp: noise_and_bus_def split: sum.splits prod.splits option.splits open_result.splits)

text \<open>Only as many threads are started as asked for.\<close>

lemma noise_and_bus_threads: "noise_and_bus os sa bus = (Some (Inr cs), ts, Some f) \<Longrightarrow> length ts = sa_noise_threads sa"
  using noise_startup_ok [of os sa]
  by (auto simp: noise_and_bus_def split: sum.splits prod.splits option.splits open_result.splits)

lemma feedhandler_startup_threads:
  "feedhandler_startup os sa bus = (Some (Inr cs), ts, Some f) \<Longrightarrow> length ts = sa_noise_threads sa"
  by (rule noise_and_bus_threads) (auto simp: feedhandler_startup_def split: option.splits)

lemma engine_startup_threads:
  "engine_startup os sa wcs bus = (Some (Inr cs), ts, Some f) \<Longrightarrow> length ts = sa_noise_threads sa"
  using noise_and_bus_threads [of os sa bus]
  by (auto simp: engine_startup_def split: option.splits sum.splits prod.splits)

lemma nobody_left: "shut_down os grp sa h \<Longrightarrow> length threads = sa_noise_threads sa \<Longrightarrow> after_shutdown sa h threads = []"
  using shut_down_none_running by (auto simp: after_shutdown_def)

lemma feedhandler_startup_layout:
  "feedhandler_startup os sa bus = (Some (Inr cs), ts, Some f) \<Longrightarrow>
    bf_layout f = fresh_bus \<or> (\<exists>f0. bus = Some f0 \<and> bf_layout f = bf_layout f0)"
  by (rule noise_and_bus_layout) (auto simp: feedhandler_startup_def split: option.splits)

lemma engine_startup_layout:
  assumes "engine_startup os sa wcs bus = (Some (Inr cs), ts, Some f)"
  shows "bf_layout f = fresh_bus \<or> (\<exists>f0. bus = Some f0 \<and> bf_layout f = bf_layout f0)"
proof -
  obtain ns where "noise_and_bus os sa bus = (Some (Inr ns), ts, Some f)"
    using assms by (auto simp: engine_startup_def split: option.splits sum.splits prod.splits)
  then show ?thesis by (rule noise_and_bus_layout)
qed

definition bus_sound :: "bus_file option \<Rightarrow> bool" where
  "bus_sound bus \<longleftrightarrow>
     (case bus of None \<Rightarrow> True | Some f \<Rightarrow> ring_wf (bl_ticks (bf_layout f)) \<and> ring_wf (bl_orders (bf_layout f)))"

definition bus_empty :: "bus_file option \<Rightarrow> bool" where
  "bus_empty bus \<longleftrightarrow>
     (case bus of None \<Rightarrow> True
      | Some f \<Rightarrow> ring_queue (bl_ticks (bf_layout f)) = [] \<and> ring_queue (bl_orders (bf_layout f)) = [])"

lemma started_rings:
  assumes "bf_layout f = fresh_bus \<or> (\<exists>f0. bus = Some f0 \<and> bf_layout f = bf_layout f0)" "bus_sound bus"
  shows "ends_ok (bus_ticks (bf_layout f))" "ends_ok (bus_orders (bf_layout f))"
    and "bus_empty bus \<Longrightarrow> ends_queue (bus_ticks (bf_layout f)) = []"
    and "bus_empty bus \<Longrightarrow> ends_queue (bus_orders (bf_layout f)) = []"
  using assms(1)
proof -
  have attach: "ring_wf r \<Longrightarrow> ends_ok (r, RingProducer_new r, RingConsumer_new r)" for r
    by (simp add: ends_ok_def new_handles_ok)
  show "ends_ok (bus_ticks (bf_layout f))" "ends_ok (bus_orders (bf_layout f))"
    "bus_empty bus \<Longrightarrow> ends_queue (bus_ticks (bf_layout f)) = []"
    "bus_empty bus \<Longrightarrow> ends_queue (bus_orders (bf_layout f)) = []"
    using assms attach
    by (auto simp: fresh_bus_handles fresh_ends_ok bus_sound_def bus_empty_def)
      (auto simp: bus_ticks_def bus_orders_def ticks_producer_def ticks_consumer_def orders_producer_def
        orders_consumer_def ends_queue_def)
qed

section \<open>The counts of a report\<close>

text \<open>The main thread's own counts: both histograms have one entry for each tick, and at most one tick is lost,
  as the loop ends with it.\<close>

definition main_counts :: "('c, 'o) engine \<Rightarrow> bool" where
  "main_counts s \<longleftrightarrow>
     lh_count (eg_shm_transit s) = eg_ticks_seen s \<and> lh_count (eg_end_to_end s) = eg_ticks_seen s \<and>
     (eg_lost s = 0 \<or> eg_lost s = 1 \<and> \<not> senders_open s)"

lemma main_counts_dispatch: "main_counts s \<Longrightarrow> eg_pc s = M_Take \<Longrightarrow> main_counts (dispatch ops clk s)"
  by (auto simp: main_counts_def dispatch_def senders_open_def record_ns_def Let_def split: prod.splits option.splits)

lemma main_counts_publish:
  "main_counts s \<Longrightarrow> eg_pc s = M_Drain \<and> next = M_Top \<or> eg_pc s = M_Final \<and> next = M_Finished \<Longrightarrow>
    main_counts (publish_next ops next s)"
  by (auto simp: main_counts_def publish_next_def senders_open_def Let_def split: prod.splits option.splits)

lemma main_counts_moves:
  assumes "engine_moves ops s s'" "main_counts s"
  shows "main_counts s'"
proof -
  from assms(1) consider "engine_step ops s s'" | "outside_step s s'" by (auto simp: engine_moves_def)
  then show ?thesis
  proof cases
    case 1
    then show ?thesis
    proof (cases rule: engine_step.cases)
      case main_drain
      then have "main_counts (publish_next ops M_Top s)" using main_counts_publish assms(2) by blast
      then show ?thesis by (auto simp: main_drain(1) back_off_def main_counts_def senders_open_def)
    next
      case (main_take clk)
      then show ?thesis using main_counts_dispatch assms(2) by blast
    next
      case main_final
      then show ?thesis using main_counts_publish assms(2) by blast
    qed (use assms(2) in \<open>auto simp: main_counts_def senders_open_def set_worker_def\<close>)
  next
    case 2
    then show ?thesis using assms(2) by cases (auto simp: main_counts_def senders_open_def)
  qed
qed

lemma main_counts_run:
  assumes "(engine_moves ops)\<^sup>*\<^sup>* (engine_init n c0 o0 ticks orders) s"
  shows "main_counts s"
  using assms
proof (induction rule: rtranclp_induct)
  case base
  show ?case by (simp add: main_counts_def engine_init_def histogram_new_def)
next
  case (step s t)
  then show ?case by (blast intro: main_counts_moves)
qed

text \<open>The same of the engine in a pipeline.\<close>

definition inline_counts :: "inline_engine \<Rightarrow> bool" where
  "inline_counts e \<longleftrightarrow> lh_count (ie_shm_transit e) = ie_ticks_seen e \<and> lh_count (ie_end_to_end e) = ie_ticks_seen e"

lemma inline_counts_step: "pipeline_step ps s t \<Longrightarrow> inline_counts (pl_en s) \<Longrightarrow> inline_counts (pl_en t)"
  by (erule pipeline_stepE)
    (auto simp: inline_counts_def engine_take_def engine_send_def seen_by_engine_def record_ns_def Let_def
      split: prod.splits option.splits if_splits)

lemma inline_counts_run:
  assumes "(pipeline_step ps)\<^sup>*\<^sup>* (pipeline_init ticks orders) s"
  shows "inline_counts (pl_en s)"
  using assms
proof (induction rule: rtranclp_induct)
  case base
  show ?case by (simp add: inline_counts_def pipeline_init_def inline_init_def histogram_new_def)
next
  case (step s t)
  then show ?case by (blast intro: inline_counts_step)
qed

text \<open>A finished engine: its mode and the metrics of its report.\<close>

lemma engine_main_finished:
  assumes "engine_main ops c0 o0 os ro sa args bus h (Finished (rep, a), left)"
  obtains
    (inline) r threads f s where "na_workers args = 0"
      "engine_startup (eo_start os) sa (na_worker_cpus args) bus = (Some (Inr r), threads, Some f)"
      "(pipeline_step (engine_params os args))\<^sup>*\<^sup>* (pipeline_init (bus_ticks (bf_layout f)) (bus_orders (bf_layout f))) s"
      "pl_pending s = None" "er_metrics rep = inline_metrics (eo_elapsed os) (pl_en s)"
      "delivered (po_json ro) (po_write ro) (na_bench_report args) (na_bench_secs args) rep a"
      "left = after_shutdown sa h threads"
  | (workers) r threads f ops1 s where "0 < na_workers args"
      "engine_startup (eo_start os) sa (na_worker_cpus args) bus = (Some (Inr r), threads, Some f)"
      "en_params ops1 = engine_params os args"
      "en_ticks_chan ops1 = en_ticks_chan ops" "en_orders_chan ops1 = en_orders_chan ops"
      "(engine_moves ops1)\<^sup>*\<^sup>* (engine_init (na_workers args) c0 o0 (bus_ticks (bf_layout f)) (bus_orders (bf_layout f))) s"
      "eg_pc s = M_Finished" "er_metrics rep = workers_metrics (eo_elapsed os) s"
      "delivered (po_json ro) (po_write ro) (na_bench_report args) (na_bench_secs args) rep a"
      "left = after_shutdown sa h threads"
proof -
  have fin: "er_metrics rep = m \<and> left = after_shutdown sa h threads \<and>
      delivered (po_json ro) (po_write ro) (na_bench_report args) (na_bench_secs args) rep a"
    if "engine_end ro sa args ns m h threads = (Finished (rep, a), left)" for ns m threads
    using that emit_report_delivered by (auto simp: engine_end_def end_run_finished finalise_report_def Let_def)
  from assms show ?thesis
  proof (cases rule: engine_main.cases)
    case (em_startup e f)
    then show ?thesis using startup_exit_not_finished by (metis fst_conv)
  next
    case (em_inline ws ns threads f d s)
    show ?thesis by (rule inline [OF em_inline(4,2,5,6)]) (use fin [OF em_inline(1) [symmetric]] in auto)
  next
    case (em_workers ws ns threads f d ops1 s)
    show ?thesis
      by (rule workers [OF em_workers(4,2) _ _ _ em_workers(7,8)]) (use fin [OF em_workers(1) [symmetric]] em_workers(6) in auto)
  qed
qed

lemma of_nat_sum_list_map: "of_nat (\<Sum>x \<leftarrow> xs. f x) = (\<Sum>x \<leftarrow> xs. of_nat (f x))"
  by (induction xs) simp_all

text \<open>What the ticks taken became, from the numbers in the report.\<close>

lemma worker_report_counts:
  assumes inv: "engine_inv n v s" and ops: "channels_ok ops v" and counts: "main_counts s"
  shows "length (eg_workers s) = n"
    and "\<exists>k \<le> n * CHANNEL_CAP + 1. eg_ticks_seen s =
      eg_ticks_dropped s + sum_list (map (\<lambda>wk. lh_count (wk_dispatch_lat wk)) (eg_workers s)) + of_nat k"
proof -
  show len: "length (eg_workers s) = n" using inv by (simp add: engine_inv_defs)
  have lat: "map (\<lambda>wk. lh_count (wk_dispatch_lat wk)) (eg_workers s) = map wk_ticks (eg_workers s)"
    using inv len by (intro nth_equalityI) (auto simp: engine_inv_defs inv_worker_def)
  define q where "q = (\<Sum>c \<leftarrow> eg_chans s. length (cv_ticks v c))"
  have "q \<le> (\<Sum>c \<leftarrow> eg_chans s. CHANNEL_CAP)" unfolding q_def
    by (rule sum_list_mono)
      (use inv ops bounded_fifo.bounded in \<open>fastforce simp: engine_inv_defs channels_ok_def chan_ok_def\<close>)
  also have "\<dots> = n * CHANNEL_CAP" using inv by (simp add: sum_list_triv engine_inv_defs)
  finally have q: "q \<le> n * CHANNEL_CAP" .
  have "sum_list (map (\<lambda>c. of_nat (length (cv_ticks v c))) (eg_chans s)) = (of_nat q :: u64)"
    unfolding q_def by (simp only: of_nat_sum_list_map)
  moreover have "eg_ticks_seen s = eg_ticks_dropped s + eg_lost s + sum_list (map wk_ticks (eg_workers s)) +
      sum_list (map (\<lambda>c. of_nat (length (cv_ticks v c))) (eg_chans s))"
    using inv by (simp only: engine_inv_def inv_ticks_def)
  ultimately have seen: "eg_ticks_seen s = eg_ticks_dropped s + eg_lost s + sum_list (map wk_ticks (eg_workers s)) + of_nat q"
    by (simp only:)
  have "eg_lost s = of_nat (if eg_lost s = 0 then 0 else 1)" using counts by (auto simp: main_counts_def)
  then obtain l where l: "l \<le> 1" "eg_lost s = of_nat l" by (metis le_refl zero_le)
  have "eg_ticks_seen s = eg_ticks_dropped s + sum_list (map wk_ticks (eg_workers s)) + of_nat (q + l)"
    unfolding seen l(2) by (simp only: of_nat_add ac_simps)
  moreover have "q + l \<le> n * CHANNEL_CAP + 1" using q l(1) by (rule add_mono)
  ultimately show "\<exists>k \<le> n * CHANNEL_CAP + 1. eg_ticks_seen s =
      eg_ticks_dropped s + sum_list (map (\<lambda>wk. lh_count (wk_dispatch_lat wk)) (eg_workers s)) + of_nat k"
    unfolding lat by blast
qed

text \<open>A run with workers that has come to its end: its counters and orders, in terms of its history.\<close>

lemma finished_history:
  assumes run: "engine_run ops (engine_init n c0 o0 ticks orders) evs s"
    and "channels_ok ops v" "starts n v c0 o0 ticks orders" "eg_pc s = M_Finished"
  shows "eg_ticks_seen s = of_nat (length (taken evs)) \<and> eg_orders_sent s = of_nat (length (published evs)) \<and>
    eg_orders_sent s + eg_orders_dropped s = of_nat (length (all_queued evs)) \<and>
    (\<forall>x. orders_for x (all_queued evs) =
       orders_for x (fst (strategy_run (en_params ops) (map as_event (all_processed evs)) (\<lambda>s. None) 1)))"
proof -
  have inv: "engine_inv n v s"
    by (rule engine_runs_inv [OF engine_run_moves [OF run] assms(2) engine_init_inv [OF assms(3)]])
  then have "cv_orders v (eg_orders s) = []" "0 < n" "length (eg_workers s) = n"
    "\<forall>wk \<in> set (eg_workers s). wk_pc wk = W_Done"
    using assms(4) by (auto simp: engine_inv_defs in_set_conv_nth)
  then have all: "all_queued evs = received evs" and "in_hand (eg_workers s ! route n x) = []" for x
    using traced_run [OF run assms(2,3)] by (simp_all add: traced_def queues_trace_def in_hand_def route_def)
  then have "orders_for x (all_queued evs) =
      orders_for x (fst (strategy_run (en_params ops) (map as_event (all_processed evs)) (\<lambda>s. None) 1))" for x
    using one_thread [OF assms(2,3) run, of x 1] by simp
  then show ?thesis using counted_run [OF run assms(2,3)] unfolding counted_def all by blast
qed

section \<open>Properties\<close>


definition demo_report_os :: "'r report_os" where
  "demo_report_os = \<lparr>po_exists = (\<lambda>p. False), po_read = (\<lambda>p. Inl 2), po_json = (\<lambda>r. Inr ''{}''),
     po_write = (\<lambda>p s. None), po_host = host_info (\<lambda>p. None) (\<lambda>p. None)\<rparr>"

definition demo_startup :: startup_args where
  "demo_startup = \<lparr>sa_pin_cpu = None, sa_resctrl_group = [], sa_noise_threads = 1, sa_noise_cpus = ''4''\<rparr>"

lemma demo_noise_startup: "noise_startup demo_os demo_startup = (Inr [4], [(''noise-0'', Some 4)])"
proof -
  have "parse_cpu_list ''4'' = Inr [4]" "show_nat 0 = ''0''" by code_simp+
  then show ?thesis
    by (simp add: noise_startup_def cpu_option_def start_noise_def noise_pin_def demo_os_def demo_startup_def)
qed

lemma demo_opens: "\<exists>f. open_or_create os_ok readies None = (Some Opened, Some f)"
  by (simp add: open_or_create_def size_file_def map_and_init_def os_ok_def Let_def empty_file_def BUS_SIZE_eq)

lemma demo_noise_and_bus: "\<exists>f. noise_and_bus demo_os demo_startup None = (Some (Inr [4]), [(''noise-0'', Some 4)], Some f)"
  using demo_opens [of "su_readies demo_os"]
  by (auto simp: noise_and_bus_def demo_noise_startup) (auto simp: demo_os_def)

lemma demo_place: "place_main demo_os demo_startup = None"
  by (simp add: place_main_def demo_startup_def)

lemma demo_shut_down: "\<exists>h. shut_down demo_os grp demo_startup h"
proof -
  have "parse_cpu_list (sa_noise_cpus demo_startup) = Inr [4]" by code_simp
  then show ?thesis by (rule shut_down_ex) (simp add: demo_os_def)
qed


text \<open>After a start-up without failure.\<close>

lemma exchange_startup_threads: "exchange_startup os sa = (Inr cpus, threads) \<Longrightarrow> length threads = sa_noise_threads sa"
  using noise_startup_ok by (auto simp: exchange_startup_def split: option.splits)

lemma exchange_run_exits:
  assumes "exchange_startup (xo_start os) sa = (Inr cpus, threads)" and "after_shutdown sa h threads = []"
  shows "case exchange_program os sa args draws start due rounds h of
      None \<Rightarrow> \<exists>ts st. exchange_main args draws start due rounds = Inr (Some (ts, st, P_Running))
    | Some (Crashed p, left) \<Rightarrow> left = threads \<and> p = LibraryPanic \<and>
        (ea_rate args = 0 \<or> 2 ^ 63 * 1000000000 \<le> start + unat (ea_bench_secs args) * 1000000000)
    | Some (Failed e, left) \<Rightarrow> left = threads \<and>
        (e = NoSymbols \<and> symbol_names (ea_symbols args) = [] \<or>
         (\<exists>n. e = BindError n \<and> xo_bind os = Some n) \<or> (\<exists>n. e = ConnectError n \<and> xo_connect os = Some n))
    | Some (Finished (ts, x), left) \<Rightarrow>
        (\<exists>st. exchange_main args draws start due rounds = Inr (Some (ts, st, x))) \<and> x \<noteq> P_Running \<and>
        left = (if x = P_Count then threads else [])"
proof (cases "parse_symbols (ea_symbols args) draws = None \<or> xo_bind os \<noteq> None \<or> xo_connect os \<noteq> None")
  case True
  have "parse_symbols (ea_symbols args) draws = None \<longleftrightarrow> symbol_names (ea_symbols args) = []"
    by (rule parse_symbols_None)
  then show ?thesis using True assms by (auto simp: exchange_program_def split: option.splits)
next
  case False
  have crash: "p = LibraryPanic \<and> (ea_rate args = 0 \<or> 2 ^ 63 * 1000000000 \<le> start + unat (ea_bench_secs args) * 1000000000)"
    if "exchange_main args draws start due rounds = Inl p" for p
    using that per_tick_approx [of "ea_rate args"]
    by (auto simp: exchange_main_def bench_deadline_def instant_add_def not_less split: option.splits sum.splits if_splits)
  have symbols: "exchange_main args draws start due rounds \<noteq> Inr None"
    using False by (auto simp: exchange_main_def split: option.splits sum.splits)
  show ?thesis
  proof (cases "exchange_main args draws start due rounds")
    case (Inl p)
    then show ?thesis using crash [OF Inl] assms False by (auto simp: exchange_program_def)
  next
    case (Inr r)
    then obtain ts st x where "exchange_main args draws start due rounds = Inr (Some (ts, st, x))"
      using symbols by (cases r) auto
    then show ?thesis using assms False by (cases x) (auto simp: exchange_program_def exchange_end_def)
  qed
qed

text \<open>Why a start-up panics.\<close>

lemma exchange_startup_panic:
  assumes "exchange_startup os sa = (Inl (StartPanic p), threads)"
  shows "p = LibraryPanic \<and> ((\<exists>c. sa_pin_cpu sa = Some c \<and> pin_to_cpu (su_pin os) c = PinPanicked) \<or>
    (\<exists>i < sa_noise_threads sa. \<not> su_spawn os i))"
proof (cases "place_main os sa")
  case None
  then have n: "noise_startup os sa = (Inl (StartPanic p), threads)" using assms by (simp add: exchange_startup_def)
  then obtain cpus where "cpu_option ''--noise-cpus'' (sa_noise_cpus sa) = Inr cpus"
    using cpu_option_error by (cases "cpu_option ''--noise-cpus'' (sa_noise_cpus sa)") (fastforce simp: noise_startup_def)+
  then have "start_noise os sa cpus = (Some p, threads)"
    using n by (auto simp: noise_startup_def split: prod.splits option.splits)
  then show ?thesis using start_noise_result [of os sa cpus "Some p" threads] by auto
next
  case (Some e)
  then show ?thesis using assms
    by (auto simp: exchange_startup_def place_main_def split: option.splits pin_result.splits if_splits)
qed

text \<open>C36. How the exchange ends, in every case. A start-up that fails ends it with the start-up's error; it panics there
  only if the pinning of the main thread panics or a noise thread cannot be spawned. After that it crashes only for a rate
  of zero or a run length that the clock cannot hold, and fails only for want of a symbol or of its socket;
  else it has published the ticks of its loop, and ends by the stop flag, the deadline or the count.
  The noise threads are joined after the stop flag and the deadline, but not after
  \<open>--count\<close>, nor after any error: they are left running to the end of the process.\<close>

theorem exchange_exits:
  assumes "isl (fst (exchange_startup (xo_start os) sa)) \<or> shut_down (xo_start os) grp sa h"
  shows "case exchange_startup (xo_start os) sa of
      (Inl e, started) \<Rightarrow>
        exchange_program os sa args draws start due rounds h = Some (startup_exit e, started) \<and>
        (\<forall>p. startup_exit e = (Crashed p :: (market_tick list \<times> loop_exit) exit) \<longrightarrow> p = LibraryPanic \<and>
           ((\<exists>c. sa_pin_cpu sa = Some c \<and> pin_to_cpu (su_pin (xo_start os)) c = PinPanicked) \<or>
            (\<exists>i < sa_noise_threads sa. \<not> su_spawn (xo_start os) i)))
    | (Inr cpus, threads) \<Rightarrow>
        (case exchange_program os sa args draws start due rounds h of
           None \<Rightarrow> \<exists>ts st. exchange_main args draws start due rounds = Inr (Some (ts, st, P_Running))
         | Some (Crashed p, left) \<Rightarrow> left = threads \<and> p = LibraryPanic \<and>
             (ea_rate args = 0 \<or> 2 ^ 63 * 1000000000 \<le> start + unat (ea_bench_secs args) * 1000000000)
         | Some (Failed e, left) \<Rightarrow> left = threads \<and>
             (e = NoSymbols \<and> symbol_names (ea_symbols args) = [] \<or>
              (\<exists>n. e = BindError n \<and> xo_bind os = Some n) \<or> (\<exists>n. e = ConnectError n \<and> xo_connect os = Some n))
         | Some (Finished (ts, x), left) \<Rightarrow>
             (\<exists>st. exchange_main args draws start due rounds = Inr (Some (ts, st, x))) \<and> x \<noteq> P_Running \<and>
             left = (if x = P_Count then threads else []))"
proof -
  obtain r threads where start: "exchange_startup (xo_start os) sa = (r, threads)" by force
  show ?thesis
  proof (cases r)
    case (Inl e)
    have "startup_exit e = (Crashed p :: (market_tick list \<times> loop_exit) exit) \<Longrightarrow> e = StartPanic p" for p
      by (simp add: startup_exit_def split: startup_error.splits)
    then show ?thesis using start Inl exchange_startup_panic [of "xo_start os" sa]
      by (auto simp: exchange_program_def)
  next
    case (Inr cpus)
    then have quiet: "after_shutdown sa h threads = []"
      using assms start nobody_left exchange_startup_threads by fastforce
    show ?thesis using start Inr exchange_run_exits [OF start [unfolded Inr] quiet] by simp
  qed
qed

theorem exchange_exits_witness:
  "\<exists>h ts. exchange_program \<lparr>xo_start = demo_os, xo_bind = None, xo_connect = None\<rparr> demo_startup (demo_args\<lparr>ea_count := 1\<rparr>)
       (\<lambda>i. f64_lit 0 1) 0 0 [demo_round 0] h = Some (Finished (ts, P_Count), [(''noise-0'', Some 4)])"
proof -
  let ?os = "\<lparr>xo_start = demo_os, xo_bind = None, xo_connect = None\<rparr>" and ?args = "demo_args\<lparr>ea_count := 1\<rparr>"
  let ?draws = "\<lambda>i :: nat. f64_lit 0 1"
  obtain ss where ss: "parse_symbols (ea_symbols ?args) ?draws = Some ss" using demo_symbols [of ?draws] by auto
  then obtain a b where ab: "ss = a # b" using parse_symbols_Some(2) [OF ss] by (cases ss) auto
  have "ea_rate demo_args \<noteq> 0" by (simp add: demo_args_def)
  then obtain d where d: "per_tick_dur (ea_rate ?args) = Some d" by (auto elim: per_tick_approx)
  obtain t sy where t: "exchange_tick 1 (rd_ticks (demo_round 0) 0) a = (t, sy)" by force
  have pass: "publish_round 1 (rd_ticks (demo_round 0)) 0 (a # b) 0 0 = ([t], sy # b, 1, 1, True)" using t by simp
  have go: "\<not> rd_stop (demo_round 0)" "ea_count ?args = 1" "ea_bench_secs ?args = 0" by (simp_all add: demo_round_def demo_args_def)
  obtain ts st where run: "exchange_main ?args ?draws 0 0 [demo_round 0] = Inr (Some (ts, st, P_Count))"
    using ss d pass go unfolding exchange_main_def ab by simp
  have start: "exchange_startup (xo_start ?os) demo_startup = (Inr [4], [(''noise-0'', Some 4)])"
    by (simp add: exchange_startup_def demo_place demo_noise_startup)
  obtain h where h: "shut_down (xo_start ?os) [] demo_startup h" using demo_shut_down by auto
  have "exchange_program ?os demo_startup ?args ?draws 0 0 [demo_round 0] h \<noteq> None"
    using start ss run by (simp add: exchange_program_def exchange_end_def)
  then obtain x left where p: "exchange_program ?os demo_startup ?args ?draws 0 0 [demo_round 0] h = Some (x, left)" by auto
  then show ?thesis using exchange_exits [OF disjI2 [OF h], of ?args ?draws 0 0 "[demo_round 0]"] start ss run
    by (auto simp: exchange_program_def exchange_end_def)
qed

text \<open>The report of the feedhandler: a run of \<open>main\<close> that ends with one, on a bus whose rings are well formed, has joined
  its noise threads and delivered the report as asked; and the latency histogram in it counts
  exactly the ticks published and the ticks dropped at a full ring.\<close>

theorem feedhandler_main_report:
  assumes "feedhandler_main u os ro sa args rounds h bus = Some (Finished (rep, a), left)"
    and "bus_sound bus" and "uring_ok u depth sq fl" and "0 < depth"
    and "\<forall>q0. fo_uring os = Inr q0 \<longrightarrow> posted sq fl q0 = {#}" and "\<forall>r \<in> set rounds. round_ok r"
    and "shut_down (fo_start os) (fa_noise_resctrl_group args) sa h"
  shows "left = [] \<and> delivered (po_json ro) (po_write ro) (fa_bench_report args) (fa_bench_secs args) rep a \<and>
    s_count (fm_wire_latency (fr_metrics rep)) = fm_ticks_published (fr_metrics rep) + fm_publish_drops (fr_metrics rep)"
proof (rule feedhandler_main_finished [OF assms(1)])
  fix noise_cpus threads f q d fh q1 os1
  assume start: "feedhandler_startup (fo_start os) sa bus = (Some (Inr noise_cpus), threads, Some f)"
    and prep: "prepare_loop u os (fa_bench_secs args) = Some (Inr (q, d))"
    and loop: "fh_loop u d rounds q (feedhandler_init (bus_ticks (bf_layout f)) (bus_orders (bf_layout f))) =
      Some (Inr (q1, fh, os1, True))"
    and rep: "report_feedhandler (po_exists ro) (po_read ro) (po_json ro) (po_write ro) sa args (po_host ro) noise_cpus
      (feedhandler_metrics_of (fo_elapsed os) fh) = (rep, Inr a)" and left: "left = after_shutdown sa h threads"
  obtain q0 where q0: "fo_uring os = Inr q0" "post_receives u 0 RECV_BATCH q0 = Some (Inr q)"
    using prep by (auto simp: prepare_loop_def split: option.splits sum.splits)
  have "posted sq fl q = mset (map of_nat [0..<RECV_BATCH])"
    using post_receives_spec [OF assms(3,4), of 0 RECV_BATCH q0] assms(5) q0 by simp
  then have armed: "armed sq fl q" by (rule all_posted_armed)
  note rings = started_rings [OF feedhandler_startup_layout [OF start] assms(2)]
  have ok: "fh_ok (feedhandler_init (bus_ticks (bf_layout f)) (bus_orders (bf_layout f)))"
    using rings(1,2) by (simp add: fh_ok_def feedhandler_init_def histogram_new_def)
  have "left = []" using left nobody_left [OF assms(7) feedhandler_startup_threads [OF start]] by simp
  have "fh_ok fh" using fh_loop_spec [OF assms(3,4,6) armed ok, of d] loop by auto
  then show ?thesis using rep \<open>left = []\<close> emit_report_delivered
    by (auto simp: report_feedhandler_def feedhandler_metrics_of_def summary_def fh_ok_def Let_def)
qed

theorem feedhandler_main_report_witness:
  "let r = \<lparr>fr_stop = True, fr_now = 0, fr_taken = 0, fr_sent = [], fr_env = demo_env\<rparr>;
     os = \<lparr>fo_start = demo_os, fo_bind = None, fo_nonblocking = None, fo_uring = Inr ([], []), fo_started = 0, fo_elapsed = f64_lit 0 1\<rparr>;
     args = \<lparr>fa_bind = ''0.0.0.0:9000'', fa_bus = ''/dev/shm/b'', fa_ring_depth = 4, fa_noise_resctrl_group = [],
       fa_bench_secs = 0, fa_bench_report = None\<rparr>
   in \<exists>h rep. feedhandler_main demo_uring os demo_report_os demo_startup args [r] h None = Some (Finished (rep, No_Report), [])"
proof -
  let ?r = "\<lparr>fr_stop = True, fr_now = 0, fr_taken = 0, fr_sent = [], fr_env = demo_env\<rparr>"
  let ?os = "\<lparr>fo_start = demo_os, fo_bind = None, fo_nonblocking = None, fo_uring = Inr ([], []), fo_started = 0,
    fo_elapsed = f64_lit 0 1\<rparr> :: (u64 list \<times> u64 list) feedhandler_os"
  let ?args = "\<lparr>fa_bind = ''0.0.0.0:9000'', fa_bus = ''/dev/shm/b'', fa_ring_depth = 4, fa_noise_resctrl_group = [],
    fa_bench_secs = 0, fa_bench_report = None\<rparr>"
  have sub: "submit_recv demo_uring ud (a, b) = Some (Inr ([], b @ take 4 a @ [ud]))" if "length a < 4" for ud a b
    using that by (subst submit_recv.simps) (simp add: demo_uring_def)
  have "\<exists>b'. post_receives demo_uring i n ([], b) = Some (Inr ([], b'))" for i n b
    by (induction n arbitrary: i b) (simp_all add: sub)
  then obtain q where q: "post_receives demo_uring 0 RECV_BATCH ([], []) = Some (Inr q)" by blast
  obtain f where f: "noise_and_bus demo_os demo_startup None = (Some (Inr [4]), [(''noise-0'', Some 4)], Some f)"
    using demo_noise_and_bus by blast
  have prep: "prepare_loop demo_uring ?os (fa_bench_secs ?args) = Some (Inr (q, None))" by (simp add: prepare_loop_def q)
  obtain h where h: "shut_down demo_os [] demo_startup h" using demo_shut_down by blast
  obtain rep left where run: "feedhandler_main demo_uring ?os demo_report_os demo_startup ?args [?r] h None =
      Some (Finished (rep, No_Report), left)"
    using f prep by (simp add: feedhandler_main_def feedhandler_startup_def demo_place end_run_def report_feedhandler_def
        emit_report_def Let_def)
  have p: "\<forall>q0. fo_uring ?os = Inr q0 \<longrightarrow> posted (\<lambda>q. take 4 (fst q)) (\<lambda>q. mset (snd q)) q0 = {#}" by (simp add: posted_def)
  have rk: "\<forall>r \<in> set [?r]. round_ok r" by (simp add: round_ok_def demo_env_def)
  have "bus_sound None" by (simp add: bus_sound_def)
  from feedhandler_main_report [OF run this demo_uring_ok _ p rk] h run show ?thesis by (auto simp: Let_def)
qed

end
