(* ===== verification/Console_Text.thy ===== *)
theory Console_Text
  imports Console Mains Noise_Threads
begin

text \<open>
  What the three programs write outside their loops: the lines of the start-up, of the worker and noise threads, and
  of the end of a run, with the \<open>Debug\<close> form of a \<open>Duration\<close> and of a string. The text of the system's
  own errors (\<open>strerror\<close>) is an argument. The lemmas show that a duration is written exactly, and that the
  last line of the exchange says what the run did.
\<close>

section \<open>Durations\<close>

text \<open>\<open>{:?}\<close> of a \<open>Duration\<close>: the largest unit it reaches, and the digits of the fraction up to the last that is
  not zero; \<open>p\<close> is the number of digits the unit leaves.\<close>

fun fraction_digits :: "nat \<Rightarrow> nat \<Rightarrow> string" where
  "fraction_digits 0 rest = []"
| "fraction_digits (Suc p) rest =
     (if rest = 0 then [] else digit_char (rest div 10 ^ p) # fraction_digits p (rest mod 10 ^ p))"

definition fmt_decimal :: "nat \<Rightarrow> nat \<Rightarrow> nat \<Rightarrow> string \<Rightarrow> string" where
  "fmt_decimal int_part part p ending =
     (let f = fraction_digits p part
      in show_nat int_part @ (if f = [] then [] else ''.'' @ f) @ ending)"

definition micros :: string where "micros = [CHR 0xB5, CHR ''s'']"

definition show_duration :: "nat \<Rightarrow> string" where
  "show_duration ns =
     (let secs = ns div 10 ^ 9; nanos = ns mod 10 ^ 9
      in if 0 < secs then fmt_decimal secs nanos 9 ''s''
         else if 10 ^ 6 \<le> nanos then fmt_decimal (nanos div 10 ^ 6) (nanos mod 10 ^ 6) 6 ''ms''
         else if 10 ^ 3 \<le> nanos then fmt_decimal (nanos div 10 ^ 3) (nanos mod 10 ^ 3) 3 micros
         else fmt_decimal nanos 0 0 ''ns'')"

text \<open>Reading it back.\<close>

definition read_places :: "nat \<Rightarrow> string \<Rightarrow> nat" where
  "read_places p s =
     (case split_once CHR ''.'' s of
        None \<Rightarrow> digits_val s * 10 ^ p
      | Some (w, f) \<Rightarrow> digits_val w * 10 ^ p + digits_val f * 10 ^ (p - length f))"

definition read_duration :: "string \<Rightarrow> nat" where
  "read_duration s =
     (let num = takeWhile (\<lambda>c. is_digit c \<or> c = CHR ''.'') s; unit = drop (length num) s
      in read_places (if unit = ''s'' then 9 else if unit = ''ms'' then 6 else if unit = micros then 3 else 0) num)"

lemma fraction_digits_props:
  assumes "r < 10 ^ p"
  shows "digits_val (fraction_digits p r) * 10 ^ (p - length (fraction_digits p r)) = r"
    and "length (fraction_digits p r) \<le> p" and "\<forall>c \<in> set (fraction_digits p r). is_digit c"
proof -
  have cons: "digits_val (c # s) = digit_val c * 10 ^ length s + digits_val s" for c s
    by (induction s rule: rev_induct) (simp_all add: digits_val_def algebra_simps)
  have "digits_val (fraction_digits p r) * 10 ^ (p - length (fraction_digits p r)) = r \<and>
      length (fraction_digits p r) \<le> p \<and> (\<forall>c \<in> set (fraction_digits p r). is_digit c)"
    using assms
  proof (induction p arbitrary: r)
    case (Suc p)
    have d: "r div 10 ^ p < 10" using Suc.prems by (simp add: less_mult_imp_div_less)
    let ?s = "fraction_digits p (r mod 10 ^ p)"
    have IH: "digits_val ?s * 10 ^ (p - length ?s) = r mod 10 ^ p" "length ?s \<le> p" "\<forall>c \<in> set ?s. is_digit c"
      using Suc.IH [of "r mod 10 ^ p"] by simp_all
    have "(10 :: nat) ^ length ?s * 10 ^ (p - length ?s) = 10 ^ p"
      using IH(2) by (simp flip: power_add)
    then have "digits_val (digit_char (r div 10 ^ p) # ?s) * 10 ^ (p - length ?s) = r div 10 ^ p * 10 ^ p + r mod 10 ^ p"
      using d IH(1) unfolding cons by (simp add: add_mult_distrib mult.assoc)
    then show ?case using d IH(2,3) div_mult_mod_eq [of r "10 ^ p"] by simp
  qed simp
  then show "digits_val (fraction_digits p r) * 10 ^ (p - length (fraction_digits p r)) = r"
    "length (fraction_digits p r) \<le> p" "\<forall>c \<in> set (fraction_digits p r). is_digit c" by blast+
qed

lemma read_fmt_decimal:
  assumes "part < 10 ^ p" "ending \<noteq> []" "\<not> is_digit (hd ending)" "hd ending \<noteq> CHR ''.''"
    and "p = (if ending = ''s'' then 9 else if ending = ''ms'' then 6 else if ending = micros then 3 else 0)"
  shows "read_duration (fmt_decimal k part p ending) = k * 10 ^ p + part"
proof -
  let ?f = "fraction_digits p part"
  let ?num = "show_nat k @ (if ?f = [] then [] else ''.'' @ ?f)"
  note f = fraction_digits_props [OF assms(1)]
  have digits: "\<forall>c \<in> set ?num. is_digit c \<or> c = CHR ''.''" using f(3) show_nat_digits by auto
  have t: "takeWhile (\<lambda>c. is_digit c \<or> c = CHR ''.'') (?num @ ending) = ?num"
    using digits assms(2-4) by (cases ending) (auto simp: takeWhile_append2 takeWhile_append)
  have text_eq: "fmt_decimal k part p ending = ?num @ ending" by (simp add: fmt_decimal_def Let_def)
  have val: "read_places p ?num = k * 10 ^ p + part"
  proof (cases "?f = []")
    case True
    then have "part = 0" using f(1) by simp
    then show ?thesis using True by (simp add: read_places_def digits_val_show_nat split_once_None [THEN iffD2])
  next
    case False
    then show ?thesis using f(1) by (simp add: read_places_def split_once_sep digits_val_show_nat)
  qed
  have "drop (length ?num) (?num @ ending) = ending" by simp
  then show ?thesis using val unfolding text_eq read_duration_def Let_def t by (simp only: assms(5) [symmetric])
qed

text \<open>The text of a duration is exact.\<close>

lemma read_show_duration: "read_duration (show_duration ns) = ns"
proof -
  have suf: "\<not> is_digit CHR ''s''" "\<not> is_digit CHR ''m''" "\<not> is_digit CHR ''n''" "\<not> is_digit CHR 0xB5"
    by (simp_all add: is_digit_def)
  have m: "micros \<noteq> []" "hd micros = CHR 0xB5" "micros \<noteq> ''s''" "micros \<noteq> ''ms''" "''ns'' \<noteq> micros"
    by (simp_all add: micros_def)
  have s: "read_duration (fmt_decimal (n div 10 ^ 9) (n mod 10 ^ 9) 9 ''s'') = n" for n
    using read_fmt_decimal [of "n mod 10 ^ 9" 9 "''s''" "n div 10 ^ 9"] suf by simp
  have ms: "read_duration (fmt_decimal (n div 10 ^ 6) (n mod 10 ^ 6) 6 ''ms'') = n" for n
    using read_fmt_decimal [of "n mod 10 ^ 6" 6 "''ms''" "n div 10 ^ 6"] suf by simp
  have us: "read_duration (fmt_decimal (n div 10 ^ 3) (n mod 10 ^ 3) 3 micros) = n" for n
    using read_fmt_decimal [of "n mod 10 ^ 3" 3 micros "n div 10 ^ 3"] suf m by simp
  have n: "read_duration (fmt_decimal n 0 0 ''ns'') = n" for n
    using read_fmt_decimal [of 0 0 "''ns''" n] suf m by simp
  have "ns div 10 ^ 9 = 0 \<Longrightarrow> ns mod 10 ^ 9 = ns" using div_mult_mod_eq [of ns "10 ^ 9"] by simp
  then show ?thesis unfolding show_duration_def Let_def by (simp only: s ms us n if_cancel split: if_split) simp
qed

section \<open>Errors and logs\<close>

text \<open>\<open>{:?}\<close> of a string, for the code points the strings hold: quotes, escapes, and the code points that are not
  printable in hexadecimal.\<close>

fun show_hex :: "nat \<Rightarrow> string" where
  "show_hex n =
     (let d = n mod 16; c = (if d < 10 then char_of (48 + d) else char_of (87 + d))
      in if n < 16 then [c] else show_hex (n div 16) @ [c])"

declare show_hex.simps [simp del]

definition debug_char :: "char \<Rightarrow> string" where
  "debug_char c =
     (let n = of_char c :: nat
      in if n = 0 then [CHR 0x5C, CHR ''0''] else if n = 9 then [CHR 0x5C, CHR ''t'']
         else if n = 13 then [CHR 0x5C, CHR ''r''] else if n = 10 then [CHR 0x5C, CHR ''n'']
         else if n = 34 \<or> n = 92 then [CHR 0x5C, c]
         else if n < 32 \<or> 127 \<le> n \<and> n \<le> 160 \<or> n = 173 then CHR 0x5C # ''u{'' @ show_hex n @ ''}''
         else [c])"

definition show_debug :: "string \<Rightarrow> string" where
  "show_debug s = CHR 0x22 # concat (map debug_char s) @ [CHR 0x22]"

text \<open>An error of the system, and the error of \<open>join_group\<close>.\<close>

definition show_os_error :: "(nat \<Rightarrow> string) \<Rightarrow> nat \<Rightarrow> string" where
  "show_os_error strerror e = strerror e @ '' (os error '' @ show_nat e @ '')''"

definition show_join_error :: "(nat \<Rightarrow> string) \<Rightarrow> join_error \<Rightarrow> string" where
  "show_join_error strerror e =
     (case e of
        GroupMissing grp \<Rightarrow> ''resctrl group '' @ show_debug grp @ '' does not exist (run scripts/cache-alloc.sh)''
      | WriteFailed tid path os \<Rightarrow> ''writing tid='' @ show_nat tid @ '' to '' @ path @ '': '' @ show_os_error strerror os)"

text \<open>The lines of a worker and of a noise thread.\<close>

definition worker_line :: "(nat \<Rightarrow> string) \<Rightarrow> nat \<Rightarrow> worker_log \<Rightarrow> string" where
  "worker_line strerror w l = ''worker-'' @ show_nat w @
     (case l of
        WorkerPinned c \<Rightarrow> '': pinned to cpu '' @ show_nat c
      | WorkerNotPinned c e \<Rightarrow> '': failed to pin cpu '' @ show_nat c @ '': '' @ show_os_error strerror e
      | WorkerNotJoined e \<Rightarrow> '': resctrl join failed: '' @ show_join_error strerror e)"

definition noise_line :: "(nat \<Rightarrow> string) \<Rightarrow> noise_log \<Rightarrow> string" where
  "noise_line strerror l =
     (case l of
        NotPinned c e \<Rightarrow> ''noise: failed to pin to cpu '' @ show_nat c @ '': '' @ show_os_error strerror e
      | NotJoined grp e \<Rightarrow> ''noise: failed to join resctrl group '' @ grp @ '': '' @ show_join_error strerror e)"

section \<open>The start-up\<close>

text \<open>The lines up to the first early return. The pinning has its line before the cache group is tried.\<close>

definition place_lines :: "string \<Rightarrow> string \<Rightarrow> startup_os \<Rightarrow> startup_args \<Rightarrow> string list" where
  "place_lines program ending os args =
     (case sa_pin_cpu args of
        None \<Rightarrow> []
      | Some c \<Rightarrow> if pin_to_cpu (su_pin os) c = Pinned then [program @ '': pinned main thread to cpu '' @ show_nat c] else []) @
     (if place_main os args = None \<and> sa_resctrl_group args \<noteq> []
      then [program @ '': joined resctrl group '' @ sa_resctrl_group args @ ending] else [])"

definition schemata_suffix :: "(string \<Rightarrow> nat + string) \<Rightarrow> startup_args \<Rightarrow> string" where
  "schemata_suffix read_file args =
     '' (schemata: '' @ (case current_schemata read_file (sa_resctrl_group args) of Inl e \<Rightarrow> [] | Inr s \<Rightarrow> s) @ '')''"

definition host_line :: "string \<Rightarrow> host_info \<Rightarrow> string" where
  "host_line program h =
     program @ '': host '' @ hi_cpu_model h @ '' ('' @ hi_cpu_vendor h @ '') kernel='' @ hi_kernel h @
     '' governor='' @ hi_governor h @ '' isolated=['' @ hi_isolated_cpus h @ '']''"

definition noise_lines :: "string \<Rightarrow> string \<Rightarrow> startup_args \<Rightarrow> string list" where
  "noise_lines program ending args =
     (case cpu_option ''--noise-cpus'' (sa_noise_cpus args) of
        Inl e \<Rightarrow> []
      | Inr cpus \<Rightarrow>
          if 0 < sa_noise_threads args
          then [program @ '': spawning '' @ show_nat (sa_noise_threads args) @ '' noise threads on ['' @
                format_cpu_list cpus @ '']'' @ ending]
          else [])"

definition resctrl_suffix :: "string \<Rightarrow> string" where
  "resctrl_suffix grp = '' (resctrl='' @ (if grp = [] then ''<none>'' else grp) @ '')''"

definition exchange_start_lines :: "startup_os \<Rightarrow> startup_args \<Rightarrow> string list" where
  "exchange_start_lines os args =
     place_lines ''mock-exchange'' [] os args @
     (if place_main os args = None then noise_lines ''mock-exchange'' [] args else [])"

definition feedhandler_start_lines ::
  "startup_os \<Rightarrow> (string \<Rightarrow> nat + string) \<Rightarrow> host_info \<Rightarrow> startup_args \<Rightarrow> string \<Rightarrow> string list" where
  "feedhandler_start_lines os read_file host args noise_group =
     place_lines ''feedhandler'' (schemata_suffix read_file args) os args @
     (if place_main os args = None
      then host_line ''feedhandler'' host # noise_lines ''feedhandler'' (resctrl_suffix noise_group) args else [])"

definition engine_start_lines ::
  "startup_os \<Rightarrow> (string \<Rightarrow> nat + string) \<Rightarrow> host_info \<Rightarrow> startup_args \<Rightarrow> string \<Rightarrow> string \<Rightarrow> string list" where
  "engine_start_lines os read_file host args worker_cpus noise_group =
     place_lines ''trading-engine'' (schemata_suffix read_file args) os args @
     (if place_main os args = None
      then host_line ''trading-engine'' host #
        (case cpu_option ''--worker-cpus'' worker_cpus of
           Inl e \<Rightarrow> []
         | Inr ws \<Rightarrow> noise_lines ''trading-engine'' (resctrl_suffix noise_group) args)
      else [])"

text \<open>The socket of the feedhandler, and the mode of the engine.\<close>

definition listening_lines :: "'q feedhandler_os \<Rightarrow> feedhandler_args \<Rightarrow> string list" where
  "listening_lines os args =
     (if fo_bind os = None \<and> fo_nonblocking os = None
      then [''feedhandler: listening udp on '' @ fa_bind args, ''feedhandler: shm bus  '' @ fa_bus args] else [])"

definition mode_line :: "engine_args \<Rightarrow> nat list \<Rightarrow> string" where
  "mode_line args worker_cpus =
     (if na_workers args = 0 then ''trading-engine: inline mode (no worker threads)''
      else ''trading-engine: spawning '' @ show_nat (na_workers args) @ '' strategy workers on ['' @
           format_cpu_list worker_cpus @ '']'')"

section \<open>The end\<close>

definition inline_finish_line :: "nat \<Rightarrow> inline_engine \<Rightarrow> string" where
  "inline_finish_line elapsed e =
     ''trading-engine: run finished after '' @ show_duration elapsed @ '' ('' @
     show_nat (unat (ie_ticks_seen e)) @ '' ticks, '' @ show_nat (unat (ie_orders_sent e)) @ '' orders, '' @
     show_nat (unat (ie_orders_dropped e)) @ '' order-drops)''"

definition workers_finish_line :: "nat \<Rightarrow> ('c, 'o) engine \<Rightarrow> string" where
  "workers_finish_line elapsed s =
     ''trading-engine: run finished after '' @ show_duration elapsed @ '' ('' @
     show_nat (unat (eg_ticks_seen s)) @ '' ticks, '' @ show_nat (unat (eg_ticks_dropped s)) @ '' dispatched-dropped, '' @
     show_nat (unat (eg_orders_sent s)) @ '' orders, '' @ show_nat (unat (eg_orders_dropped s)) @ '' order-drops)''"

definition feedhandler_finish_line :: "nat \<Rightarrow> feedhandler \<Rightarrow> string" where
  "feedhandler_finish_line elapsed fh =
     ''feedhandler: run finished after '' @ show_duration elapsed @ '' ('' @
     show_nat (unat (fh_recv_count fh)) @ '' ticks, '' @ show_nat (unat (fh_publish_drops fh)) @ '' drops, '' @
     show_nat (unat (fh_order_count fh)) @ '' orders)''"

text \<open>The report is announced when it has gone to a file; the terminal gets it otherwise.\<close>

definition report_lines :: "string \<Rightarrow> report_error + report_action \<Rightarrow> string list" where
  "report_lines program r =
     (case r of
        Inr (Report_Written path) \<Rightarrow> [program @ '': wrote bench report to '' @ path]
      | _ \<Rightarrow> [])"

text \<open>The exchange, all its lines: \<open>sent_total\<close> counts the passes of the loop's body, whether the socket took the tick
  or not.\<close>

definition exchange_end_lines :: "nat \<Rightarrow> pub_state \<times> loop_exit \<Rightarrow> string list" where
  "exchange_end_lines elapsed r =
     (case snd r of
        P_Running \<Rightarrow> []
      | P_Count \<Rightarrow> [''mock-exchange: published '' @ show_nat (unat (pb_sent (fst r))) @ '' ticks in '' @ show_duration elapsed]
      | _ \<Rightarrow> [''mock-exchange: stopped after '' @ show_nat (unat (pb_sent (fst r))) @ '' ticks ('' @
             show_duration elapsed @ '' elapsed)''])"

definition exchange_lines ::
  "exchange_os \<Rightarrow> startup_args \<Rightarrow> exchange_args \<Rightarrow> string \<Rightarrow> (nat \<Rightarrow> f64) \<Rightarrow> nat \<Rightarrow> nat \<Rightarrow> round_env list \<Rightarrow> nat
   \<Rightarrow> string list" where
  "exchange_lines os sa args target draws start due rounds elapsed =
     exchange_start_lines (xo_start os) sa @
     (case (fst (exchange_startup (xo_start os) sa), parse_symbols (ea_symbols args) draws, xo_bind os, xo_connect os) of
        (Inr r, Some symbols, None, None) \<Rightarrow>
          (''mock-exchange: publishing '' @ show_nat (length symbols) @ '' symbols at '' @
           show_nat (unat (ea_rate args)) @ '' t/s/sym to '' @ target) #
          (case exchange_main args draws start due rounds of
             Inr (Some (ts, st, x)) \<Rightarrow> exchange_end_lines elapsed (st, x)
           | _ \<Rightarrow> [])
      | _ \<Rightarrow> [])"

section \<open>What the lines say\<close>

lemma place_lines_pinned:
  "sa_pin_cpu args = Some c \<Longrightarrow> pin_to_cpu (su_pin os) c = Pinned \<Longrightarrow>
    hd (place_lines program ending os args) = program @ '': pinned main thread to cpu '' @ show_nat c"
  by (simp add: place_lines_def)

text \<open>The exchange's last line counts the ticks of the run exactly, and says whether it was stopped.\<close>

lemma exchange_last_line:
  assumes "exchange_program os sa args draws start due rounds h = Some (Finished (ts, x), left)" "length ts < 2 ^ 64"
  shows "last (exchange_lines os sa args target draws start due rounds elapsed) =
    (if x = P_Count then ''mock-exchange: published '' @ show_nat (length ts) @ '' ticks in '' @ show_duration elapsed
     else ''mock-exchange: stopped after '' @ show_nat (length ts) @ '' ticks ('' @ show_duration elapsed @ '' elapsed)'')"
proof -
  obtain r symbols st where run: "fst (exchange_startup (xo_start os) sa) = Inr r" "parse_symbols (ea_symbols args) draws = Some symbols"
    "xo_bind os = None" "xo_connect os = None" "exchange_main args draws start due rounds = Inr (Some (ts, st, x))"
    "x \<noteq> P_Running"
    using assms(1) unfolding exchange_program_def exchange_end_def
    by (auto split: sum.splits option.splits prod.splits if_splits loop_exit.splits)
  have "pb_sent st = of_nat (length ts)"
  proof -
    obtain ss d dl where "parse_symbols (ea_symbols args) draws = Some ss"
      "publish_loop (ea_count args) dl d rounds \<lparr>pb_syms = ss, pb_seq = 0, pb_sent = 0, pb_due = due\<rparr> = (ts, st, x)"
      by (rule exchange_main_run [OF run(5)])
    moreover have "ea_count args = 0 \<or> 0 < unat (ea_count args)" by (simp add: unat_gt_0)
    ultimately show ?thesis using publish_loop_shape by fastforce
  qed
  then have n: "unat (pb_sent st) = length ts" using unat_of_nat64_small [OF assms(2)] by simp
  show ?thesis using run n by (cases x) (simp_all add: exchange_lines_def exchange_end_lines_def)
qed

end
