(* ===== verification/Engine_Console.thy ===== *)
theory Engine_Console
  imports Console_Text Engine_Trace
begin

text \<open>
  What the engine with workers writes while it runs: the lines of the workers' placement, the order lines of the drain in
  the main loop, the statistics at the end of a turn. The final drain, after the workers are
  joined, publishes without a line. The output is a function of the labelled steps of \<open>Engine_Trace\<close>.
\<close>

section \<open>Lines of a step\<close>

text \<open>The log lines a step adds, worker by worker.\<close>

definition new_log_lines :: "(nat \<Rightarrow> string) \<Rightarrow> ('c, 'o) engine \<Rightarrow> ('c, 'o) engine \<Rightarrow> console_entry list" where
  "new_log_lines strerror s s' =
     concat (map (\<lambda>w. map (Worker_Line w \<circ> worker_line strerror w)
       (drop (length (wk_log (eg_workers s ! w))) (wk_log (eg_workers s' ! w)))) [0..<length (eg_workers s)])"

definition drain_lines :: "bool \<Rightarrow> ('c, 'o) engine \<Rightarrow> engine_event \<Rightarrow> console_entry list" where
  "drain_lines quiet s ev =
     (case ev of Published m \<Rightarrow> if eg_pc s = M_Drain \<and> \<not> quiet then [engine_order_line m] else [] | _ \<Rightarrow> [])"

text \<open>The turn ends when the main thread goes from the drain to the top of its loop.\<close>

definition turn_stats :: "('c, 'o) engine \<Rightarrow> ('c, 'o) engine \<Rightarrow> nat \<Rightarrow> nat \<times> nat \<Rightarrow> console_entry list \<times> nat" where
  "turn_stats s s' since clk =
     (if eg_pc s = M_Drain \<and> eg_pc s' = M_Top
      then stats_turn since clk
        (report_live (eg_ticks_seen s') (eg_orders_sent s') (ends_pending (eg_ticks_in s'))
          (Some (eg_shm_transit s')) (Some (eg_end_to_end s')))
      else ([], since))"

definition engine_writes ::
  "(nat \<Rightarrow> string) \<Rightarrow> bool \<Rightarrow> nat \<times> nat \<Rightarrow> ('c, 'o) engine \<Rightarrow> engine_event \<Rightarrow> ('c, 'o) engine \<Rightarrow> nat
   \<Rightarrow> console_entry list \<times> nat" where
  "engine_writes strerror quiet clk s ev s' since =
     (let (stats, last1) = turn_stats s s' since clk
      in (new_log_lines strerror s s' @ drain_lines quiet s ev @ stats, last1))"

text \<open>A run with what it writes; each step has its readings of the clock.\<close>

inductive console_run ::
  "('c, 'o) engine_ops \<Rightarrow> (nat \<Rightarrow> string) \<Rightarrow> bool \<Rightarrow> ('c, 'o) engine \<Rightarrow> nat
   \<Rightarrow> engine_event list \<Rightarrow> (nat \<times> nat) list \<Rightarrow> ('c, 'o) engine \<Rightarrow> console_entry list \<Rightarrow> nat \<Rightarrow> bool"
  for ops :: "('c, 'o) engine_ops" and strerror :: "nat \<Rightarrow> string" and quiet :: bool
    and s0 :: "('c, 'o) engine" and since0 :: nat
where
  cr_start: "console_run ops strerror quiet s0 since0 [] [] s0 [] since0"
| cr_step: "console_run ops strerror quiet s0 since0 evs clks s out since \<Longrightarrow> engine_does ops s ev s' \<Longrightarrow>
    engine_writes strerror quiet clk s ev s' since = (o1, since') \<Longrightarrow>
    console_run ops strerror quiet s0 since0 (evs @ [ev]) (clks @ [clk]) s' (out @ o1) since'"

section \<open>Lemmas\<close>

lemma console_run_run: "console_run ops strerror quiet s0 since0 evs clks s out since \<Longrightarrow> engine_run ops s0 evs s"
  by (induction rule: console_run.induct) (auto intro: run_start run_event)

text \<open>Writing holds nothing up: every run can be written.\<close>

lemma run_console_run:
  assumes "engine_run ops s0 evs s" "length clks = length evs"
  shows "\<exists>out since. console_run ops strerror quiet s0 since0 evs clks s out since"
  using assms
proof (induction arbitrary: clks rule: engine_run.induct)
  case run_start
  then show ?case using cr_start by fastforce
next
  case (run_event evs t ev s')
  then obtain cs clk where clks: "clks = cs @ [clk]" "length cs = length evs"
    by (metis length_Suc_conv_rev length_append_singleton)
  then obtain out since where "console_run ops strerror quiet s0 since0 evs cs t out since" using run_event.IH by blast
  then show ?case unfolding clks(1)
    using cr_step [OF _ run_event(2)] by (metis prod.exhaust)
qed

text \<open>Logs only grow.\<close>

lemma place_worker_log: "\<exists>l. wk_log (place_worker ops w wk) = wk_log wk @ l"
  by (auto simp: place_worker_def split: worker_pc.splits option.splits pin_result.splits)

lemma process_item_log: "wk_log (process_item ps clk it wk) = wk_log wk"
  by (auto simp: process_item_def Let_def split: prod.splits option.splits)

lemma logs_grow:
  assumes "engine_moves ops s s'" "w < length (eg_workers s)"
  shows "\<exists>l. wk_log (eg_workers s' ! w) = wk_log (eg_workers s ! w) @ l" "length (eg_workers s') = length (eg_workers s)"
proof -
  have set: "\<exists>l. wk_log (eg_workers (set_worker u wk t) ! w) = wk_log (eg_workers s ! w) @ l"
    if "\<exists>l. wk_log wk = wk_log (eg_workers s ! u) @ l" "eg_workers t = eg_workers s" for u wk and t :: "('a, 'b) engine"
    using that assms(2) by (cases "u = w") (auto simp: set_worker_def)
  from assms(1) consider "engine_step ops s s'" | "outside_step s s'" by (auto simp: engine_moves_def)
  then have "(\<exists>l. wk_log (eg_workers s' ! w) = wk_log (eg_workers s ! w) @ l) \<and> length (eg_workers s') = length (eg_workers s)"
  proof cases
    case 1
    then show ?thesis
      by (cases rule: engine_step.cases)
        (use set place_worker_log process_item_log in \<open>auto simp: set_worker_def nth_list_update\<close>)
  next
    case 2
    then show ?thesis by cases auto
  qed
  then show "\<exists>l. wk_log (eg_workers s' ! w) = wk_log (eg_workers s ! w) @ l" "length (eg_workers s') = length (eg_workers s)"
    by blast+
qed

text \<open>The workers' lines in an output.\<close>

definition lines_of_worker :: "nat \<Rightarrow> console_entry list \<Rightarrow> string list" where
  "lines_of_worker w out = concat (map (\<lambda>x. case x of Worker_Line u l \<Rightarrow> if u = w then [l] else [] | _ \<Rightarrow> []) out)"

lemma lines_of_worker_append [simp]: "lines_of_worker w (a @ b) = lines_of_worker w a @ lines_of_worker w b"
  by (simp add: lines_of_worker_def)

lemma lines_of_worker_none: "\<forall>x \<in> set out. is_order x \<or> is_stats x \<Longrightarrow> lines_of_worker w out = []"
  by (auto simp: lines_of_worker_def is_order_def is_stats_def split: console_entry.splits)

lemma lines_of_worker_map:
  "lines_of_worker w (map (Worker_Line u \<circ> f) ls) = (if u = w then map f ls else [])"
  by (induction ls) (auto simp: lines_of_worker_def)

lemma lines_of_worker_concat:
  "lines_of_worker w (concat (map (\<lambda>u. map (Worker_Line u \<circ> f u) (ls u)) us)) =
    concat (map (\<lambda>u. if u = w then map (f w) (ls w) else []) us)"
  by (induction us) (simp add: lines_of_worker_def, simp add: lines_of_worker_map [unfolded comp_def] comp_def)

lemma concat_only: "concat (map (\<lambda>u. if u = w then xs else []) [0..<n]) = (if w < n then xs else [])"
  by (induction n) auto

lemma new_log_lines_kinds: "filter is_order (new_log_lines strerror s s') = []" "filter is_stats (new_log_lines strerror s s') = []"
  by (auto simp: new_log_lines_def filter_empty_conv)

lemma new_log_lines_worker:
  "w < length (eg_workers s) \<Longrightarrow>
   lines_of_worker w (new_log_lines strerror s s') =
     map (worker_line strerror w) (drop (length (wk_log (eg_workers s ! w))) (wk_log (eg_workers s' ! w)))"
  by (simp add: new_log_lines_def lines_of_worker_concat concat_only)

lemma turn_stats_kinds:
  assumes "turn_stats s s' since clk = (st, since1)"
  shows "filter is_order st = []" "\<forall>x \<in> set st. is_stats x"
  using assms stats_turn_kinds by (auto simp: turn_stats_def stats_turn_def split: if_splits)

text \<open>The clock over a run.\<close>

definition last_clock :: "nat \<Rightarrow> (nat \<times> nat) list \<Rightarrow> nat" where
  "last_clock t clks = (if clks = [] then t else snd (last clks))"

lemma last_clock_Cons: "last_clock t (c # cs) = last_clock (snd c) cs"
  by (simp add: last_clock_def)

lemma clock_on_snoc: "clock_on t (clks @ [clk]) \<longleftrightarrow> clock_on t clks \<and> last_clock t clks \<le> fst clk \<and> fst clk \<le> snd clk"
  by (induction clks arbitrary: t) (auto simp: last_clock_Cons, auto simp: last_clock_def)

lemma turn_stats_bound:
  assumes "turn_stats s s' since clk = (st, since1)" "t \<le> fst clk" "fst clk \<le> snd clk" "since \<le> t"
  shows "STATS_NS * length (filter is_stats st) + since \<le> since1" "since1 \<le> snd clk"
proof -
  have c: "clock_on t [clk]" using assms(2,3) by simp
  show "STATS_NS * length (filter is_stats st) + since \<le> since1" "since1 \<le> snd clk"
    using assms(1,2,3,4) stats_turn_bound(1,2) [OF _ c assms(4)] by (auto simp: turn_stats_def split: if_splits)
qed

text \<open>The main thread leaves its loop for the joins, and never comes back.\<close>

lemma publish_next_pc: "eg_pc (publish_next ops p s) = p \<or> eg_pc (publish_next ops p s) = eg_pc s"
  by (auto simp: publish_next_def Let_def split: prod.splits option.splits)

lemma leaving_loop:
  assumes "engine_moves ops s s'"
  shows "senders_open s \<Longrightarrow> senders_open s' \<or> eg_pc s' = M_Join 0" and "\<not> senders_open s \<Longrightarrow> \<not> senders_open s'"
proof -
  have "(senders_open s \<longrightarrow> senders_open s' \<or> eg_pc s' = M_Join 0) \<and> (\<not> senders_open s \<longrightarrow> \<not> senders_open s')"
    using assms unfolding engine_moves_def
  proof
    assume "engine_step ops s s'"
    then show ?thesis
    proof (cases rule: engine_step.cases)
      case (main_take clk)
      then show ?thesis by (auto simp: dispatch_def senders_open_def Let_def split: option.splits prod.splits)
    next
      case main_drain
      then show ?thesis using publish_next_pc [of ops M_Top s] by (auto simp: back_off_def senders_open_def)
    next
      case main_final
      then show ?thesis using publish_next_pc [of ops M_Finished s] by (auto simp: senders_open_def)
    qed (auto simp: senders_open_def set_worker_def)
  next
    assume "outside_step s s'"
    then show ?thesis by cases (auto simp: senders_open_def)
  qed
  then show "senders_open s \<Longrightarrow> senders_open s' \<or> eg_pc s' = M_Join 0" "\<not> senders_open s \<Longrightarrow> \<not> senders_open s'"
    by blast+
qed

lemma published_snoc:
  "published (evs @ [ev]) = published evs @ (case ev of Published m \<Rightarrow> [m] | _ \<Rightarrow> [])"
  by (simp add: histories)

lemma published_pc:
  assumes "engine_does ops s (Published m) s'"
  shows "eg_pc s = M_Drain \<and> eg_pc s' = M_Drain \<or> eg_pc s = M_Final"
proof -
  from assms obtain c where r: "eg_pc s \<in> {M_Drain, M_Final}" "ch_try_recv (en_orders_chan ops) (eg_orders s) = (Some m, c)"
    "s' = drain_turn ops s"
    by (cases rule: engine_does.cases) auto
  then show ?thesis
    by (auto simp: drain_turn_def publish_next_def back_off_def Let_def split: prod.splits)
qed

text \<open>The part of a run in the main loop: all of it until the loop is left, and then what came before.\<close>

definition in_loop_part :: "('c, 'o) engine_ops \<Rightarrow> ('c, 'o) engine \<Rightarrow> engine_event list \<Rightarrow> ('c, 'o) engine \<Rightarrow> engine_event list \<Rightarrow> bool" where
  "in_loop_part ops s0 evs s evs1 \<longleftrightarrow>
     (\<exists>evs2 s1. evs = evs1 @ evs2 \<and> engine_run ops s0 evs1 s1 \<and> engine_run ops s1 evs2 s \<and>
        (if senders_open s then evs2 = [] else eg_pc s1 = M_Join 0))"

lemma in_loop_step:
  assumes "in_loop_part ops s0 evs s evs1" "engine_does ops s ev s'"
  shows "in_loop_part ops s0 (evs @ [ev]) s' (if senders_open s then evs1 @ [ev] else evs1)"
proof -
  obtain evs2 s1 where part: "evs = evs1 @ evs2" "engine_run ops s0 evs1 s1" "engine_run ops s1 evs2 s"
    "if senders_open s then evs2 = [] else eg_pc s1 = M_Join 0"
    using assms(1) by (auto simp: in_loop_part_def)
  note leave = leaving_loop [OF engine_does_moves [OF assms(2)]]
  show ?thesis
  proof (cases "senders_open s")
    case True
    then have "evs2 = []" using part(4) by simp
    then have "engine_run ops s0 (evs1 @ [ev]) s'"
      using engine_run_append [OF part(3,2)] run_event [OF _ assms(2)] by simp
    then show ?thesis using True \<open>evs2 = []\<close> part(1) leave(1) run_start
      by (auto simp: in_loop_part_def intro!: exI [of _ "[]"] exI [of _ s'])
  next
    case False
    then show ?thesis using part leave(2) run_event [OF part(3) assms(2)]
      by (auto simp: in_loop_part_def intro!: exI [of _ "evs2 @ [ev]"] exI [of _ s1])
  qed
qed

text \<open>One step: an order line for an order published in the main loop, the rest as before.\<close>

lemma engine_writes_out:
  assumes "engine_writes strerror quiet clk s ev s' since = (o1, since1)"
  obtains st where "o1 = new_log_lines strerror s s' @ drain_lines quiet s ev @ st" "turn_stats s s' since clk = (st, since1)"
    "filter is_order o1 = drain_lines quiet s ev" "filter is_stats o1 = filter is_stats st"
    "\<And>w. w < length (eg_workers s) \<Longrightarrow> lines_of_worker w o1 =
      map (worker_line strerror w) (drop (length (wk_log (eg_workers s ! w))) (wk_log (eg_workers s' ! w)))"
proof -
  obtain st where st: "turn_stats s s' since clk = (st, since1)" and o1: "o1 = new_log_lines strerror s s' @ drain_lines quiet s ev @ st"
    using assms by (auto simp: engine_writes_def split: prod.splits)
  have d: "filter is_order (drain_lines quiet s ev) = drain_lines quiet s ev" "filter is_stats (drain_lines quiet s ev) = []"
    "\<forall>x \<in> set (drain_lines quiet s ev). is_order x"
    by (auto simp: drain_lines_def split: engine_event.splits)
  note k = turn_stats_kinds [OF st]
  have "lines_of_worker w (drain_lines quiet s ev) = []" "lines_of_worker w st = []" for w
    using d(3) k(2) lines_of_worker_none by blast+
  then have "filter is_order o1 = drain_lines quiet s ev" "filter is_stats o1 = filter is_stats st"
    "\<And>w. w < length (eg_workers s) \<Longrightarrow> lines_of_worker w o1 =
      map (worker_line strerror w) (drop (length (wk_log (eg_workers s ! w))) (wk_log (eg_workers s' ! w)))"
    using d(1,2) k(1) by (simp_all add: o1 new_log_lines_kinds new_log_lines_worker)
  then show ?thesis by (rule that [OF o1 st])
qed

lemma console_run_orders:
  assumes "console_run ops strerror quiet s0 since0 evs clks s out since" "senders_open s0"
  shows "\<exists>evs1. in_loop_part ops s0 evs s evs1 \<and>
    filter is_order out = (if quiet then [] else map engine_order_line (published evs1))"
  using assms
proof (induction rule: console_run.induct)
  case cr_start
  then show ?case by (intro exI [of _ "[]"]) (auto simp: in_loop_part_def histories intro: run_start)
next
  case (cr_step evs clks s out since ev s' clk o1 since')
  obtain evs1 where IH: "in_loop_part ops s0 evs s evs1"
    "filter is_order out = (if quiet then [] else map engine_order_line (published evs1))"
    using cr_step.IH cr_step.prems by blast
  have out1: "filter is_order o1 = drain_lines quiet s ev" using engine_writes_out [OF cr_step.hyps(3)] by metis
  have "drain_lines quiet s ev =
      (if quiet \<or> \<not> senders_open s then [] else map engine_order_line (case ev of Published m \<Rightarrow> [m] | _ \<Rightarrow> []))"
    using published_pc [of ops s _ s'] cr_step.hyps(2) by (cases ev) (fastforce simp: drain_lines_def senders_open_def)+
  then show ?case using in_loop_step [OF IH(1) cr_step.hyps(2)] IH(2) out1
    by (intro exI [of _ "if senders_open s then evs1 @ [ev] else evs1"]) (auto simp: published_snoc)
qed

lemma console_run_stats:
  assumes "console_run ops strerror quiet s0 since0 evs clks s out since" "clock_on since0 clks"
  shows "STATS_NS * length (filter is_stats out) + since0 \<le> since \<and> since \<le> last_clock since0 clks"
  using assms
proof (induction rule: console_run.induct)
  case cr_start
  then show ?case by (simp add: last_clock_def)
next
  case (cr_step evs clks s out since ev s' clk o1 since')
  obtain st where st: "turn_stats s s' since clk = (st, since')" "filter is_stats o1 = filter is_stats st"
    using engine_writes_out [OF cr_step.hyps(3)] by metis
  have c: "clock_on since0 clks" "last_clock since0 clks \<le> fst clk" "fst clk \<le> snd clk"
    using cr_step.prems by (simp_all add: clock_on_snoc)
  then have IH: "STATS_NS * length (filter is_stats out) + since0 \<le> since" "since \<le> last_clock since0 clks"
    using cr_step.IH by blast+
  show ?case using turn_stats_bound [OF st(1) c(2,3) IH(2)] IH(1) st(2)
    by (simp add: last_clock_def algebra_simps)
qed

lemma console_run_workers:
  assumes "console_run ops strerror quiet s0 since0 evs clks s out since"
    and "w < length (eg_workers s0)" "wk_log (eg_workers s0 ! w) = []"
  shows "lines_of_worker w out = map (worker_line strerror w) (wk_log (eg_workers s ! w)) \<and>
    length (eg_workers s) = length (eg_workers s0)"
  using assms
proof (induction rule: console_run.induct)
  case cr_start
  then show ?case by (simp add: lines_of_worker_def)
next
  case (cr_step evs clks s out since ev s' clk o1 since')
  then have IH: "lines_of_worker w out = map (worker_line strerror w) (wk_log (eg_workers s ! w))"
    "length (eg_workers s) = length (eg_workers s0)" by blast+
  then have w: "w < length (eg_workers s)" using cr_step.prems(1) by simp
  obtain l where l: "wk_log (eg_workers s' ! w) = wk_log (eg_workers s ! w) @ l" "length (eg_workers s') = length (eg_workers s)"
    using logs_grow [OF engine_does_moves [OF cr_step.hyps(2)] w] by blast
  have "lines_of_worker w o1 = map (worker_line strerror w) (drop (length (wk_log (eg_workers s ! w))) (wk_log (eg_workers s' ! w)))"
    using engine_writes_out [OF cr_step.hyps(3)] w by metis
  then show ?case using IH l by simp
qed

section \<open>Properties\<close>

text \<open>C37. What the engine with workers writes, in any interleaving: writing holds nothing up, every run has its output
  whatever the clock reads; without \<open>--quiet\<close> the order lines are exactly the orders put in the ring by the main loop, in
  order and each once: all that were published, as long as the main thread is in its loop, and after that all that were
  published up to the moment at which it left the loop for the joins, so none for the final drain; each worker's
  lines are its log; and as the clock goes on, each report takes two seconds of it.\<close>

theorem workers_console:
  assumes "starts n v c0 o0 ticks orders" and "engine_run ops (engine_init n c0 o0 ticks orders) evs s"
    and "length clks = length evs" and "clock_on since clks"
  shows "(\<exists>out since'. console_run ops strerror quiet (engine_init n c0 o0 ticks orders) since evs clks s out since') \<and>
    (\<forall>out since'. console_run ops strerror quiet (engine_init n c0 o0 ticks orders) since evs clks s out since' \<longrightarrow>
       (\<exists>evs1 evs2 s1. evs = evs1 @ evs2 \<and>
          engine_run ops (engine_init n c0 o0 ticks orders) evs1 s1 \<and> engine_run ops s1 evs2 s \<and>
          (if senders_open s then evs2 = [] else eg_pc s1 = M_Join 0) \<and>
          filter is_order out = (if quiet then [] else map engine_order_line (published evs1))) \<and>
       (\<forall>w < n. lines_of_worker w out = map (worker_line strerror w) (wk_log (eg_workers s ! w))) \<and>
       STATS_NS * length (filter is_stats out) \<le> since' - since)"
proof -
  let ?s0 = "engine_init n c0 o0 ticks orders"
  have len: "length (eg_workers ?s0) = n" "\<And>w. w < n \<Longrightarrow> wk_log (eg_workers ?s0 ! w) = []"
    by (simp_all add: engine_init_def worker_init_def)
  show ?thesis
  proof (intro conjI allI impI)
    show "\<exists>out since'. console_run ops strerror quiet ?s0 since evs clks s out since'"
      by (rule run_console_run [OF assms(2,3)])
  next
    fix out since'
    assume run: "console_run ops strerror quiet ?s0 since evs clks s out since'"
    have "senders_open ?s0" by (simp add: senders_open_def engine_init_def)
    from console_run_orders [OF run this]
    show "\<exists>evs1 evs2 s1. evs = evs1 @ evs2 \<and> engine_run ops ?s0 evs1 s1 \<and> engine_run ops s1 evs2 s \<and>
        (if senders_open s then evs2 = [] else eg_pc s1 = M_Join 0) \<and>
        filter is_order out = (if quiet then [] else map engine_order_line (published evs1))"
      unfolding in_loop_part_def by blast
    show "lines_of_worker w out = map (worker_line strerror w) (wk_log (eg_workers s ! w))" if "w < n" for w
      using console_run_workers [OF run] len that by simp
    show "STATS_NS * length (filter is_stats out) \<le> since' - since"
      using console_run_stats [OF run assms(4)] by linarith
  qed
qed

theorem workers_console_witness:
  "\<exists>evs s out since. console_run (list_ops demo_params False) (\<lambda>e. ''error'') False demo_engine 0 evs (replicate 7 (3, 3)) s out since \<and>
     length evs = 7 \<and> filter is_order out = [] \<and> STATS_NS * length (filter is_stats out) \<le> since"
proof -
  obtain s it where run: "engine_run (list_ops demo_params False) demo_engine
     [Quiet, Quiet, Quiet, Arrived (replicate 64 0), Quiet, Given 0 it, Processed 0 (8, 9) it] s" (is "engine_run _ _ ?evs _")
    using demo_engine_run by blast
  have clk: "clock_on 0 (replicate 7 (3, 3))" by (simp add: numeral_eq_Suc)
  have len: "length (replicate 7 (3 :: nat, 3 :: nat)) = length ?evs" by simp
  have st: "starts 1 list_view [] [] fresh_ends fresh_ends" by (rule list_starts) simp
  note c = workers_console [where quiet = False and strerror = "\<lambda>e. ''error''", OF st run [unfolded demo_engine_def] len clk]
  then obtain out since where o: "console_run (list_ops demo_params False) (\<lambda>e. ''error'') False demo_engine 0 ?evs
      (replicate 7 (3, 3)) s out since" unfolding demo_engine_def by blast
  have "published ?evs = []" by (simp add: histories)
  moreover have "published (evs1 @ evs2) = published evs1 @ published evs2" for evs1 evs2 by (simp add: histories)
  ultimately have none: "published evs1 = []" if "?evs = evs1 @ evs2" for evs1 evs2 using that by (metis append_is_Nil_conv)
  from c [THEN conjunct2, rule_format, OF o [unfolded demo_engine_def]] obtain evs1 evs2 where
    "?evs = evs1 @ evs2" "filter is_order out = map engine_order_line (published evs1)"
    "STATS_NS * length (filter is_stats out) \<le> since" by auto
  then have "filter is_order out = []" "STATS_NS * length (filter is_stats out) \<le> since"
    using none by auto
  then show ?thesis using o by (intro exI [of _ ?evs] exI [of _ s] exI [of _ out] exI [of _ since]) simp
qed

end
