(* ===== verification/Command_Line.thy ===== *)
theory Command_Line
  imports Mains
begin

text \<open>
  The options of the three programs and the defaults declared with them (the attributes of the \<open>Args\<close> structs). Reading the
  command line is the work of \<open>clap\<close> and not modelled. The lemmas show that the defaults fit together: the programs
  started without options find each other, and none of them crashes on its own settings.
\<close>

section \<open>Defaults\<close>

definition default_startup :: startup_args where
  "default_startup = \<lparr>sa_pin_cpu = None, sa_resctrl_group = [], sa_noise_threads = 0, sa_noise_cpus = []\<rparr>"

definition exchange_defaults :: "string \<times> exchange_args" where
  "exchange_defaults =
     (''127.0.0.1:9001'', \<lparr>ea_symbols = ''AAPL,MSFT,GOOG,NVDA'', ea_rate = 1000, ea_count = 0, ea_bench_secs = 0\<rparr>)"

definition feedhandler_defaults :: feedhandler_args where
  "feedhandler_defaults =
     \<lparr>fa_bind = ''127.0.0.1:9001'', fa_bus = ''/tmp/shmbus.bin'', fa_ring_depth = 256, fa_noise_resctrl_group = [],
      fa_bench_secs = 0, fa_bench_report = None\<rparr>"

definition engine_defaults :: engine_args where
  "engine_defaults =
     \<lparr>na_bus = ''/tmp/shmbus.bin'', na_ema_halflife = f64_lit 64 1, na_threshold_bps = f64_lit 5 1,
      na_cooldown_ns = 50000000, na_qty = 100, na_workers = 0, na_worker_cpus = [], na_noise_resctrl_group = [],
      na_bench_secs = 0, na_bench_report = None\<rparr>"

section \<open>What they give\<close>

text \<open>The exchange sends to the address the feedhandler listens on, and the feedhandler and the engine open the same bus.\<close>

lemma defaults_meet:
  "fst exchange_defaults = fa_bind feedhandler_defaults" "fa_bus feedhandler_defaults = na_bus engine_defaults"
  by (simp_all add: exchange_defaults_def feedhandler_defaults_def engine_defaults_def)

text \<open>A start without options places nothing and starts no threads.\<close>

lemma default_startup_quiet:
  "exchange_startup os default_startup = (Inr [], [])"
proof -
  have "parse_cpu_list [] = Inr []" by code_simp
  then show ?thesis
    by (simp add: exchange_startup_def place_main_def default_startup_def noise_startup_def cpu_option_def start_noise_def)
qed

text \<open>Four symbols of four letters, a millisecond apart.\<close>

lemma default_symbols:
  "symbol_names (ea_symbols (snd exchange_defaults)) =
    map (\<lambda>s. utf8_bytes s @ [0, 0, 0, 0]) [''AAPL'', ''MSFT'', ''GOOG'', ''NVDA'']"
  by code_simp

lemma default_interval: "per_tick_dur (ea_rate (snd exchange_defaults)) = Some 1000000"
  by code_simp

text \<open>The receives and the timeout fit the io_uring.\<close>

lemma default_depth: "RECV_BATCH + 1 \<le> unat (fa_ring_depth feedhandler_defaults)"
  by (simp add: RECV_BATCH_def feedhandler_defaults_def)

text \<open>An exchange without options never crashes, whatever the draws and the clock.\<close>

lemma default_exchange_runs:
  "\<exists>r. exchange_main (snd exchange_defaults) draws start due rounds = Inr (Some r)"
proof -
  have "symbol_names (ea_symbols (snd exchange_defaults)) \<noteq> []" by (simp add: default_symbols)
  then obtain ss where "parse_symbols (ea_symbols (snd exchange_defaults)) draws = Some ss"
    using parse_symbols_None by blast
  moreover have "bench_deadline start (ea_bench_secs (snd exchange_defaults)) = Inr None"
    by (simp add: bench_deadline_def exchange_defaults_def)
  ultimately show ?thesis by (simp add: exchange_main_def default_interval del: split_paired_Ex)
qed

end
