(* ===== verification/Unit_Tests.thy ===== *)
theory Unit_Tests
  imports Latency Cpu_Info
begin

text \<open>
  The unit tests of the crate \<open>shmbus\<close> (the modules \<open>tests\<close> of \<open>latency.rs\<close> and \<open>cpu.rs\<close>), run on the model: each is the
  conjunction of its assertions, in their order, and holds by evaluation.
\<close>

section \<open>\<open>latency.rs\<close>\<close>

definition records_min_max_count :: bool where
  "records_min_max_count \<longleftrightarrow>
     (let s = summary (record_ns 800 (record_ns 2000 (record_ns 100 histogram_new)))
      in s_count s = 3 \<and> s_min_ns s = 100 \<and> s_max_ns s = 2000)"

definition quantiles_land_in_correct_bucket :: bool where
  "quantiles_land_in_correct_bucket \<longleftrightarrow>
     (let s = summary (record_ns 40000 ((record_ns 900 ^^ 99) histogram_new))
      in s_p50_ns s = 1000 \<and> s_p90_ns s = 1000 \<and> s_p99_ns s = 1000 \<and> s_p999_ns s = 50000)"

section \<open>\<open>cpu.rs\<close>\<close>

definition parse_basic_list :: bool where
  "parse_basic_list \<longleftrightarrow>
     parse_cpu_list [] = Inr [] \<and> parse_cpu_list ''0,1,2'' = Inr [0, 1, 2] \<and> parse_cpu_list ''0-2'' = Inr [0, 1, 2] \<and>
     parse_cpu_list '' 0, 2-4 , 8 '' = Inr [0, 2, 3, 4, 8]"

definition rejects_inverted_range :: bool where
  "rejects_inverted_range \<longleftrightarrow> (case parse_cpu_list ''5-3'' of Inl e \<Rightarrow> True | Inr cs \<Rightarrow> False)"

definition format_collapses_ranges :: bool where
  "format_collapses_ranges \<longleftrightarrow>
     format_cpu_list [] = [] \<and> format_cpu_list [3, 1, 2, 0] = ''0-3'' \<and>
     format_cpu_list [0, 1, 3, 5, 6, 7] = ''0-1,3,5-7''"

definition extract_after_colon_handles_tabs :: bool where
  "extract_after_colon_handles_tabs \<longleftrightarrow>
     extract_after_colon (''vendor_id'' @ [CHR 0x09] @ '': GenuineIntel'') ''vendor_id'' = Some ''GenuineIntel'' \<and>
     extract_after_colon ''flags : fpu'' ''vendor_id'' = None"

section \<open>They pass\<close>

lemma record_many: "(record_ns x ^^ k) histogram_new = histogram_of (replicate k x)"
proof (induction k)
  case (Suc k)
  have "replicate (Suc k) x = replicate k x @ [x]" by (simp add: replicate_append_same)
  then show ?case using Suc by (simp del: replicate_Suc)
qed simp

lemma latency_tests: "records_min_max_count" "quantiles_land_in_correct_bucket"
proof -
  show "records_min_max_count"
    by (simp add: records_min_max_count_def summary_def record_ns_def histogram_new_def Let_def)
  let ?xs = "replicate 99 900 @ [40000 :: u64]"
  have h: "record_ns 40000 ((record_ns 900 ^^ 99) histogram_new) = histogram_of ?xs" by (simp add: record_many)
  have b: "BUCKET_BOUNDS_NS ! bucket_index 900 = 1000" "BUCKET_BOUNDS_NS ! bucket_index 40000 = 50000" by code_simp+
  have s: "sort ?xs = ?xs" by (intro sorted_sort_id) (auto simp: sorted_append)
  have p: "quantile (histogram_of ?xs) f = BUCKET_BOUNDS_NS ! bucket_index (?xs ! (nearest_rank a b 100 - 1))"
    if "percentile_of f a b" for f a b
    using quantile_rank [OF that, of ?xs] s by simp
  have r: "nearest_rank 50 100 100 = 50" "nearest_rank 90 100 100 = 90" "nearest_rank 99 100 100 = 99"
    "nearest_rank 999 1000 100 = 100"
    by (simp_all add: nearest_rank_def)
  show "quantiles_land_in_correct_bucket"
    unfolding quantiles_land_in_correct_bucket_def h Let_def
    by (simp add: summary_def p [of _ 50 100] p [of _ 90 100] p [of _ 99 100] p [of _ 999 1000] percentile_of_def r b nth_append
        del: histogram_of_snoc)
qed

lemma cpu_tests: "parse_basic_list" "rejects_inverted_range" "format_collapses_ranges" "extract_after_colon_handles_tabs"
  by code_simp+

end
