(* ===== verification/Spec2Isabelle.thy ===== *)
theory Spec2Isabelle
  imports Ring_Concurrent Engine_Shutdown Pipeline_Workers Engine_Console Command_Line Unit_Tests
begin

text \<open>
  A low-latency trading benchmark of three processes: a synthetic exchange publishes market ticks
  over UDP, the feedhandler receives them through an io_uring and puts them into a ring in shared
  memory, and the trading engine takes them from there, runs a moving-average strategy and sends orders
  back through a second ring. The crate \<open>shmbus\<close> holds what they share. This
  development models the code of all four crates in a release build, where machine integers wrap around.

  \<^bold>\<open>Theories and sources.\<close>
  \<^item> \<open>Bus_Prelude\<close>: types, the \<open>panic\<close> values, lemmas on words and lists; \<open>Fifo\<close>: the contract of a
    bounded queue as the locale \<open>bounded_fifo\<close>; \<open>Text\<close>: the string functions of the standard library;
    \<open>Float64\<close>, \<open>Float64_Real\<close>: binary64 arithmetic on integers, executable, and its error bounds
    over the reals; \<open>Float_Text\<close>: the text of a float, the shortest decimal that rounds to it.
  \<^item> \<open>Message\<close> (\<open>shmbus/src/message.rs\<close>): the two messages, their memory layout, the
    conversion to and from bytes (\<open>slice::from_raw_parts\<close>, \<open>ptr::read\<close>), \<open>symbol_str\<close>; \<open>Message_Text\<close>: their
    \<open>Display\<close>.
  \<^item> \<open>Ring\<close> (\<open>ring.rs\<close>): \<open>SpscRing\<close> and its handles, \<open>try_publish\<close>, \<open>try_consume\<close>, \<open>pending\<close> as functions on
    the ring's memory, and the interpretation \<open>ring_fifo\<close> of \<open>bounded_fifo\<close>, on which every other
    component rests. \<open>Ring_Concurrent\<close>: the same two calls taken apart into single accesses
    to memory, interleaved, with atomic loads that may return any value not older than the one the
    same thread saw last.
  \<^item> \<open>Shm_Bus\<close> (\<open>shm.rs\<close>): \<open>open_or_create\<close> as one call and as the interleaved steps of two processes.
  \<^item> \<open>Latency\<close> (\<open>latency.rs\<close>), \<open>Cpu_List\<close> and \<open>Cpu_Info\<close> (\<open>cpu.rs\<close>), \<open>Noise\<close> (\<open>noise.rs\<close>, \<open>resctrl.rs\<close>),
    \<open>Report\<close> (\<open>report.rs\<close>): the histogram, the CPU lists and the probe of the host, the noise threads
    and cache groups, the frame of the reports. \<open>Noise_Threads\<close>: the life of the noise threads from
    \<open>spawn_noise\<close> to \<open>NoiseHandle::shutdown\<close>, interleaved.
  \<^item> \<open>Exchange\<close> (\<open>mock-exchange/src/main.rs\<close>): the symbols, one tick (\<open>exchange_tick\<close>), a pass over
    the symbols (\<open>publish_round\<close>), the loop with its exits and its pacing (\<open>publish_loop\<close>, \<open>exchange_main\<close>).
  \<^item> \<open>Feedhandler\<close> (\<open>feedhandler/src/main.rs\<close>): one completion (\<open>handle_completion\<close>), a batch with the
    resubmissions (\<open>handle_done\<close>, \<open>submit_recv\<close>), the drain (\<open>drain_orders\<close>), the iteration and the
    loop (\<open>fh_iteration\<close>, \<open>fh_loop\<close>), the metrics.
  \<^item> \<open>Strategy\<close>, \<open>Engine_Inline\<close>, \<open>Engine_Workers\<close>, \<open>Engine_Shutdown\<close> (\<open>trading-engine/src/main.rs\<close>):
    \<open>strategy_step\<close>; \<open>run_inline\<close>; \<open>run_with_workers\<close> and \<open>worker_main\<close> as the step relation \<open>engine_step\<close> of
    interleaved threads, with stale loads of the stop flag; and the end of the latter. \<open>Engine_Trace\<close>: the same steps with labels, and the histories they
    make. \<open>Binaries\<close>: the start of the three \<open>main\<close> functions, with the noise threads it
    starts before it succeeds, fails or panics, and the reports.
  \<^item> \<open>Pipeline\<close>, \<open>Pipeline_Workers\<close>: the feedhandler and the engine, without and with workers, on one bus, with any
    step of one between any two of the other. \<open>Mains\<close>: \<open>main\<close> of each program from its start to its exit, with
    the noise threads that are still running then, which is a question to the state of \<open>Noise_Threads\<close> in which
    \<open>NoiseHandle::shutdown\<close> has returned, an argument of these definitions.
  \<^item> \<open>Console\<close>, \<open>Console_Text\<close>, \<open>Engine_Console\<close>: what is written to standard error by the loops of the feedhandler and
    of \<open>run_inline\<close>, at the start and the end of the programs and by the worker and noise threads, and by
    \<open>run_with_workers\<close>. \<open>Command_Line\<close>: the defaults of the options. \<open>Unit_Tests\<close>: the tests of \<open>shmbus\<close>.

  \<^bold>\<open>Correspondence.\<close> Structs are records with the fields of the source and a prefix, local variables
  of a loop are the fields of a record of its state (\<open>feedhandler\<close>, \<open>inline_engine\<close>, \<open>engine\<close>, \<open>pub_state\<close>),
  \<open>u64\<close>, \<open>u32\<close>, \<open>i64\<close> and \<open>i32\<close> are words, \<open>usize\<close> indices are \<open>nat\<close> where they cannot wrap, \<open>f64\<close> is the
  datatype of \<open>Float64\<close>, and a hash map is a map. A panic is a value of type \<open>panic\<close>, an error that \<open>main\<close>
  returns a value of the program's error type. What a turn of a loop reads from outside, the stop flag, clocks,
  random draws and completions, is an argument of that turn, so that a lemma about all lists of
  turns is one about all behaviours of the surroundings. Code outside the repository is a parameter with a
  named contract: \<open>uring_ok\<close> for the io_uring, \<open>channels_ok\<close> for the channels of
  \<open>crossbeam_channel\<close> (an instance of \<open>bounded_fifo\<close>), \<open>cpu_set_ok\<close> for \<open>CPU_SET\<close> and its kind, which all pinning goes through
  (\<open>pin_to_cpu\<close>), \<open>os_answers\<close> and the like for system calls.
  Each contract is met by an example, which the witnesses use.

  \<^bold>\<open>What the lemmas show.\<close>
  \<^item> The ring: first in, first out and bounded, also with both sides interleaved and stale loads, with
    no race on the payload; it refines a bounded queue. A producer that is restarted after a crash
    at the wrong moment stalls it.
  \<^item> The bus: what one open does with any file, and that two at once can lose a message.
  \<^item> The exchange: what it publishes, in which order, how fast, and that its walk stays near its anchor.
  \<^item> The feedhandler: every packet is published, or counted as dropped or as bad; the receives stay posted;
    the loop does not panic; no order is left in the ring.
  \<^item> The engine: its orders are those of \<open>strategy_run\<close>, the fold of \<open>strategy_step\<close>; with workers every tick
    and order is accounted for in every interleaving, workers do not share symbols, each worker runs the strategy over
    the ticks it was given, and symbol by symbol the orders made are those of one thread over the ticks processed; the
    shutdown ends if what is outstanding fits the orders channel, and can hang if not.
  \<^item> The strategy: cooldown, side and numbering of orders, and their independence of sharding.
  \<^item> The histogram, the CPU lists, the probe and the reports; the noise threads, whose shutdown ends
    within a bound; the text of the messages, which shows prices of up to fifteen digits exactly.
  \<^item> The console: writing changes nothing, the order lines are the orders (with workers those of the main loop, as the final
    drain writes none), statistics come every two seconds at most, durations are written exactly.
  \<^item> The pair of feedhandler and engine in any interleaving: every drop is counted, and from any state the two can come
    to rest without another. Whole runs: the numbers in a report are those of such a run, how
    each program ends, what a start-up that fails leaves behind, that a worker with a CPU number out of range can end the
    engine, and when a latency is exact.
  \<^item> The defaults of the three programs fit together, and the unit tests of \<open>shmbus\<close> evaluate to true.
  \<^item> Here: ticks of the exchange go through all of it, and the orders of the strategy over them come back.

  \<^bold>\<open>Bounds and fuel.\<close> Only \<open>drain_orders\<close> has fuel; the loop calls it with one more than the capacity of the
  ring, which is enough while the engine publishes nothing during the drain (\<open>drain_orders_all\<close>). The retry of
  \<open>submit_recv\<close> is a \<open>partial_function\<close>, proved to return. The other loops recurse over the list of their
  turns. The shortest decimal is searched among those of at most 17 digits,
  proved to suffice for prices of up to fifteen digits. \<open>shutdown_completes\<close> needs the outstanding orders to fit 8192 places, and \<open>shutdown_hangs\<close> shows why.

  \<^bold>\<open>Coarser than the code.\<close> In the loops of the feedhandler and of the engine a call on a ring is one
  step; \<open>Ring_Concurrent\<close> justifies it. In \<open>fh_loop\<close> the engine acts between iterations, not within one; \<open>Pipeline\<close>
  has it within one. A run without workers in \<open>Mains\<close> is one of \<open>Pipeline\<close>, which may stop after any turn. In
  \<open>Engine_Workers\<close> the processing of an item, which touches only the worker's own state, is one step,
  and so is the receipt that precedes it. A producer that replaces a dead one (\<open>restart_producer\<close>) reads nothing older than
  that one had read, since its process starts after the other has ended.

  \<^bold>\<open>Not modelled.\<close> The command-line parsers, which \<open>clap\<close> generates, and \<open>lib.rs\<close>, which declares modules; how \<open>anyhow\<close>
  prints an error that \<open>main\<close> returns, and the text of the system's own errors, which is an argument; the inside of
  sockets, of the io_uring and of the signal handler, whose results are arguments; the JSON library; \<open>ln\<close> and
  \<open>exp\<close>, which are arguments.
\<close>

section \<open>From the exchange to the strategy and back\<close>

text \<open>A datagram that carries a tick, with_receipt into a buffer that held \<open>old\<close>: the buffer and the
  result of the completion.\<close>

definition packet_of :: "u8 list \<Rightarrow> u8 list \<Rightarrow> market_tick \<Rightarrow> u8 list \<times> i32" where
  "packet_of pad old t = (tick_bytes pad t @ drop MarketTick_SIZE old, of_nat MarketTick_SIZE)"

text \<open>A tick as it arrives, with its time of receipt, and completions that bring the ticks \<open>ds\<close>, each at its time.\<close>

fun with_receipt :: "u64 \<times> market_tick \<Rightarrow> market_tick" where
  "with_receipt (now, t) = t\<lparr>mt_recv_ts_ns := now\<rparr>"

definition deliveries :: "(u64 \<times> market_tick) list \<Rightarrow> (u64 \<times> u8 list \<times> i32) list \<Rightarrow> bool" where
  "deliveries ds ps \<longleftrightarrow>
     list_all2 (\<lambda>(now, t) (now', p). now' = now \<and>
       (\<exists>pad old. length pad = 4 \<and> length old = BUF_SIZE \<and> p = packet_of pad old t)) ds ps"

lemma open_missing: "open_or_create os_ok readies None = (Some Opened, Some \<lparr>bf_len = BUS_SIZE, bf_layout = fresh_bus\<rparr>)"
  by (simp add: open_or_create_def size_file_def map_and_init_def os_ok_def Let_def empty_file_def BUS_SIZE_eq)

lemma exchange_ticks_wf:
  assumes "exchange_main args draws start due rounds = Inr (Some (ts, st, x))" "t \<in> set ts"
  shows "tick_wf t"
proof -
  from assms(1) obtain ss d dl where run: "parse_symbols (ea_symbols args) draws = Some ss"
    "publish_loop (ea_count args) dl d rounds \<lparr>pb_syms = ss, pb_seq = 0, pb_sent = 0, pb_due = due\<rparr> = (ts, st, x)"
    by (rule exchange_main_run)
  have ne: "0 < length ss" using parse_symbols_Some(2) [OF run(1)] by simp
  have "ea_count args = 0 \<or> 0 < unat (ea_count args)" by (simp add: unat_gt_0)
  then have sy: "\<forall>i < length ts. mt_symbol (ts ! i) = map sy_name ss ! (i mod length ss)"
    using publish_loop_shape [OF run(2)] by simp
  obtain i where i: "i < length ts" "t = ts ! i" using assms(2) by (metis in_set_conv_nth)
  then have "mt_symbol t = map sy_name ss ! (i mod length ss)" using sy by simp
  moreover have "i mod length ss < length (map sy_name ss)" using ne by simp
  ultimately have "mt_symbol t \<in> set (map sy_name ss)" by (metis nth_mem)
  then have "mt_symbol t \<in> set (symbol_names (ea_symbols args))" by (simp only: parse_symbols_Some(1) [OF run(1)])
  then show ?thesis by (auto simp: symbol_names_def tick_wf_def)
qed

lemma packet_of_ok:
  assumes "tick_wf t" "length pad = 4" "length old = BUF_SIZE"
  shows "packet_ok (packet_of pad old t)" and "\<not> short_packet (packet_of pad old t)"
    and "arrived_ticks [(now, packet_of pad old t)] = [with_receipt (now, t)]"
proof -
  have "sint (of_nat MarketTick_SIZE :: i32) = int MarketTick_SIZE" by (simp add: layout_simps)
  then show "packet_ok (packet_of pad old t)" "\<not> short_packet (packet_of pad old t)"
    "arrived_ticks [(now, packet_of pad old t)] = [with_receipt (now, t)]"
    using length_tick_bytes [OF assms(1,2)] assms(3)
    by (simp_all add: packet_of_def packet_ok_def short_packet_def arrived_ticks_def tick_of_tick_bytes [OF assms(1)]
        BUF_SIZE_def layout_simps)
qed

lemma deliveries_arrive:
  assumes "deliveries ds ps"
  shows "\<forall>d \<in> set ds. tick_wf (snd d) \<Longrightarrow>
    arrived_ticks ps = map with_receipt ds \<and> filter (short_packet \<circ> snd) ps = [] \<and> length ps = length ds"
  using assms unfolding deliveries_def
proof (induction rule: list_all2_induct)
  case Nil
  then show ?case by (simp add: arrived_ticks_def)
next
  case (Cons d ds q ps)
  obtain now t where d: "d = (now, t)" by force
  obtain pad old where q: "q = (now, packet_of pad old t)" "length pad = 4" "length old = BUF_SIZE"
    using Cons.hyps(1) d by (cases q) auto
  have "tick_wf t" using Cons.prems d by simp
  note ok = packet_of_ok [OF this q(2,3)]
  have "arrived_ticks (q # ps) = arrived_ticks [q] @ arrived_ticks ps" by (simp add: arrived_ticks_def)
  then show ?case using Cons.IH Cons.prems ok(2) ok(3) [of now] d q(1) by simp
qed

text \<open>C2. The whole path, on a new bus and with feedhandler and engine interleaved in any way. Whatever ticks the network
  delivers of those a run of the exchange published, in any order, at any time and with any duplicates, no packet
  is bad, and the ticks published are those delivered, stamped with their time of receipt, less the ones dropped at a full
  ring, which are counted. Until more ticks have been delivered than a ring holds, no tick and no order is dropped.
  From any state on, without further packets, the two programs can reach a state in which nothing is on the way, and
  drop nothing more; and in any such state, if no tick and no order has been dropped, the strategy has run
  over exactly the ticks delivered, and the orders handed back to the feedhandler are exactly its orders.\<close>

theorem ticks_reach_the_strategy:
  assumes "exchange_main args draws start due rounds = Inr (Some (ts, st, x))"
    and "open_or_create os_ok readies None = (Some Opened, Some f)"
    and "(pipeline_step ps)\<^sup>*\<^sup>* (pipeline_init (bus_ticks (bf_layout f)) (bus_orders (bf_layout f))) s"
    and "deliveries ds (pl_packets s)" and "snd ` set ds \<subseteq> set ts" and "length ds < 2 ^ 64"
  shows "fh_bad_packets (pl_fh s) = 0 \<and>
    subseq (pl_published s) (map with_receipt ds) \<and>
    fh_publish_drops (pl_fh s) = of_nat (length ds - length (pl_published s)) \<and>
    (length ds \<le> RING_CAPACITY \<longrightarrow> fh_publish_drops (pl_fh s) = 0 \<and> ie_orders_dropped (pl_en s) = 0) \<and>
    (\<exists>t. (pipeline_step ps)\<^sup>*\<^sup>* s t \<and> no_new_drops s t \<and> at_rest_now t) \<and>
    (\<forall>t. (pipeline_step ps)\<^sup>*\<^sup>* s t \<and> pl_packets t = pl_packets s \<and> at_rest_now t \<and>
         fh_publish_drops (pl_fh t) = 0 \<and> ie_orders_dropped (pl_en t) = 0 \<longrightarrow>
       map snd (pl_taken t) = map with_receipt ds \<and> pl_logged t = offered ps (pl_taken t))"
proof -
  let ?s0 = "pipeline_init (bus_ticks (bf_layout f)) (bus_orders (bf_layout f))"
  have f: "bus_ticks (bf_layout f) = fresh_ends" "bus_orders (bf_layout f) = fresh_ends"
    using assms(2) by (auto simp: open_missing fresh_bus_handles)
  have inv0: "pipeline_inv ps ?s0" unfolding f by (rule pipeline_init_inv) (simp_all add: fresh_ends_ok)
  note inv = pipeline_runs_inv [OF assms(3) inv0]
  have "\<forall>d \<in> set ds. tick_wf (snd d)" using exchange_ticks_wf [OF assms(1)] assms(5) by blast
  from deliveries_arrive [OF assms(4) this]
  have arr: "arrived_ticks (pl_packets s) = map with_receipt ds" and bad: "filter (short_packet \<circ> snd) (pl_packets s) = []"
    and len: "length (pl_packets s) = length ds" by auto
  note acc = pipeline_accounts [OF inv, unfolded arr bad]
  have no: "no_drops_yet s" by (rule few_packets_no_drops [OF assms(3) inv0 pipeline_init_no_drops])
  have rest: "map snd (pl_taken t) = map with_receipt ds \<and> pl_logged t = offered ps (pl_taken t)"
    if "(pipeline_step ps)\<^sup>*\<^sup>* s t" "pl_packets t = pl_packets s" "at_rest_now t"
      "fh_publish_drops (pl_fh t) = 0" "ie_orders_dropped (pl_en t) = 0" for t
    using pipeline_no_drops [OF pipeline_runs_inv [OF that(1) inv]] that assms(6) arr len by (simp add: at_rest_now_def)
  show ?thesis
    using acc no len comes_to_rest [OF inv] rest by (auto simp: no_drops_yet_def works_off_def)
qed

lemma demo_first_pass:
  assumes "exchange_main demo_args draws start due [demo_round 0] = Inr (Some (ts, st, x))"
  shows "length ts = 2"
proof -
  obtain ss where ss: "parse_symbols (ea_symbols demo_args) draws = Some ss" using demo_symbols by blast
  have "length ss = 2" using arg_cong [OF parse_symbols_Some(1) [OF ss], of length] by (simp add: demo_names)
  then obtain a b where ab: "ss = [a, b]" by (auto simp: length_Suc_conv numeral_2_eq_2)
  show ?thesis using assms ss unfolding exchange_main_def ab
    by (auto simp: demo_args_def demo_round_def Let_def word_le_nat_alt split: prod.splits if_splits option.splits)
qed

theorem ticks_reach_the_strategy_witness:
  "\<exists>ts st x t. exchange_main demo_args (\<lambda>i. f64_lit 0 1) 0 0 [demo_round 0] = Inr (Some (ts, st, x)) \<and>
     (pipeline_step demo_params)\<^sup>*\<^sup>* (pipeline_init fresh_ends fresh_ends) t \<and> at_rest_now t \<and>
     map snd (pl_taken t) = [(hd ts)\<lparr>mt_recv_ts_ns := 5\<rparr>] \<and> pl_logged t = offered demo_params (pl_taken t)"
proof -
  obtain ts st x where r: "exchange_main demo_args (\<lambda>i. f64_lit 0 1) 0 0 [demo_round 0] = Inr (Some (ts, st, x))"
    using demo_runs by blast
  have "length ts = 2" using r by (rule demo_first_pass)
  then have t0: "hd ts \<in> set ts" by (cases ts) auto
  let ?s = "pipeline_init fresh_ends fresh_ends"
  let ?pad = "[0, 0, 0, 0] :: u8 list"
  let ?p = "packet_of ?pad (replicate BUF_SIZE 0) (hd ts)"
  obtain buf res where p: "?p = (buf, res)" by force
  have ok: "packet_ok (buf, res)" "ends_ok (fh_ticks (pl_fh ?s))"
    using packet_of_ok(1) [OF exchange_ticks_wf [OF r t0], of ?pad "replicate BUF_SIZE 0"] p
    by (simp_all add: pipeline_init_def feedhandler_init_def fresh_ends_ok)
  obtain fh where fh: "handle_completion ?pad 5 buf res (pl_fh ?s) = Inr fh"
    using handle_completion_fed [OF ok(1) _ ok(2), of ?pad 5] by auto
  have pad: "length ?pad = 4" by simp
  obtain s where "pipeline_step demo_params ?s s" "pl_packets s = [(5, ?p)]"
    using pipeline_step.packet [OF ok(1) pad fh, of demo_params] p by (force simp: pipeline_init_def)
  then have run: "(pipeline_step demo_params)\<^sup>*\<^sup>* ?s s" "pl_packets s = [(5, ?p)]" by blast+
  have "\<exists>pad old. length pad = 4 \<and> length old = BUF_SIZE \<and> ?p = packet_of pad old (hd ts)"
    by (intro exI [of _ ?pad] exI [of _ "replicate BUF_SIZE 0"]) simp
  then have hyps: "deliveries [(5, hd ts)] (pl_packets s)" "snd ` set [(5 :: u64, hd ts)] \<subseteq> set ts"
    "length [(5 :: u64, hd ts)] < 2 ^ 64"
    using run(2) t0 by (simp_all add: deliveries_def)
  have "bus_ticks (bf_layout \<lparr>bf_len = BUS_SIZE, bf_layout = fresh_bus\<rparr>) = fresh_ends"
    "bus_orders (bf_layout \<lparr>bf_len = BUS_SIZE, bf_layout = fresh_bus\<rparr>) = fresh_ends"
    by (simp_all add: fresh_bus_handles)
  note th = ticks_reach_the_strategy [OF r open_missing, unfolded this, OF run(1) hyps]
  then obtain t where t: "(pipeline_step demo_params)\<^sup>*\<^sup>* s t" "no_new_drops s t" "at_rest_now t" by blast
  have "length [(5 :: u64, hd ts)] \<le> RING_CAPACITY" by (simp add: RING_CAPACITY_def)
  then have "fh_publish_drops (pl_fh s) = 0" "ie_orders_dropped (pl_en s) = 0" using th by blast+
  then have "map snd (pl_taken t) = map with_receipt [(5, hd ts)] \<and> pl_logged t = offered demo_params (pl_taken t)"
    using th t by (simp add: no_new_drops_def)
  then show ?thesis using r t rtranclp_trans [OF run(1) t(1)] by auto
qed

end
